(* ===== verification/Chat_Prelude.thy ===== *)
theory Chat_Prelude
  imports Main "HOL-Library.Word" "HOL-Library.AList" "HOL-Library.Sublist"
begin

text \<open>
  Shared vocabulary of the development.

  The C++ scalar types keep their width: \<open>std::uint8_t\<close>, \<open>std::uint32_t\<close> and
  \<open>std::uint64_t\<close> are words read by \<^const>\<open>unat\<close>; \<open>std::int64_t\<close> is a 64-bit word read
  by \<^const>\<open>sint\<close>, so that \<open>static_cast\<close> between the two is the identity on words.
  A \<open>std::string\<close> is a byte sequence and is modelled by the type \<^typ>\<open>string\<close> (HOL characters are
  bytes); a \<open>std::vector<std::uint8_t>\<close> is a list of 8-bit words; \<open>reinterpret_cast\<close>
  between the two is \<open>bytes_of\<close> and \<open>string_of\<close> below.
  An \<open>unordered_map\<close> is an association list (lookup \<^const>\<open>map_of\<close>, store
  \<^const>\<open>AList.update\<close>, erase \<^const>\<open>AList.delete\<close>); its order of iteration is one
  of those the C++ container may use, and no theorem of the library depends on it other
  than through the set of the elements.
  The \<open>named_theorems\<close> collections gather the facts that the component proofs give to the
  simplifier.
\<close>

unbundle bit_operations_syntax

section \<open>Types\<close>

type_synonym u8 = "8 word"
type_synonym u16 = "16 word"
type_synonym u32 = "32 word"
type_synonym u64 = "64 word"
type_synonym i64 = "64 word"
type_synonym i32 = "32 word"

type_synonym user_id = u64
type_synonym room_id = u64
type_synonym msg_id = u64
type_synonym conn_id = u64

named_theorems alist_simps \<open>lookup after store and erase in association lists\<close>
named_theorems byte_simps \<open>conversions between bytes, characters and words\<close>

section \<open>Association lists and sets kept as lists\<close>

declare update_conv' [alist_simps] delete_conv' [alist_simps]

lemma map_of_update_iff [alist_simps]:
  "map_of (AList.update k v m) k' = (if k' = k then Some v else map_of m k')"
  by (simp add: update_conv')

lemma map_of_delete_iff [alist_simps]:
  "map_of (AList.delete k m) k' = (if k' = k then None else map_of m k')"
  by (simp add: delete_conv')

lemma map_of_isSome_iff: "(map_of m k \<noteq> None) = (k \<in> fst ` set m)"
  by (metis map_of_eq_None_iff)

lemma fst_set_delete: "fst ` set (AList.delete k m) = fst ` set m - {k}"
  by (metis delete_keys set_map set_removeAll)

lemma map_of_set_distinct:
  "distinct (map fst m) \<Longrightarrow> (k, v) \<in> set m \<longleftrightarrow> map_of m k = Some v"
  by (metis map_of_eq_Some_iff)

lemma snd_set_map_of:
  "distinct (map fst m) \<Longrightarrow> v \<in> snd ` set m \<longleftrightarrow> (\<exists>k. map_of m k = Some v)"
  by (force simp: map_of_set_distinct [symmetric])

section \<open>Bytes and characters\<close>

definition byte_of :: "char \<Rightarrow> u8" where
  "byte_of c = word_of_nat (of_char c)"

definition char_of_byte :: "u8 \<Rightarrow> char" where
  "char_of_byte b = char_of (unat b)"

definition bytes_of :: "string \<Rightarrow> u8 list" where
  "bytes_of s = map byte_of s"

definition string_of :: "u8 list \<Rightarrow> string" where
  "string_of bs = map char_of_byte bs"

lemma unat_byte_of [byte_simps]: "unat (byte_of c) = of_char c"
proof -
  have "(of_char c :: nat) < 2 ^ 8" using nat_of_char_less_256 [of c] by simp
  then show ?thesis by (simp add: byte_of_def unat_of_nat)
qed

lemma char_of_byte_of [simp, byte_simps]: "char_of_byte (byte_of c) = c"
  by (simp add: char_of_byte_def unat_byte_of)

lemma byte_of_char_of_byte [simp, byte_simps]: "byte_of (char_of_byte b) = b"
proof -
  have "unat b < 256" using unsigned_less [of b] by simp
  then show ?thesis by (simp add: char_of_byte_def byte_of_def)
qed

lemma string_of_bytes_of [simp]: "string_of (bytes_of s) = s"
  by (simp add: string_of_def bytes_of_def o_def)

lemma bytes_of_string_of [simp]: "bytes_of (string_of bs) = bs"
  by (simp add: string_of_def bytes_of_def o_def)

lemma length_bytes_of [simp]: "length (bytes_of s) = length s"
  by (simp add: bytes_of_def)

lemma length_string_of [simp]: "length (string_of bs) = length bs"
  by (simp add: string_of_def)

lemma bytes_of_append [simp]: "bytes_of (s @ t) = bytes_of s @ bytes_of t"
  by (simp add: bytes_of_def)

lemma string_of_append [simp]: "string_of (s @ t) = string_of s @ string_of t"
  by (simp add: string_of_def)

lemma bytes_of_inject [simp]: "bytes_of s = bytes_of t \<longleftrightarrow> s = t"
  by (metis string_of_bytes_of)

lemma byte_of_inject [simp]: "byte_of c = byte_of d \<longleftrightarrow> c = d"
  by (metis char_of_byte_of)

section \<open>Big-endian 32-bit words\<close>

text \<open>
  \<open>load_be32\<close> and \<open>store_be32\<close> of \<open>src/src/auth/crypto.cpp\<close>; the same shifts are written
  out in the framing code, so the round trip is proved once here.
\<close>

definition load_be32 :: "u8 \<Rightarrow> u8 \<Rightarrow> u8 \<Rightarrow> u8 \<Rightarrow> u32" where
  "load_be32 p0 p1 p2 p3 =
     push_bit 24 (ucast p0) OR push_bit 16 (ucast p1) OR push_bit 8 (ucast p2) OR ucast p3"

definition store_be32 :: "u32 \<Rightarrow> u8 list" where
  "store_be32 v = [ucast (drop_bit 24 v), ucast (drop_bit 16 v), ucast (drop_bit 8 v), ucast v]"

lemma length_store_be32 [simp]: "length (store_be32 v) = 4"
  by (simp add: store_be32_def)

lemma bit_u8_ge [simp]: "8 \<le> n \<Longrightarrow> \<not> bit (p :: u8) n"
  using bit_imp_le_length [of p n] by auto

lemma load_store_be32 [simp]:
  "load_be32 (ucast (drop_bit 24 v)) (ucast (drop_bit 16 v)) (ucast (drop_bit 8 v)) (ucast v) = v"
  (is "?l = v")
proof (rule bit_word_eqI)
  fix n assume "n < LENGTH(32)"
  then consider "n < 8" | "8 \<le> n" "n < 16" | "16 \<le> n" "n < 24" | "24 \<le> n" "n < 32"
    by force
  then show "bit ?l n = bit v n"
    by cases (auto simp: load_be32_def bit_simps)
qed

lemma store_load_be32 [simp]: "store_be32 (load_be32 p0 p1 p2 p3) = [p0, p1, p2, p3]"
proof -
  have "(ucast (drop_bit 24 (load_be32 p0 p1 p2 p3)) :: u8) = p0"
    and "(ucast (drop_bit 16 (load_be32 p0 p1 p2 p3)) :: u8) = p1"
    and "(ucast (drop_bit 8 (load_be32 p0 p1 p2 p3)) :: u8) = p2"
    and "(ucast (load_be32 p0 p1 p2 p3) :: u8) = p3"
    unfolding load_be32_def by (auto intro!: bit_word_eqI simp: bit_simps)
  then show ?thesis by (simp add: store_be32_def)
qed

lemma and_FF [byte_simps]: "(x AND 0xFF :: u32) = take_bit 8 x"
  by (simp add: take_bit_eq_mask mask_eq_exp_minus_1)

lemma ucast_take_bit_8 [byte_simps]: "(ucast (take_bit 8 (x :: u32)) :: u8) = ucast x"
  by (rule bit_word_eqI) (auto simp: bit_simps)

section \<open>Lists\<close>

lemma take_drop_append_length [simp]:
  "length xs = n \<Longrightarrow> take n (xs @ ys) = xs" "length xs = n \<Longrightarrow> drop n (xs @ ys) = ys"
  by simp_all

lemma unat_of_nat_u32: "n < 2 ^ 32 \<Longrightarrow> unat (word_of_nat n :: u32) = n"
  by (simp add: unat_of_nat)

lemma takeWhile_append_stop:
  "\<forall>c\<in>set xs. P c \<Longrightarrow> ys = [] \<or> \<not> P (hd ys) \<Longrightarrow> takeWhile P (xs @ ys) = xs"
  by (induction xs) (auto simp: takeWhile_eq_Nil_iff)

end
