(* ===== verification/Cxx_Std.thy ===== *)
theory Cxx_Std
  imports Chat_Prelude
begin

text \<open>
  What the sources use of the C++ standard library on characters and numbers, in the
  ``C'' locale: \<open>std::isspace\<close>, \<open>std::tolower\<close>, \<open>std::toupper\<close>,
  \<open>std::to_string\<close>, and the \<open>std::sto*\<close> family. The latter skip leading white space,
  take an optional sign and the longest run of decimal digits, ignore what follows, and
  throw \<open>invalid_argument\<close> without a digit or \<open>out_of_range\<close>; both exceptions are
  \<^const>\<open>None\<close> here, since every caller catches them together. \<open>std::stoul\<close> accepts a
  minus sign and negates modulo $2^{64}$, as \<open>strtoul\<close> does.
  \<open>from_double\<close> is the value of a \<open>double\<close> cut to an integer; outside the range of
  the target the C++ conversion is undefined and the result is a parameter.
\<close>

section \<open>Characters\<close>

definition isspace :: "char \<Rightarrow> bool" where
  "isspace c = (let n = of_char c :: nat in n = 32 \<or> 9 \<le> n \<and> n \<le> 13)"

definition isdigit :: "char \<Rightarrow> bool" where
  "isdigit c = (let n = of_char c :: nat in 48 \<le> n \<and> n \<le> 57)"

definition tolower :: "char \<Rightarrow> char" where
  "tolower c = (let n = of_char c :: nat in if 65 \<le> n \<and> n \<le> 90 then char_of (n + 32) else c)"

definition toupper :: "char \<Rightarrow> char" where
  "toupper c = (let n = of_char c :: nat in if 97 \<le> n \<and> n \<le> 122 then char_of (n - 32) else c)"

lemma of_char_char_of_small: "n < 256 \<Longrightarrow> (of_char (char_of n) :: nat) = n"
  by simp

lemma tolower_idem [simp]: "tolower (tolower c) = tolower c"
  by (auto simp: tolower_def Let_def)

lemma tolower_toupper [simp]: "tolower (toupper c) = tolower c"
proof -
  have "(of_char c :: nat) < 256" by simp
  then show ?thesis
    by (auto simp: tolower_def toupper_def Let_def)
qed

lemma isspace_tolower [simp]: "isspace (tolower c) = isspace c"
proof -
  have "(of_char c :: nat) < 256" by simp
  then show ?thesis by (auto simp: tolower_def isspace_def Let_def)
qed

text \<open>What a function that takes a C string sees of a string.\<close>

definition c_str :: "string \<Rightarrow> string" where
  "c_str s = takeWhile (\<lambda>c. c \<noteq> CHR 0x00) s"

section \<open>Decimal numerals\<close>

definition digit_char :: "nat \<Rightarrow> char" where
  "digit_char d = char_of (48 + d)"

fun show_nat :: "nat \<Rightarrow> string" where
  "show_nat n = (if n < 10 then [digit_char n] else show_nat (n div 10) @ [digit_char (n mod 10)])"

declare show_nat.simps [simp del]

definition show_u64 :: "u64 \<Rightarrow> string" where
  "show_u64 w = show_nat (unat w)"

definition show_i64 :: "i64 \<Rightarrow> string" where
  "show_i64 w = (let v = sint w in if v < 0 then CHR ''-'' # show_nat (nat (- v)) else show_nat (nat v))"

definition digits_val :: "string \<Rightarrow> nat" where
  "digits_val ds = foldl (\<lambda>a c. 10 * a + (of_char c - 48)) 0 ds"

text \<open>Sign and magnitude read by \<open>strtol\<close> and its kin in base 10.\<close>

definition strto :: "string \<Rightarrow> (bool \<times> nat) option" where
  "strto s =
     (let s1 = dropWhile isspace s;
          neg = (s1 \<noteq> [] \<and> hd s1 = CHR ''-'');
          s2 = (if s1 \<noteq> [] \<and> (hd s1 = CHR ''-'' \<or> hd s1 = CHR ''+'') then tl s1 else s1);
          ds = takeWhile isdigit s2
      in if ds = [] then None else Some (neg, digits_val ds))"

definition signed_of :: "bool \<times> nat \<Rightarrow> int" where
  "signed_of p = (if fst p then - int (snd p) else int (snd p))"

definition stoll :: "string \<Rightarrow> i64 option" where
  "stoll s = (case strto s of None \<Rightarrow> None
     | Some p \<Rightarrow> (let v = signed_of p in
         if - (2 ^ 63) \<le> v \<and> v < 2 ^ 63 then Some (word_of_int v) else None))"

definition stoi :: "string \<Rightarrow> int option" where
  "stoi s = (case strto s of None \<Rightarrow> None
     | Some p \<Rightarrow> (let v = signed_of p in
         if - (2 ^ 31) \<le> v \<and> v < 2 ^ 31 then Some v else None))"

definition stoul :: "string \<Rightarrow> u64 option" where
  "stoul s = (case strto s of None \<Rightarrow> None
     | Some p \<Rightarrow> (if snd p < 2 ^ 64 then Some (word_of_int (signed_of p)) else None))"

lemma digit_char_isdigit [simp]: "d < 10 \<Longrightarrow> isdigit (digit_char d)"
  by (simp add: digit_char_def isdigit_def Let_def)

lemma digit_char_not_isspace [simp]: "d < 10 \<Longrightarrow> \<not> isspace (digit_char d)"
  by (simp add: digit_char_def isspace_def Let_def)

lemma of_char_digit_char [simp]: "d < 10 \<Longrightarrow> (of_char (digit_char d) :: nat) = 48 + d"
  by (simp add: digit_char_def)

lemma show_nat_digits: "\<forall>c\<in>set (show_nat n). isdigit c"
proof (induction n rule: show_nat.induct)
  case (1 n)
  then show ?case by (subst show_nat.simps) auto
qed

lemma show_nat_nonempty [simp]: "show_nat n \<noteq> []"
  by (subst show_nat.simps) simp

lemma takeWhile_show_nat [simp]: "takeWhile isdigit (show_nat n) = show_nat n"
  using show_nat_digits [of n] by (simp add: takeWhile_eq_all_conv)

lemma digits_val_snoc: "digits_val (ds @ [c]) = 10 * digits_val ds + (of_char c - 48)"
  by (simp add: digits_val_def)

lemma digits_val_show_nat [simp]: "digits_val (show_nat n) = n"
proof (induction n rule: show_nat.induct)
  case (1 n)
  show ?case
  proof (cases "n < 10")
    case True
    then show ?thesis by (subst show_nat.simps) (simp add: digits_val_def)
  next
    case False
    with 1 have "digits_val (show_nat (n div 10)) = n div 10" by simp
    with False show ?thesis by (subst show_nat.simps) (simp add: digits_val_snoc)
  qed
qed

lemma isdigit_hd_signs: "isdigit c \<Longrightarrow> \<not> isspace c \<and> c \<noteq> CHR ''-'' \<and> c \<noteq> CHR ''+''"
  by (auto simp: isdigit_def isspace_def Let_def)

text \<open>Reading back a printed numeral followed by anything that is not a digit.\<close>

lemma strto_show_nat [simp]:
  assumes "rest = [] \<or> \<not> isdigit (hd rest)"
  shows "strto (show_nat n @ rest) = Some (False, n)"
proof -
  obtain c cs where c: "show_nat n = c # cs" by (cases "show_nat n") auto
  with show_nat_digits [of n] have "isdigit c" by simp
  note hd = isdigit_hd_signs [OF this]
  have "takeWhile isdigit (show_nat n @ rest) = show_nat n"
    using show_nat_digits [of n] assms by (intro takeWhile_append_stop)
  then have "takeWhile isdigit (c # cs @ rest) = c # cs" and "digits_val (c # cs) = n"
    using c digits_val_show_nat [of n] by simp_all
  then show ?thesis
    using c hd by (simp add: strto_def Let_def)
qed

lemma stoul_show_nat:
  assumes "n < 2 ^ 64" and "rest = [] \<or> \<not> isdigit (hd rest)"
  shows "stoul (show_nat n @ rest) = Some (word_of_nat n)"
  using assms by (simp add: stoul_def signed_of_def)

lemma stoll_show_i64: "stoll (show_i64 w) = Some w"
proof -
  have lo: "- (2 ^ 63) \<le> sint w" and hi: "sint w < 2 ^ 63"
    using sint_ge [of w] sint_lt [of w] by simp_all
  show ?thesis
  proof (cases "sint w < 0")
    case True
    let ?m = "nat (- sint w)"
    have "strto (show_i64 w) = Some (True, ?m)"
      using True by (simp add: strto_def show_i64_def Let_def isspace_def)
    then show ?thesis using True lo hi by (simp add: stoll_def signed_of_def)
  next
    case False
    then have "strto (show_i64 w) = Some (False, nat (sint w))"
      using strto_show_nat [of "[]" "nat (sint w)"] by (simp add: show_i64_def Let_def)
    then show ?thesis using False lo hi by (simp add: stoll_def signed_of_def)
  qed
qed

section \<open>Searching a string\<close>

text \<open>\<open>std::string::find (c, pos)\<close>; \<^const>\<open>None\<close> is \<open>npos\<close>.\<close>

definition str_find :: "string \<Rightarrow> char \<Rightarrow> nat \<Rightarrow> nat option" where
  "str_find s c pos = List.find (\<lambda>i. s ! i = c) [pos..<length s]"

lemma str_find_append:
  assumes "length a = pos" and "c \<notin> set x"
  shows "str_find (a @ x @ c # y) c pos = Some (pos + length x)"
proof -
  have "(a @ x @ c # y) ! (pos + j) \<noteq> c" if "j < length x" for j
    using that assms nth_mem [of j x] by (auto simp: nth_append)
  moreover have "(a @ x @ c # y) ! (pos + length x) = c"
    using assms(1) by (simp add: nth_append)
  ultimately show ?thesis
    unfolding str_find_def find_Some_iff using assms(1) by (intro exI [of _ "length x"]) (auto simp del: upt_Suc)
qed

lemma str_find_SomeD:
  assumes "str_find s c pos = Some i"
  shows "\<exists>x y. s = take pos s @ x @ c # y \<and> c \<notin> set x \<and> pos \<le> length s \<and> i = pos + length x"
proof -
  from assms obtain j where j: "j < length s - pos" "s ! (pos + j) = c" "i = pos + j"
    "\<And>k. k < j \<Longrightarrow> s ! (pos + k) \<noteq> c"
    unfolding str_find_def find_Some_iff by (auto simp del: upt_Suc)
  have "drop pos s = take j (drop pos s) @ c # drop (Suc j) (drop pos s)"
    using j(1,2) id_take_nth_drop [of j "drop pos s"] by simp
  moreover have "c \<notin> set (take j (drop pos s))"
    using j(1,4) by (auto simp: in_set_conv_nth)
  ultimately show ?thesis
    using j(1,3) append_take_drop_id [of pos s]
    by (intro exI [of _ "take j (drop pos s)"] exI [of _ "drop (Suc j) (drop pos s)"]) auto
qed

section \<open>Floating point values\<close>

text \<open>
  A finite \<open>double\<close> is a dyadic number, \<open>m * 2 ^ e\<close> with an integer mantissa; the JSON
  parser produces no infinities and no NaN.
\<close>

datatype double = Double (mant: int) (expo: int)

definition trunc_double :: "double \<Rightarrow> int" where
  "trunc_double d =
     (if 0 \<le> expo d then mant d * 2 ^ nat (expo d)
      else sgn (mant d) * (\<bar>mant d\<bar> div 2 ^ nat (- expo d)))"

definition from_double :: "(double \<Rightarrow> i64) \<Rightarrow> double \<Rightarrow> i64" where
  "from_double ub d =
     (let v = trunc_double d in
      if - (2 ^ 63) \<le> v \<and> v < 2 ^ 63 then word_of_int v else ub d)"

text \<open>
  \<open>strtod\<close> on the numerals a JSON scanner passes to it: digits with an optional minus sign, an
  optional fraction and an optional exponent. The value is the nearest double, ties to
  even, with 53 bits of precision and exponents from -1074; \<^const>\<open>None\<close> is \<open>HUGE_VAL\<close>, the
  answer when the rounded value is \<open>2 ^ 1024\<close> or more in size.
\<close>

fun bit_len :: "nat \<Rightarrow> nat" where
  "bit_len n = (if n = 0 then 0 else Suc (bit_len (n div 2)))"

declare bit_len.simps [simp del]

definition round_half_even :: "nat \<Rightarrow> nat \<Rightarrow> nat" where
  "round_half_even p q =
     (let r = p div q; m = p mod q in if q < 2 * m \<or> 2 * m = q \<and> odd r then r + 1 else r)"

definition nearest_double :: "bool \<Rightarrow> nat \<Rightarrow> nat \<Rightarrow> double option" where
  "nearest_double neg p q =
     (if p = 0 then Some (Double 0 0)
      else
        (let a = int (bit_len p) - int (bit_len q);
             below = (if 0 \<le> a then p < q * 2 ^ nat a else p * 2 ^ nat (- a) < q);
             e = max (-1074) (if below then a - 53 else a - 52);
             r = (if 0 \<le> e then round_half_even p (q * 2 ^ nat e) else round_half_even (p * 2 ^ nat (- e)) q)
         in if 2 ^ 1024 \<le> (if 0 \<le> e then r * 2 ^ nat e else r div 2 ^ nat (- e)) then None
            else Some (Double (if neg then - int r else int r) e)))"

definition strtod :: "string \<Rightarrow> double option" where
  "strtod s =
     (let neg = (s \<noteq> [] \<and> hd s = CHR ''-'');
          s1 = (if neg then tl s else s);
          ip = takeWhile isdigit s1;
          s2 = dropWhile isdigit s1;
          fp = (if s2 \<noteq> [] \<and> hd s2 = CHR ''.'' then takeWhile isdigit (tl s2) else []);
          s3 = (if s2 \<noteq> [] \<and> hd s2 = CHR ''.'' then dropWhile isdigit (tl s2) else s2);
          ep = (if s3 \<noteq> [] \<and> (hd s3 = CHR ''e'' \<or> hd s3 = CHR ''E'')
                then (case strto (tl s3) of None \<Rightarrow> 0 | Some x \<Rightarrow> signed_of x) else 0);
          m = digits_val (ip @ fp);
          e10 = ep - int (length fp)
      in nearest_double neg (m * 10 ^ nat e10) (10 ^ nat (- e10)))"

end
