(* ===== verification/Json.thy ===== *)
theory Json
  imports Cxx_Std "HOL-Library.List_Lexorder" "HOL-Library.Char_ord"
begin

text \<open>
  JSON values as the vendored \<open>src/third_party/nlohmann/json.hpp\<close> keeps them: the alternatives
  of \<open>value_t\<close>, integers split into signed and unsigned ones, and objects as ordered maps
  from keys to values. \<open>std::map\<close> is a list of pairs in increasing order of the keys,
  compared byte by byte; \<open>obj_set\<close> is \<open>operator[]\<close> followed by an assignment. The
  alternatives \<open>binary\<close> and \<open>discarded\<close> have no value here: the server builds none and
  the parser, called without a callback, produces none.
\<close>

section \<open>Values\<close>

datatype json =
    JNull
  | JObject "(string \<times> json) list"
  | JArray "json list"
  | JString string
  | JBool bool
  | JInt i64
  | JUInt u64
  | JFloat double

type_synonym jobj = "(string \<times> json) list"

text \<open>\<open>std::map\<close> with \<open>std::string\<close> keys.\<close>

fun obj_set :: "string \<Rightarrow> 'v \<Rightarrow> (string \<times> 'v) list \<Rightarrow> (string \<times> 'v) list" where
  "obj_set k v [] = [(k, v)]"
| "obj_set k v ((k', v') # m) =
     (if k < k' then (k, v) # (k', v') # m
      else if k = k' then (k, v) # m
      else (k', v') # obj_set k v m)"

definition obj_sorted :: "(string \<times> 'v) list \<Rightarrow> bool" where
  "obj_sorted m = sorted_wrt (<) (map fst m)"

text \<open>\<open>find\<close>: on a value that is not an object the answer is \<open>end ()\<close>.\<close>

fun json_find :: "json \<Rightarrow> string \<Rightarrow> json option" where
  "json_find (JObject m) k = map_of m k"
| "json_find _ k = None"

lemma map_of_obj_set [simp, alist_simps]:
  "map_of (obj_set k v m) k' = (if k' = k then Some v else map_of m k')"
  by (induction k v m rule: obj_set.induct) auto

lemma fst_obj_set [simp]: "fst ` set (obj_set k v m) = insert k (fst ` set m)"
  by (induction k v m rule: obj_set.induct) auto

lemma obj_sorted_Nil [simp]: "obj_sorted []"
  by (simp add: obj_sorted_def)

lemma obj_sorted_Cons: "obj_sorted ((k, v) # m) \<longleftrightarrow> (\<forall>k'\<in>fst ` set m. k < k') \<and> obj_sorted m"
  by (auto simp: obj_sorted_def)

lemma obj_sorted_set [simp]: "obj_sorted m \<Longrightarrow> obj_sorted (obj_set k v m)"
proof (induction k v m rule: obj_set.induct)
  case (2 k v k' v' m)
  then show ?case
    by (auto simp: obj_sorted_Cons intro: less_trans)
qed (simp add: obj_sorted_Cons)

lemma obj_set_snoc: "\<forall>k'\<in>fst ` set m. k' < k \<Longrightarrow> obj_set k v m = m @ [(k, v)]"
  by (induction k v m rule: obj_set.induct) (auto dest: less_asym)

lemma obj_sorted_append:
  "obj_sorted (m @ [(k, v)]) \<longleftrightarrow> obj_sorted m \<and> (\<forall>k'\<in>fst ` set m. k' < k)"
  by (auto simp: obj_sorted_def sorted_wrt_append)

text \<open>Every object inside a value has its keys in order.\<close>

fun json_sorted :: "json \<Rightarrow> bool" where
  "json_sorted (JObject m) = (obj_sorted m \<and> (\<forall>v\<in>snd ` set m. json_sorted v))"
| "json_sorted (JArray xs) = (\<forall>v\<in>set xs. json_sorted v)"
| "json_sorted _ = True"

end
