(* ===== verification/Json_Lexer.thy ===== *)
theory Json_Lexer
  imports Json
begin

text \<open>
  The scanner of \<open>src/third_party/nlohmann/json.hpp\<close> (class \<open>lexer\<close>), as the parser runs it
  over a \<open>std::string\<close>: one character is read at a time through \<open>get\<close>, and one can be
  put back by \<open>unget\<close>. A character is an integer from 0 to 255, the end of the input is
  \<open>-1\<close>. The texts kept for error messages (\<open>token_string\<close>, \<open>error_message\<close>, line and
  column) are left out, since \<open>chat::protocol::parse\<close> drops the exception; the count of
  characters read stays, because \<open>scan\<close> decides from it whether to look for a byte order
  mark. Comments are not ignored (\<open>ignore_comments\<close> is false in the only call), and the
  decimal point of the ``C'' locale is a dot.
\<close>

section \<open>The code: state and input\<close>

datatype token_type =
    Uninitialized | LiteralTrue | LiteralFalse | LiteralNull
  | ValueString | ValueUnsigned | ValueInteger | ValueFloat
  | BeginArray | BeginObject | EndArray | EndObject
  | NameSeparator | ValueSeparator | ParseError | EndOfInput | LiteralOrValue

record lexer =
  ia :: string
  current :: int
  next_unget :: bool
  chars_read_total :: nat
  token_buffer :: string
  value_integer :: i64
  value_unsigned :: u64
  value_float :: "double option"

definition lexer_init :: "string \<Rightarrow> lexer" where
  "lexer_init s = \<lparr>ia = s, current = -1, next_unget = False, chars_read_total = 0,
     token_buffer = [], value_integer = 0, value_unsigned = 0, value_float = Some (Double 0 0)\<rparr>"

text \<open>\<open>get_character\<close> of the iterator adapter, inside \<open>get\<close>.\<close>

definition get_character :: "lexer \<Rightarrow> lexer" where
  "get_character lx =
     (case ia lx of
        [] \<Rightarrow> lx\<lparr>current := -1\<rparr>
      | c # cs \<Rightarrow> lx\<lparr>current := int (of_char c), ia := cs\<rparr>)"

definition lex_get :: "lexer \<Rightarrow> lexer" where
  "lex_get lx =
     (let lx1 = lx\<lparr>chars_read_total := chars_read_total lx + 1\<rparr>
      in if next_unget lx1 then lx1\<lparr>next_unget := False\<rparr> else get_character lx1)"

definition lex_unget :: "lexer \<Rightarrow> lexer" where
  "lex_unget lx = lx\<lparr>next_unget := True, chars_read_total := chars_read_total lx - 1\<rparr>"

definition lex_reset :: "lexer \<Rightarrow> lexer" where
  "lex_reset lx = lx\<lparr>token_buffer := []\<rparr>"

definition lex_add :: "int \<Rightarrow> lexer \<Rightarrow> lexer" where
  "lex_add c lx = lx\<lparr>token_buffer := token_buffer lx @ [char_of (nat c)]\<rparr>"

section \<open>The code: strings\<close>

text \<open>\<open>get_codepoint\<close>: four hexadecimal digits, or \<open>-1\<close>.\<close>

definition hex_digit :: "int \<Rightarrow> int option" where
  "hex_digit c =
     (if 0x30 \<le> c \<and> c \<le> 0x39 then Some (c - 0x30)
      else if 0x41 \<le> c \<and> c \<le> 0x46 then Some (c - 0x37)
      else if 0x61 \<le> c \<and> c \<le> 0x66 then Some (c - 0x57)
      else None)"

fun get_codepoint_loop :: "nat list \<Rightarrow> int \<Rightarrow> lexer \<Rightarrow> int \<times> lexer" where
  "get_codepoint_loop [] codepoint lx = (codepoint, lx)"
| "get_codepoint_loop (factor # factors) codepoint lx =
     (let lx1 = lex_get lx in
      case hex_digit (current lx1) of
        None \<Rightarrow> (-1, lx1)
      | Some d \<Rightarrow> get_codepoint_loop factors (codepoint + push_bit factor d) lx1)"

definition get_codepoint :: "lexer \<Rightarrow> int \<times> lexer" where
  "get_codepoint lx = get_codepoint_loop [12, 8, 4, 0] 0 lx"

text \<open>\<open>next_byte_in_range\<close>: the ranges are pairs of bounds.\<close>

fun next_byte_loop :: "(int \<times> int) list \<Rightarrow> lexer \<Rightarrow> bool \<times> lexer" where
  "next_byte_loop [] lx = (True, lx)"
| "next_byte_loop ((lo, hi) # ranges) lx =
     (let lx1 = lex_get lx in
      if lo \<le> current lx1 \<and> current lx1 \<le> hi
      then next_byte_loop ranges (lex_add (current lx1) lx1)
      else (False, lx1))"

definition next_byte_in_range :: "(int \<times> int) list \<Rightarrow> lexer \<Rightarrow> bool \<times> lexer" where
  "next_byte_in_range ranges lx = next_byte_loop ranges (lex_add (current lx) lx)"

text \<open>The bytes of a code point.\<close>

definition utf8_bytes :: "u32 \<Rightarrow> u32 list" where
  "utf8_bytes cp =
     (if cp < 0x80 then [cp]
      else if cp \<le> 0x7FF then [0xC0 OR drop_bit 6 cp, 0x80 OR (cp AND 0x3F)]
      else if cp \<le> 0xFFFF then
        [0xE0 OR drop_bit 12 cp, 0x80 OR (drop_bit 6 cp AND 0x3F), 0x80 OR (cp AND 0x3F)]
      else
        [0xF0 OR drop_bit 18 cp, 0x80 OR (drop_bit 12 cp AND 0x3F),
         0x80 OR (drop_bit 6 cp AND 0x3F), 0x80 OR (cp AND 0x3F)])"

text \<open>
  The escape \<open>\u\<close>: \<open>Some\<close> of the code point, or \<open>None\<close> for a parse error.
\<close>

definition scan_unicode :: "lexer \<Rightarrow> u32 option \<times> lexer" where
  "scan_unicode lx =
     (let (codepoint1, lx1) = get_codepoint lx in
      if codepoint1 = -1 then (None, lx1)
      else if 0xD800 \<le> codepoint1 \<and> codepoint1 \<le> 0xDBFF then
        (let lx2 = lex_get lx1 in
         if current lx2 \<noteq> 0x5C then (None, lx2)
         else
           (let lx3 = lex_get lx2 in
            if current lx3 \<noteq> 0x75 then (None, lx3)
            else
              (let (codepoint2, lx4) = get_codepoint lx3 in
               if codepoint2 = -1 then (None, lx4)
               else if 0xDC00 \<le> codepoint2 \<and> codepoint2 \<le> 0xDFFF then
                 (Some (push_bit 10 (word_of_int codepoint1) + word_of_int codepoint2 - 0x35FDC00), lx4)
               else (None, lx4))))
      else if 0xDC00 \<le> codepoint1 \<and> codepoint1 \<le> 0xDFFF then (None, lx1)
      else (Some (word_of_int codepoint1), lx1))"

text \<open>What follows a backslash; true when scanning goes on.\<close>

definition scan_escape :: "lexer \<Rightarrow> bool \<times> lexer" where
  "scan_escape lx =
     (let lx1 = lex_get lx; c = current lx1 in
      if c = 0x22 then (True, lex_add 0x22 lx1)
      else if c = 0x5C then (True, lex_add 0x5C lx1)
      else if c = 0x2F then (True, lex_add 0x2F lx1)
      else if c = 0x62 then (True, lex_add 0x08 lx1)
      else if c = 0x66 then (True, lex_add 0x0C lx1)
      else if c = 0x6E then (True, lex_add 0x0A lx1)
      else if c = 0x72 then (True, lex_add 0x0D lx1)
      else if c = 0x74 then (True, lex_add 0x09 lx1)
      else if c = 0x75 then
        (let (cp, lx2) = scan_unicode lx1 in
         case cp of
           None \<Rightarrow> (False, lx2)
         | Some w \<Rightarrow> (True, foldl (\<lambda>l b. lex_add (uint b) l) lx2 (utf8_bytes w)))
      else (False, lx1))"

text \<open>
  One round of the loop of \<open>scan_string\<close>: \<open>Some\<close> of the token that ends it, or \<open>None\<close> to go
  on. The cases of the switch are the ranges of the first byte of a character.
\<close>

definition continue_if :: "bool \<times> lexer \<Rightarrow> token_type option \<times> lexer" where
  "continue_if r = (if fst r then None else Some ParseError, snd r)"

definition scan_string_step :: "lexer \<Rightarrow> token_type option \<times> lexer" where
  "scan_string_step lx0 =
     (let lx = lex_get lx0; c = current lx in
      if c = -1 then (Some ParseError, lx)
      else if c = 0x22 then (Some ValueString, lx)
      else if c = 0x5C then continue_if (scan_escape lx)
      else if 0x00 \<le> c \<and> c \<le> 0x1F then (Some ParseError, lx)
      else if 0x20 \<le> c \<and> c \<le> 0x7F then (None, lex_add c lx)
      else if 0xC2 \<le> c \<and> c \<le> 0xDF then continue_if (next_byte_in_range [(0x80, 0xBF)] lx)
      else if c = 0xE0 then continue_if (next_byte_in_range [(0xA0, 0xBF), (0x80, 0xBF)] lx)
      else if 0xE1 \<le> c \<and> c \<le> 0xEC \<or> c = 0xEE \<or> c = 0xEF
        then continue_if (next_byte_in_range [(0x80, 0xBF), (0x80, 0xBF)] lx)
      else if c = 0xED then continue_if (next_byte_in_range [(0x80, 0x9F), (0x80, 0xBF)] lx)
      else if c = 0xF0
        then continue_if (next_byte_in_range [(0x90, 0xBF), (0x80, 0xBF), (0x80, 0xBF)] lx)
      else if 0xF1 \<le> c \<and> c \<le> 0xF3
        then continue_if (next_byte_in_range [(0x80, 0xBF), (0x80, 0xBF), (0x80, 0xBF)] lx)
      else if c = 0xF4
        then continue_if (next_byte_in_range [(0x80, 0x8F), (0x80, 0xBF), (0x80, 0xBF)] lx)
      else (Some ParseError, lx))"

section \<open>Progress\<close>

text \<open>
  The characters still to be read, a put-back one included. Every scan function consumes
  from the front of them; this is what makes the loops end.
\<close>

definition ahead :: "lexer \<Rightarrow> int list" where
  "ahead lx = (if next_unget lx then [current lx] else []) @ map (\<lambda>c. int (of_char c)) (ia lx)"

definition left :: "lexer \<Rightarrow> nat" where
  "left lx = length (filter (\<lambda>c. c \<noteq> -1) (ahead lx))"

lemma ahead_fields [simp]:
  "ahead (lx\<lparr>token_buffer := b\<rparr>) = ahead lx"
  "ahead (lx\<lparr>value_integer := i\<rparr>) = ahead lx"
  "ahead (lx\<lparr>value_unsigned := u\<rparr>) = ahead lx"
  "ahead (lx\<lparr>value_float := f\<rparr>) = ahead lx"
  "ahead (lex_add c lx) = ahead lx"
  "ahead (lex_reset lx) = ahead lx"
  by (simp_all add: ahead_def lex_add_def lex_reset_def)

lemma ahead_get: "ahead (lex_get lx) = tl (ahead lx)"
  by (auto simp: lex_get_def get_character_def ahead_def Let_def split: list.splits)

lemma current_get: "current (lex_get lx) = (case ahead lx of [] \<Rightarrow> -1 | c # _ \<Rightarrow> c)"
  by (auto simp: lex_get_def get_character_def ahead_def Let_def split: list.splits)

lemma left_get: "left lx = left (lex_get lx) + (if current (lex_get lx) = -1 then 0 else 1)"
  by (cases "ahead lx") (simp_all add: left_def ahead_get current_get)

lemma left_get_le: "left (lex_get lx) \<le> left lx"
  using left_get [of lx] by simp

lemma left_get_less: "current (lex_get lx) \<noteq> -1 \<Longrightarrow> left (lex_get lx) < left lx"
  using left_get [of lx] by simp

lemma left_fields [simp]:
  "left (lx\<lparr>token_buffer := b\<rparr>) = left lx"
  "left (lx\<lparr>value_integer := i\<rparr>) = left lx"
  "left (lx\<lparr>value_unsigned := u\<rparr>) = left lx"
  "left (lx\<lparr>value_float := f\<rparr>) = left lx"
  "left (lex_add c lx) = left lx"
  "left (lex_reset lx) = left lx"
  by (simp_all add: left_def)

lemma left_adds [simp]: "left (foldl (\<lambda>l b. lex_add (f b) l) lx bs) = left lx"
  by (induction bs arbitrary: lx) simp_all

lemma left_codepoint_loop: "left (snd (get_codepoint_loop fs cp lx)) \<le> left lx"
proof (induction fs cp lx rule: get_codepoint_loop.induct)
  case (2 f fs cp lx)
  show ?case
    using 2 left_get_le [of lx]
    by (auto simp: Let_def split: option.split intro: le_trans)
qed simp

lemma left_codepoint: "left (snd (get_codepoint lx)) \<le> left lx"
  unfolding get_codepoint_def by (rule left_codepoint_loop)

lemma left_next_byte_loop: "left (snd (next_byte_loop rs lx)) \<le> left lx"
proof (induction rs lx rule: next_byte_loop.induct)
  case (2 lo hi rs lx)
  show ?case
    using 2 left_get_le [of lx] by (auto simp: Let_def intro: le_trans)
qed simp

lemma left_next_byte: "left (snd (next_byte_in_range rs lx)) \<le> left lx"
  using left_next_byte_loop [of rs "lex_add (current lx) lx"] by (simp add: next_byte_in_range_def)

lemma left_unicode: "left (snd (scan_unicode lx)) \<le> left lx"
proof -
  let ?a = "snd (get_codepoint lx)" and ?c = "fst (get_codepoint lx)"
  let ?b = "snd (get_codepoint (lex_get (lex_get ?a)))"
  have "left ?b \<le> left (lex_get (lex_get ?a))" "left (lex_get (lex_get ?a)) \<le> left (lex_get ?a)"
    "left (lex_get ?a) \<le> left ?a" "left ?a \<le> left lx"
    by (simp_all add: left_codepoint left_get_le)
  then show ?thesis
    by (auto simp: scan_unicode_def Let_def split_beta)
qed

lemma left_escape: "left (snd (scan_escape lx)) \<le> left lx"
  using left_get_le [of lx] left_unicode [of "lex_get lx"]
  by (auto simp: scan_escape_def Let_def split_beta split: option.split)

lemma left_string_step:
  "left (snd (scan_string_step lx)) \<le> left lx"
  "fst (scan_string_step lx) = None \<Longrightarrow> left (snd (scan_string_step lx)) < left lx"
proof -
  let ?l = "lex_get lx"
  have le: "left (snd (continue_if (next_byte_in_range rs ?l))) \<le> left ?l"
    "left (snd (continue_if (scan_escape ?l))) \<le> left ?l" for rs
    by (simp_all add: continue_if_def left_next_byte left_escape)
  have step: "left (snd (scan_string_step lx)) \<le> left ?l"
    unfolding scan_string_step_def Let_def by (simp add: le)
  then show "left (snd (scan_string_step lx)) \<le> left lx" using left_get_le [of lx] by simp
  assume "fst (scan_string_step lx) = None"
  then have "current ?l \<noteq> -1" by (auto simp: scan_string_step_def)
  from left_get_less [OF this] step show "left (snd (scan_string_step lx)) < left lx" by simp
qed

lemma string_step_less: "(None, lx') = scan_string_step lx \<Longrightarrow> left lx' < left lx"
  using left_string_step(2) [of lx] by (metis fst_conv snd_conv)

function scan_string_loop :: "lexer \<Rightarrow> token_type \<times> lexer" where
  "scan_string_loop lx =
     (case scan_string_step lx of
        (Some t, lx') \<Rightarrow> (t, lx')
      | (None, lx') \<Rightarrow> scan_string_loop lx')"
  by pat_completeness auto
termination
  by (relation "measure left") (auto dest: string_step_less)

declare scan_string_loop.simps [simp del]

definition scan_string :: "lexer \<Rightarrow> token_type \<times> lexer" where
  "scan_string lx = scan_string_loop (lex_reset lx)"

lemma left_string_loop: "left (snd (scan_string_loop lx)) \<le> left lx"
proof (induction lx rule: scan_string_loop.induct)
  case (1 lx)
  obtain r lx' where s: "scan_string_step lx = (r, lx')" by (cases "scan_string_step lx")
  with left_string_step(1) [of lx] have "left lx' \<le> left lx" by simp
  with 1 [OF s [symmetric]] s show ?case
    by (cases r) (auto simp: scan_string_loop.simps [of lx])
qed

lemma left_string: "left (snd (scan_string lx)) \<le> left lx"
  using left_string_loop [of "lex_reset lx"] by (simp add: scan_string_def)

section \<open>The code: numbers\<close>

text \<open>
  The labels of \<open>scan_number\<close>, and what the switch at each label does with the character
  read: store it (a dot as the decimal point of the locale) and jump, leave the loop, or
  report an error.
\<close>

datatype number_state =
  Minus | Zero | Any1 | Decimal1 | Decimal2 | Exponent | Sign | Any2

datatype number_action = Goto number_state | Done | Reject

definition is_dig :: "int \<Rightarrow> bool" where
  "is_dig c = (0x30 \<le> c \<and> c \<le> 0x39)"

fun number_switch :: "number_state \<Rightarrow> int \<Rightarrow> number_action" where
  "number_switch Minus c =
     (if c = 0x30 then Goto Zero else if is_dig c then Goto Any1 else Reject)"
| "number_switch Zero c =
     (if c = 0x2E then Goto Decimal1 else if c = 0x65 \<or> c = 0x45 then Goto Exponent else Done)"
| "number_switch Any1 c =
     (if is_dig c then Goto Any1 else if c = 0x2E then Goto Decimal1
      else if c = 0x65 \<or> c = 0x45 then Goto Exponent else Done)"
| "number_switch Decimal1 c = (if is_dig c then Goto Decimal2 else Reject)"
| "number_switch Decimal2 c =
     (if is_dig c then Goto Decimal2 else if c = 0x65 \<or> c = 0x45 then Goto Exponent else Done)"
| "number_switch Exponent c =
     (if c = 0x2B \<or> c = 0x2D then Goto Sign else if is_dig c then Goto Any2 else Reject)"
| "number_switch Sign c = (if is_dig c then Goto Any2 else Reject)"
| "number_switch Any2 c = (if is_dig c then Goto Any2 else Done)"

text \<open>The assignments to \<open>number_type\<close> at the labels.\<close>

fun number_type_at :: "number_state \<Rightarrow> token_type \<Rightarrow> token_type" where
  "number_type_at Minus ty = ValueInteger"
| "number_type_at Decimal1 ty = ValueFloat"
| "number_type_at Exponent ty = ValueFloat"
| "number_type_at _ ty = ty"

text \<open>
  \<open>strtoull\<close> and \<open>strtoll\<close> set \<open>errno\<close> when the value does not fit; the number is then read
  as a float.
\<close>

definition scan_number_done :: "token_type \<Rightarrow> lexer \<Rightarrow> token_type \<times> lexer" where
  "scan_number_done number_type lx0 =
     (let lx = lex_unget lx0;
          as_float = (ValueFloat, lx\<lparr>value_float := strtod (token_buffer lx)\<rparr>)
      in if number_type = ValueUnsigned then
           (case stoul (token_buffer lx) of
              Some x \<Rightarrow> (ValueUnsigned, lx\<lparr>value_unsigned := x\<rparr>)
            | None \<Rightarrow> as_float)
         else if number_type = ValueInteger then
           (case stoll (token_buffer lx) of
              Some x \<Rightarrow> (ValueInteger, lx\<lparr>value_integer := x\<rparr>)
            | None \<Rightarrow> as_float)
         else as_float)"

lemma number_switch_eof: "number_switch s (-1) \<noteq> Goto s'"
  by (cases s) (auto simp: is_dig_def)

function scan_number_at :: "number_state \<Rightarrow> token_type \<Rightarrow> lexer \<Rightarrow> token_type \<times> lexer" where
  "scan_number_at s ty lx =
     (let ty' = number_type_at s ty; lx1 = lex_get lx in
      case number_switch s (current lx1) of
        Goto s' \<Rightarrow> scan_number_at s' ty' (lex_add (current lx1) lx1)
      | Done \<Rightarrow> scan_number_done ty' lx1
      | Reject \<Rightarrow> (ParseError, lx1))"
  by pat_completeness auto
termination
proof (relation "measure (\<lambda>(s, ty, lx). left lx)")
  fix s ty lx x xa s'
  assume "xa = lex_get lx" "number_switch s (current xa) = Goto s'"
  then show "((s', x, lex_add (current xa) xa), (s, ty, lx)) \<in> measure (\<lambda>(s, ty, lx). left lx)"
    using left_get_less [of lx] number_switch_eof by fastforce
qed simp

declare scan_number_at.simps [simp del]

definition scan_number :: "lexer \<Rightarrow> token_type \<times> lexer" where
  "scan_number lx0 =
     (let lx = lex_reset lx0; c = current lx in
      scan_number_at (if c = 0x2D then Minus else if c = 0x30 then Zero else Any1) ValueUnsigned
        (lex_add c lx))"

section \<open>The code: tokens\<close>

text \<open>\<open>scan_literal\<close>: the characters of the literal after the first.\<close>

fun scan_literal_loop :: "string \<Rightarrow> lexer \<Rightarrow> bool \<times> lexer" where
  "scan_literal_loop [] lx = (True, lx)"
| "scan_literal_loop (c # cs) lx =
     (let lx1 = lex_get lx in
      if char_of (nat (current lx1 mod 256)) \<noteq> c then (False, lx1) else scan_literal_loop cs lx1)"

definition scan_literal :: "string \<Rightarrow> token_type \<Rightarrow> lexer \<Rightarrow> token_type \<times> lexer" where
  "scan_literal literal_text return_type lx =
     (let (ok, lx') = scan_literal_loop (tl literal_text) lx in
      (if ok then return_type else ParseError, lx'))"

definition skip_bom :: "lexer \<Rightarrow> bool \<times> lexer" where
  "skip_bom lx =
     (let lx1 = lex_get lx in
      if current lx1 = 0xEF then
        (let lx2 = lex_get lx1 in
         if current lx2 = 0xBB then (let lx3 = lex_get lx2 in (current lx3 = 0xBF, lx3)) else (False, lx2))
      else (True, lex_unget lx1))"

function skip_whitespace :: "lexer \<Rightarrow> lexer" where
  "skip_whitespace lx =
     (let lx1 = lex_get lx in
      if current lx1 \<in> {0x20, 0x09, 0x0A, 0x0D} then skip_whitespace lx1 else lx1)"
  by pat_completeness auto
termination
  by (relation "measure left") (use left_get_less in \<open>fastforce\<close>)+

declare skip_whitespace.simps [simp del]

definition scan :: "lexer \<Rightarrow> token_type \<times> lexer" where
  "scan lx0 =
     (let (bom_ok, lx1) = (if chars_read_total lx0 = 0 then skip_bom lx0 else (True, lx0)) in
      if \<not> bom_ok then (ParseError, lx1)
      else
        (let lx = skip_whitespace lx1; c = current lx in
         if c = 0x5B then (BeginArray, lx)
         else if c = 0x5D then (EndArray, lx)
         else if c = 0x7B then (BeginObject, lx)
         else if c = 0x7D then (EndObject, lx)
         else if c = 0x3A then (NameSeparator, lx)
         else if c = 0x2C then (ValueSeparator, lx)
         else if c = 0x74 then scan_literal ''true'' LiteralTrue lx
         else if c = 0x66 then scan_literal ''false'' LiteralFalse lx
         else if c = 0x6E then scan_literal ''null'' LiteralNull lx
         else if c = 0x22 then scan_string lx
         else if c = 0x2D \<or> is_dig c then scan_number lx
         else if c = 0x00 \<or> c = -1 then (EndOfInput, lx)
         else (ParseError, lx)))"

section \<open>Progress of the scanner\<close>

lemma left_unget_get: "left (lex_unget (lex_get lx)) = left lx"
  by (cases "next_unget lx"; cases "ia lx")
    (auto simp: left_def ahead_def lex_unget_def lex_get_def get_character_def Let_def)

lemma left_number_done:
  "left (snd (scan_number_done ty (lex_get lx))) = left lx"
  by (auto simp: scan_number_done_def Let_def left_unget_get split: option.split)

lemma left_number_at: "left (snd (scan_number_at s ty lx)) \<le> left lx"
proof (induction s ty lx rule: scan_number_at.induct)
  case (1 s ty lx)
  show ?case
  proof (cases "number_switch s (current (lex_get lx))")
    case (Goto s')
    with 1 [OF refl refl Goto] left_get_le [of lx] show ?thesis
      by (simp add: scan_number_at.simps [of s ty lx] Let_def)
  next
    case Done
    then show ?thesis by (simp add: scan_number_at.simps [of s ty lx] Let_def left_number_done)
  next
    case Reject
    then show ?thesis by (simp add: scan_number_at.simps [of s ty lx] Let_def left_get_le)
  qed
qed

lemma left_number: "left (snd (scan_number lx)) \<le> left lx"
  unfolding scan_number_def Let_def by (rule le_trans [OF left_number_at]) simp

lemma left_literal_loop: "left (snd (scan_literal_loop cs lx)) \<le> left lx"
proof (induction cs lx rule: scan_literal_loop.induct)
  case (2 c cs lx)
  show ?case using 2 left_get_le [of lx] by (auto simp: Let_def intro: le_trans)
qed simp

lemma left_literal: "left (snd (scan_literal s t lx)) \<le> left lx"
  by (simp add: scan_literal_def split_beta left_literal_loop)

lemma left_bom: "left (snd (skip_bom lx)) \<le> left lx"
proof -
  have "left (lex_get (lex_get (lex_get lx))) \<le> left lx" "left (lex_get (lex_get lx)) \<le> left lx"
    by (blast intro: left_get_le le_trans)+
  then show ?thesis by (simp add: skip_bom_def Let_def left_unget_get)
qed

lemma left_whitespace:
  "left (skip_whitespace lx) \<le> left lx"
  "current (skip_whitespace lx) \<noteq> -1 \<Longrightarrow> left (skip_whitespace lx) < left lx"
proof (induction lx rule: skip_whitespace.induct)
  case (1 lx)
  { case 1
    show ?case using "1.IH"(1) left_get_le [of lx] by (auto simp: skip_whitespace.simps [of lx] Let_def intro: le_trans)
  next
    case 2
    then show ?case
      using "1.IH"(2) left_get_le [of lx] left_get_less [of lx]
      by (auto simp: skip_whitespace.simps [of lx] Let_def split: if_splits intro: less_le_trans) }
qed

lemma scan_progress:
  "left (snd (scan lx)) \<le> left lx"
  "fst (scan lx) \<notin> {EndOfInput, ParseError} \<Longrightarrow> left (snd (scan lx)) < left lx"
proof -
  obtain ok lx1 where b: "(if chars_read_total lx = 0 then skip_bom lx else (True, lx)) = (ok, lx1)"
    by fastforce
  then have le1: "left lx1 \<le> left lx" using left_bom [of lx] by (auto split: if_splits)
  let ?w = "skip_whitespace lx1"
  have s: "left (snd (scan lx)) \<le> (if ok then left ?w else left lx1)"
    unfolding scan_def b Let_def
    by (simp add: left_literal left_string left_number)
  then show "left (snd (scan lx)) \<le> left lx"
    using le1 left_whitespace(1) [of lx1] by (auto split: if_splits)
  assume "fst (scan lx) \<notin> {EndOfInput, ParseError}"
  then have "ok" "current ?w \<noteq> -1"
    unfolding scan_def b Let_def by (auto simp: is_dig_def split: if_splits)
  with s le1 left_whitespace(2) [of lx1] show "left (snd (scan lx)) < left lx" by auto
qed

end
