(* ===== verification/Json_Parser.thy ===== *)
theory Json_Parser
  imports Json_Lexer
begin

text \<open>
  The parser of \<open>src/third_party/nlohmann/json.hpp\<close>: class \<open>parser\<close> with its loop
  \<open>sax_parse_internal\<close>, and the builder \<open>json_sax_dom_parser\<close> it drives. The builder keeps
  pointers into the value under construction (\<open>ref_stack\<close>); here the open containers are
  on a stack by value, innermost first, an object with the key whose element is filled
  next, and a container moves into its parent when it is closed. The value is the same
  at the end, and an unfinished one is never seen: every error is an exception that
  \<open>chat::protocol::parse\<close> turns into \<open>nullopt\<close>, \<^const>\<open>None\<close> here.
\<close>

section \<open>The code: the builder\<close>

datatype container = OpenArray "json list" | OpenObject jobj string

record sax =
  root :: json
  ref_stack :: "container list"

definition sax_init :: sax where
  "sax_init = \<lparr>root = JNull, ref_stack = []\<rparr>"

fun put_value :: "json \<Rightarrow> container \<Rightarrow> container" where
  "put_value v (OpenArray xs) = OpenArray (xs @ [v])"
| "put_value v (OpenObject m k) = OpenObject (obj_set k v m) k"

definition handle_value :: "json \<Rightarrow> sax \<Rightarrow> sax" where
  "handle_value v s =
     (case ref_stack s of
        [] \<Rightarrow> s\<lparr>root := v\<rparr>
      | f # fs \<Rightarrow> s\<lparr>ref_stack := put_value v f # fs\<rparr>)"

definition start_object :: "sax \<Rightarrow> sax" where
  "start_object s = s\<lparr>ref_stack := OpenObject [] [] # ref_stack s\<rparr>"

definition start_array :: "sax \<Rightarrow> sax" where
  "start_array s = s\<lparr>ref_stack := OpenArray [] # ref_stack s\<rparr>"

text \<open>\<open>key\<close> inserts null at the key unless the object has it already.\<close>

definition sax_key :: "string \<Rightarrow> sax \<Rightarrow> sax" where
  "sax_key k s =
     (case ref_stack s of
        OpenObject m _ # fs \<Rightarrow>
          s\<lparr>ref_stack := OpenObject (if map_of m k = None then obj_set k JNull m else m) k # fs\<rparr>
      | _ \<Rightarrow> s)"

fun close_container :: "container \<Rightarrow> json" where
  "close_container (OpenArray xs) = JArray xs"
| "close_container (OpenObject m k) = JObject m"

text \<open>\<open>end_object\<close> and \<open>end_array\<close>.\<close>

definition sax_end :: "sax \<Rightarrow> sax" where
  "sax_end s =
     (case ref_stack s of
        [] \<Rightarrow> s
      | f # fs \<Rightarrow> handle_value (close_container f) (s\<lparr>ref_stack := fs\<rparr>))"

section \<open>The code: the parser\<close>

text \<open>
  \<open>sax_parse_internal\<close>. \<open>states\<close> has the innermost level first, true for an array. The
  result \<open>None\<close> is the exception of \<open>parse_error\<close>.
\<close>

type_synonym pstate = "token_type \<times> lexer \<times> sax \<times> bool list"

text \<open>A key and the colon after it, the key token being the last one read.\<close>

definition parse_key :: "token_type \<Rightarrow> lexer \<Rightarrow> sax \<Rightarrow> (lexer \<times> sax) option" where
  "parse_key last_token lx s =
     (if last_token \<noteq> ValueString then None
      else
        (let s1 = sax_key (token_buffer lx) s; (t, lx1) = scan lx in
         if t \<noteq> NameSeparator then None else Some (lx1, s1)))"

text \<open>
  The switch over the last token: \<open>Inl\<close> to start the next round of the loop, \<open>Inr\<close> when a
  value is complete.
\<close>

definition parse_value :: "pstate \<Rightarrow> (pstate + lexer \<times> sax) option" where
  "parse_value p =
     (case p of (last_token, lx, s, states) \<Rightarrow>
      (case last_token of
         BeginObject \<Rightarrow>
           (let s1 = start_object s; (t, lx1) = scan lx in
            if t = EndObject then Some (Inr (lx1, sax_end s1))
            else
              (case parse_key t lx1 s1 of
                 None \<Rightarrow> None
               | Some (lx2, s2) \<Rightarrow> (let (t3, lx3) = scan lx2 in Some (Inl (t3, lx3, s2, False # states)))))
       | BeginArray \<Rightarrow>
           (let s1 = start_array s; (t, lx1) = scan lx in
            if t = EndArray then Some (Inr (lx1, sax_end s1))
            else Some (Inl (t, lx1, s1, True # states)))
       | ValueFloat \<Rightarrow>
           (case value_float lx of
              None \<Rightarrow> None
            | Some d \<Rightarrow> Some (Inr (lx, handle_value (JFloat d) s)))
       | LiteralFalse \<Rightarrow> Some (Inr (lx, handle_value (JBool False) s))
       | LiteralNull \<Rightarrow> Some (Inr (lx, handle_value JNull s))
       | LiteralTrue \<Rightarrow> Some (Inr (lx, handle_value (JBool True) s))
       | ValueInteger \<Rightarrow> Some (Inr (lx, handle_value (JInt (value_integer lx)) s))
       | ValueString \<Rightarrow> Some (Inr (lx, handle_value (JString (token_buffer lx)) s))
       | ValueUnsigned \<Rightarrow> Some (Inr (lx, handle_value (JUInt (value_unsigned lx)) s))
       | _ \<Rightarrow> None))"

text \<open>
  The rest of the loop body, after a value: \<open>Inl\<close> of the state to go on with, the flag being
  \<open>skip_to_state_evaluation\<close>, or \<open>Inr\<close> at the end of the outermost value.
\<close>

definition parse_next :: "lexer \<Rightarrow> sax \<Rightarrow> bool list \<Rightarrow> ((bool \<times> pstate) + lexer \<times> sax) option" where
  "parse_next lx s states =
     (case states of
        [] \<Rightarrow> Some (Inr (lx, s))
      | True # rest \<Rightarrow>
          (let (t, lx1) = scan lx in
           if t = ValueSeparator then (let (t2, lx2) = scan lx1 in Some (Inl (False, t2, lx2, s, states)))
           else if t = EndArray then Some (Inl (True, t, lx1, sax_end s, rest))
           else None)
      | False # rest \<Rightarrow>
          (let (t, lx1) = scan lx in
           if t = ValueSeparator then
             (let (t2, lx2) = scan lx1 in
              case parse_key t2 lx2 s of
                None \<Rightarrow> None
              | Some (lx3, s3) \<Rightarrow> (let (t4, lx4) = scan lx3 in Some (Inl (False, t4, lx4, s3, states))))
           else if t = EndObject then Some (Inl (True, t, lx1, sax_end s, rest))
           else None))"

definition parse_round :: "bool \<Rightarrow> pstate \<Rightarrow> ((bool \<times> pstate) + lexer \<times> sax) option" where
  "parse_round skip p =
     (case (if skip then Some (Inr (case p of (t, lx, s, states) \<Rightarrow> (lx, s))) else parse_value p) of
        None \<Rightarrow> None
      | Some (Inl p') \<Rightarrow> Some (Inl (False, p'))
      | Some (Inr (lx, s)) \<Rightarrow> parse_next lx s (case p of (_, _, _, states) \<Rightarrow> states))"

text \<open>
  Each round reads a token that is neither an error nor the end of the input, or leaves the
  two container tokens.
\<close>

definition parse_measure :: "bool \<times> pstate \<Rightarrow> nat" where
  "parse_measure x =
     (case x of (skip, t, lx, s, states) \<Rightarrow>
        2 * left lx + (if \<not> skip \<and> t \<in> {BeginObject, BeginArray} then 1 else 0))"

lemma scan_left: "scan lx = (t, lx') \<Longrightarrow> left lx' \<le> left lx"
  using scan_progress(1) [of lx] by simp

lemma scan_left_less:
  "scan lx = (t, lx') \<Longrightarrow> t \<noteq> EndOfInput \<Longrightarrow> t \<noteq> ParseError \<Longrightarrow> left lx' < left lx"
  using scan_progress(2) [of lx] by simp

lemma parse_key_left:
  "parse_key t lx s = Some (lx', s') \<Longrightarrow> t = ValueString \<and> left lx' < left lx"
  by (auto simp: parse_key_def Let_def split: if_splits prod.splits dest: scan_left_less)

lemma parse_value_left:
  "parse_value (t, lx, s, st) = Some (Inr (lx', s')) \<Longrightarrow> left lx' \<le> left lx"
  by (cases t) (auto simp: parse_value_def Let_def split: if_splits prod.splits option.splits dest: scan_left)

lemma parse_value_less:
  assumes "parse_value (t, lx, s, st) = Some (Inl p)"
  shows "parse_measure (False, p) < parse_measure (False, t, lx, s, st)"
proof -
  consider
    lx1 t1 s1 lx2 s2 t3 lx3 where "t = BeginObject" "scan lx = (t1, lx1)"
      "parse_key t1 lx1 s1 = Some (lx2, s2)" "scan lx2 = (t3, lx3)" "p = (t3, lx3, s2, False # st)"
  | lx1 t1 s1 where "t = BeginArray" "scan lx = (t1, lx1)" "p = (t1, lx1, s1, True # st)"
    using assms by (cases t) (auto simp: parse_value_def Let_def split: if_splits prod.splits option.splits)
  then show ?thesis
  proof cases
    case 1
    with scan_left [of lx] scan_left [of lx2] parse_key_left [of t1 lx1 s1] show ?thesis
      by (fastforce simp: parse_measure_def)
  next
    case 2
    with scan_left [of lx] scan_left_less [of lx] show ?thesis
      by (fastforce simp: parse_measure_def)
  qed
qed

lemma parse_next_less:
  assumes "parse_next lx s st = Some (Inl x)"
  shows "parse_measure x < 2 * left lx"
proof -
  consider
    b rest lx1 t2 lx2 where "scan lx = (ValueSeparator, lx1)" "scan lx1 = (t2, lx2)"
      "x = (False, t2, lx2, s, b # rest)"
  | rest lx1 t2 lx2 lx3 s3 t4 lx4 where "scan lx = (ValueSeparator, lx1)" "scan lx1 = (t2, lx2)"
      "parse_key t2 lx2 s = Some (lx3, s3)" "scan lx3 = (t4, lx4)" "x = (False, t4, lx4, s3, rest)"
  | t lx1 rest where "scan lx = (t, lx1)" "t = EndArray \<or> t = EndObject" "x = (True, t, lx1, sax_end s, rest)"
    using assms
    by (auto simp: parse_next_def Let_def split: if_splits prod.splits option.splits list.splits bool.splits)
  then show ?thesis
  proof cases
    case 1
    with scan_left_less [of lx] scan_left [of lx1] show ?thesis
      by (fastforce simp: parse_measure_def)
  next
    case 2
    with scan_left_less [of lx] scan_left [of lx1] scan_left [of lx3] parse_key_left [of t2 lx2 s]
    show ?thesis by (fastforce simp: parse_measure_def)
  next
    case 3
    with scan_left_less [of lx] show ?thesis by (auto simp: parse_measure_def)
  qed
qed

lemma parse_round_less:
  assumes "parse_round skip p = Some (Inl x)"
  shows "parse_measure x < parse_measure (skip, p)"
proof -
  obtain t lx s st where p: "p = (t, lx, s, st)" by (cases p)
  consider p' where "\<not> skip" "parse_value p = Some (Inl p')" "x = (False, p')"
    | lx' s' where "left lx' \<le> left lx" "parse_next lx' s' st = Some (Inl x)"
    using assms parse_value_left [of t lx s st]
    by (auto simp: parse_round_def p split: if_splits option.splits sum.splits prod.splits)
  then show ?thesis
  proof cases
    case 1
    then show ?thesis using parse_value_less p by fastforce
  next
    case 2
    then show ?thesis using parse_next_less [of lx' s' st x] by (simp add: parse_measure_def p)
  qed
qed

function sax_parse_internal :: "bool \<Rightarrow> pstate \<Rightarrow> (lexer \<times> sax) option" where
  "sax_parse_internal skip p =
     (case parse_round skip p of
        None \<Rightarrow> None
      | Some (Inl (skip', p')) \<Rightarrow> sax_parse_internal skip' p'
      | Some (Inr r) \<Rightarrow> Some r)"
  by pat_completeness auto
termination
  by (relation "measure parse_measure") (auto dest: parse_round_less)

declare sax_parse_internal.simps [simp del]

text \<open>
  \<open>json::parse\<close>: the constructor reads the first token; after the value the input must be at
  its end.
\<close>

definition json_parse :: "string \<Rightarrow> json option" where
  "json_parse text =
     (let (t, lx) = scan (lexer_init text) in
      case sax_parse_internal False (t, lx, sax_init, []) of
        None \<Rightarrow> None
      | Some (lx', s) \<Rightarrow> (if fst (scan lx') = EndOfInput then Some (root s) else None))"

end
