(* ===== verification/Json_Serializer.thy ===== *)
theory Json_Serializer
  imports Json
begin

text \<open>
  The serializer of \<open>src/third_party/nlohmann/json.hpp\<close>, with the arguments \<open>dump ()\<close> gives
  it: no pretty printing, \<open>ensure_ascii\<close> false and the strict error handler, so that a
  string which is not UTF-8 raises \<open>type_error\<close>, \<^const>\<open>None\<close> here. The characters collected
  in \<open>string_buffer\<close> and those already written are one output string.
  The text of a floating point number is a parameter \<open>to_chars\<close>; no reply of the server
  holds one.
\<close>

section \<open>The code: integers\<close>

function count_digits :: "u64 \<Rightarrow> nat \<Rightarrow> nat" where
  "count_digits x n_digits =
     (if x < 10 then n_digits
      else if x < 100 then n_digits + 1
      else if x < 1000 then n_digits + 2
      else if x < 10000 then n_digits + 3
      else count_digits (x div 10000) (n_digits + 4))"
  by pat_completeness auto
termination
  by (relation "measure (\<lambda>(x, n). unat x)") (auto simp: word_less_nat_alt unat_div)

declare count_digits.simps [simp del]

definition remove_sign :: "i64 \<Rightarrow> u64" where
  "remove_sign x = (- (x + 1)) + 1"

text \<open>\<open>digits_to_99\<close>.\<close>

definition digits_to_99 :: "nat \<Rightarrow> char \<times> char" where
  "digits_to_99 i = (digit_char (i div 10), digit_char (i mod 10))"

text \<open>Filling the buffer backwards from \<open>buffer_ptr\<close>.\<close>

function put_digits :: "string \<Rightarrow> nat \<Rightarrow> u64 \<Rightarrow> string" where
  "put_digits buf ptr abs_value =
     (if abs_value \<ge> 100 then
        (let d = digits_to_99 (unat (abs_value mod 100))
         in put_digits (buf[ptr - 1 := snd d, ptr - 2 := fst d]) (ptr - 2) (abs_value div 100))
      else if abs_value \<ge> 10 then
        (let d = digits_to_99 (unat abs_value) in buf[ptr - 1 := snd d, ptr - 2 := fst d])
      else buf[ptr - 1 := digit_char (unat abs_value)])"
  by pat_completeness auto
termination
proof (relation "measure (\<lambda>(b, p, x). unat x)")
  fix buf :: string and ptr :: nat and v :: u64 and d :: "char \<times> char"
  assume "v \<ge> 100"
  then have "unat v \<ge> 100" by (simp add: word_le_nat_alt)
  then have "unat v div 100 < unat v" by simp
  then show "((buf[ptr - 1 := snd d, ptr - 2 := fst d], ptr - 2, v div 100), buf, ptr, v)
      \<in> measure (\<lambda>(b, p, x). unat x)"
    by (simp add: unat_div)
qed simp

declare put_digits.simps [simp del]

definition dump_integer :: "bool \<Rightarrow> u64 \<Rightarrow> string" where
  "dump_integer is_signed x =
     (if x = 0 then ''0''
      else
        (let neg = (is_signed \<and> sint x < 0);
             number_buffer = replicate 64 (CHR 0x00);
             buf = (if neg then number_buffer[0 := CHR ''-''] else number_buffer);
             abs_value = (if neg then remove_sign x else x);
             n_chars = (if neg then 1 + count_digits abs_value 1 else count_digits abs_value 1)
         in take n_chars (put_digits buf n_chars abs_value)))"

section \<open>The code: strings\<close>

text \<open>The table of the UTF-8 automaton: types of bytes, then the transitions of each state.\<close>

definition utf8d :: "nat list" where
  "utf8d =
     replicate 128 0 @ replicate 16 1 @ replicate 16 9 @ replicate 32 7 @ [8, 8] @ replicate 30 2 @
     [0xA] @ replicate 12 3 @ [4, 3, 3] @ [0xB, 6, 6, 6, 5] @ replicate 11 8 @
     [0, 1, 2, 3, 5, 8, 7, 1, 1, 1, 4, 6, 1, 1, 1, 1] @
     replicate 16 1 @ [1, 0, 1, 1, 1, 1, 1, 0, 1, 0] @ replicate 6 1 @
     [1, 2, 1, 1, 1, 1, 1, 2, 1, 2] @ replicate 6 1 @ replicate 7 1 @ [2] @ replicate 8 1 @
     [1, 2, 1, 1, 1, 1, 1, 1, 1, 2] @ replicate 6 1 @ replicate 7 1 @ [3, 1, 3] @ replicate 6 1 @
     [1, 3, 1, 1, 1, 1, 1, 3, 1, 3] @ replicate 6 1 @ [1, 3] @ replicate 14 1"

definition UTF8_ACCEPT :: nat where [simp]: "UTF8_ACCEPT = 0"

definition UTF8_REJECT :: nat where [simp]: "UTF8_REJECT = 1"

definition utf8_decode :: "nat \<Rightarrow> u32 \<Rightarrow> u8 \<Rightarrow> nat \<times> u32" where
  "utf8_decode state codep byte =
     (let type = utf8d ! unat byte;
          codep' = (if state \<noteq> UTF8_ACCEPT then (ucast byte AND 0x3f) OR push_bit 6 codep
                    else drop_bit type 0xFF AND ucast byte)
      in (utf8d ! (256 + state * 16 + type), codep'))"

text \<open>\<open>snprintf\<close> with \<open>\u%04x\<close>.\<close>

definition hex_lower :: "nat \<Rightarrow> char" where
  "hex_lower d = (if d < 10 then char_of (48 + d) else char_of (87 + d))"

definition u_escape :: "nat \<Rightarrow> string" where
  "u_escape n = [CHR 0x5C, CHR ''u''] @ [hex_lower (n div 4096 mod 16), hex_lower (n div 256 mod 16),
                            hex_lower (n div 16 mod 16), hex_lower (n mod 16)]"

text \<open>The output for a code point, \<open>c\<close> being its last byte.\<close>

definition escape_codepoint :: "u32 \<Rightarrow> char \<Rightarrow> string" where
  "escape_codepoint codepoint c =
     (if codepoint = 0x08 then [CHR 0x5C, CHR ''b'']
      else if codepoint = 0x09 then [CHR 0x5C, CHR ''t'']
      else if codepoint = 0x0A then [CHR 0x5C, CHR ''n'']
      else if codepoint = 0x0C then [CHR 0x5C, CHR ''f'']
      else if codepoint = 0x0D then [CHR 0x5C, CHR ''r'']
      else if codepoint = 0x22 then [CHR 0x5C, CHR 0x22]
      else if codepoint = 0x5C then [CHR 0x5C, CHR 0x5C]
      else if codepoint \<le> 0x1F then u_escape (unat codepoint)
      else [c])"

fun dump_escaped_loop :: "string \<Rightarrow> nat \<Rightarrow> u32 \<Rightarrow> string \<Rightarrow> string option" where
  "dump_escaped_loop [] state codepoint out = (if state = UTF8_ACCEPT then Some out else None)"
| "dump_escaped_loop (c # s) state codepoint out =
     (let (state', codepoint') = utf8_decode state codepoint (byte_of c) in
      if state' = UTF8_ACCEPT then
        dump_escaped_loop s state' codepoint' (out @ escape_codepoint codepoint' c)
      else if state' = UTF8_REJECT then None
      else dump_escaped_loop s state' codepoint' (out @ [c]))"

definition dump_escaped :: "string \<Rightarrow> string option" where
  "dump_escaped s = dump_escaped_loop s UTF8_ACCEPT 0 []"

section \<open>The code: values\<close>

fun comma_sep :: "string option list \<Rightarrow> string option" where
  "comma_sep [] = Some []"
| "comma_sep [x] = x"
| "comma_sep (x # xs) =
     (case x of None \<Rightarrow> None | Some a \<Rightarrow>
        (case comma_sep xs of None \<Rightarrow> None | Some b \<Rightarrow> Some (a @ '','' @ b)))"

definition dump_member :: "string \<Rightarrow> string option \<Rightarrow> string option" where
  "dump_member k v =
     (case dump_escaped k of None \<Rightarrow> None | Some k' \<Rightarrow>
        (case v of None \<Rightarrow> None | Some v' \<Rightarrow> Some ([CHR 0x22] @ k' @ [CHR 0x22, CHR '':''] @ v')))"

fun dump :: "(double \<Rightarrow> string) \<Rightarrow> json \<Rightarrow> string option" where
  "dump to_chars (JObject m) =
     (if m = [] then Some ''{}''
      else map_option (\<lambda>s. ''{'' @ s @ ''}'') (comma_sep (map (\<lambda>(k, v). dump_member k (dump to_chars v)) m)))"
| "dump to_chars (JArray xs) =
     (if xs = [] then Some ''[]''
      else map_option (\<lambda>s. ''['' @ s @ '']'') (comma_sep (map (dump to_chars) xs)))"
| "dump to_chars (JString s) = map_option (\<lambda>s. [CHR 0x22] @ s @ [CHR 0x22]) (dump_escaped s)"
| "dump to_chars (JBool b) = Some (if b then ''true'' else ''false'')"
| "dump to_chars (JInt i) = Some (dump_integer True i)"
| "dump to_chars (JUInt u) = Some (dump_integer False u)"
| "dump to_chars (JFloat d) = Some (to_chars d)"
| "dump to_chars JNull = Some ''null''"

section \<open>Integers are printed in decimal\<close>

lemma show_nat_step: "10 \<le> n \<Longrightarrow> show_nat n = show_nat (n div 10) @ [digit_char (n mod 10)]"
  by (simp add: show_nat.simps [of n])

lemma show_nat_small: "n < 10 \<Longrightarrow> show_nat n = [digit_char n]"
  by (simp add: show_nat.simps [of n])

lemma show_nat_pair:
  assumes "100 \<le> n"
  shows "show_nat n = show_nat (n div 100) @ [digit_char (n mod 100 div 10), digit_char (n mod 100 mod 10)]"
proof -
  have "show_nat n = show_nat (n div 10 div 10) @ [digit_char (n div 10 mod 10), digit_char (n mod 10)]"
    using assms show_nat_step [of n] show_nat_step [of "n div 10"] by simp
  moreover have m: "n mod 100 = 10 * (n div 10 mod 10) + n mod 10"
    using mod_mult2_eq [of n 10 10] by simp
  then have "n div 10 mod 10 = n mod 100 div 10" "n mod 10 = n mod 100 mod 10"
    by (simp_all only: m) simp_all
  moreover have "n div 10 div 10 = n div 100" by (simp add: div_mult2_eq [symmetric])
  ultimately show ?thesis by simp
qed

lemma show_nat_two: "10 \<le> n \<Longrightarrow> n < 100 \<Longrightarrow> show_nat n = [digit_char (n div 10), digit_char (n mod 10)]"
  using show_nat_step [of n] show_nat_small [of "n div 10"] by simp

lemma length_show_nat_step: "10 \<le> n \<Longrightarrow> length (show_nat n) = length (show_nat (n div 10)) + 1"
  using show_nat_step [of n] by simp

lemma count_digits_correct: "count_digits x n + 1 = n + length (show_nat (unat x))"
proof (induction x n rule: count_digits.induct)
  case (1 x n)
  let ?v = "unat x"
  have small: "?v < 10 \<Longrightarrow> length (show_nat ?v) = 1" by (simp add: show_nat_small)
  have l2: "10 \<le> ?v \<Longrightarrow> length (show_nat ?v) = length (show_nat (?v div 10)) + 1"
    and l3: "100 \<le> ?v \<Longrightarrow> length (show_nat (?v div 10)) = length (show_nat (?v div 100)) + 1"
    and l4: "1000 \<le> ?v \<Longrightarrow> length (show_nat (?v div 100)) = length (show_nat (?v div 1000)) + 1"
    and l5: "10000 \<le> ?v \<Longrightarrow> length (show_nat (?v div 1000)) = length (show_nat (?v div 10000)) + 1"
    using length_show_nat_step [of ?v] length_show_nat_step [of "?v div 10"]
      length_show_nat_step [of "?v div 100"] length_show_nat_step [of "?v div 1000"]
    by (simp_all add: div_mult2_eq [symmetric])
  have one: "m < 10 \<Longrightarrow> length (show_nat m) = 1" for m by (simp add: show_nat_small)
  have lt: "x < 10 \<longleftrightarrow> ?v < 10" "x < 100 \<longleftrightarrow> ?v < 100" "x < 1000 \<longleftrightarrow> ?v < 1000" "x < 10000 \<longleftrightarrow> ?v < 10000"
    by (simp_all add: word_less_nat_alt)
  show ?case
  proof (cases "?v < 10000")
    case True
    then show ?thesis
      using small l2 l3 l4 one [of "?v div 10"] one [of "?v div 100"] one [of "?v div 1000"]
      by (auto simp: count_digits.simps [of x n] lt not_less)
  next
    case False
    with 1 have "count_digits (x div 10000) (n + 4) + 1 = n + 4 + length (show_nat (?v div 10000))"
      by (simp add: lt unat_div)
    then show ?thesis using False l2 l3 l4 l5 by (simp add: count_digits.simps [of x n] lt)
  qed
qed

lemma update_pair: "(xs @ a # b # zs)[Suc (length xs) := y, length xs := x] = xs @ x # y # zs"
  by (simp add: list_update_append)

lemma split_last_pair:
  assumes "length xs = Suc (Suc n)"
  shows "\<exists>ys a b. xs = ys @ [a, b] \<and> length ys = n"
proof -
  have "length (drop n xs) = Suc (Suc 0)" using assms by simp
  then obtain a b where "drop n xs = [a, b]" by (metis length_0_conv length_Suc_conv)
  then have "xs = take n xs @ [a, b]" by (metis append_take_drop_id)
  then show ?thesis using assms by (intro exI [of _ "take n xs"] exI [of _ a] exI [of _ b]) simp
qed

lemma put_digits_correct:
  assumes "length pre + length (show_nat (unat v)) = ptr" and "length old = length (show_nat (unat v))"
  shows "put_digits (pre @ old @ post) ptr v = pre @ show_nat (unat v) @ post"
  using assms
proof (induction "unat v" arbitrary: v ptr old post rule: less_induct)
  case less
  let ?n = "unat v"
  have le: "v \<ge> 100 \<longleftrightarrow> ?n \<ge> 100" "v \<ge> 10 \<longleftrightarrow> ?n \<ge> 10"
    by (simp_all add: word_le_nat_alt)
  consider "100 \<le> ?n" | "10 \<le> ?n" "?n < 100" | "?n < 10" by linarith
  then show ?case
  proof cases
    case 1
    note sp = show_nat_pair [OF 1]
    from less.prems(2) sp have "length old = Suc (Suc (length (show_nat (?n div 100))))" by simp
    from split_last_pair [OF this] obtain o' a b where
      o: "old = o' @ [a, b]" "length o' = length (show_nat (?n div 100))" by blast
    let ?x = "digit_char (?n mod 100 div 10)" and ?y = "digit_char (?n mod 100 mod 10)"
    have p: "ptr - 1 = Suc (length (pre @ o'))" "ptr - 2 = length (pre @ o')"
      using less.prems(1) sp o(2) by simp_all
    have up: "(pre @ old @ post)[ptr - 1 := ?y, ptr - 2 := ?x] = pre @ o' @ ?x # ?y # post"
      using update_pair [of "pre @ o'" a b post ?y ?x] unfolding p o(1) by simp
    have v: "unat (v mod 100) = ?n mod 100" "unat (v div 100) = ?n div 100" by (simp_all add: unat_mod unat_div)
    have "put_digits (pre @ old @ post) ptr v = put_digits (pre @ o' @ ?x # ?y # post) (ptr - 2) (v div 100)"
      using 1 by (simp add: put_digits.simps [of "pre @ old @ post"] le Let_def digits_to_99_def v up [unfolded One_nat_def])
    also have "\<dots> = pre @ show_nat (unat (v div 100)) @ ?x # ?y # post"
      by (rule less.hyps) (use 1 less.prems o in \<open>simp_all add: v sp\<close>)
    finally show ?thesis by (simp add: sp v)
  next
    case 2
    note sp = show_nat_two [OF 2]
    from less.prems(2) sp have "length old = Suc (Suc 0)" by simp
    then obtain a b where o: "old = [a, b]" by (auto simp: length_Suc_conv)
    have p: "ptr - 1 = Suc (length pre)" "ptr - 2 = length pre" using less.prems(1) sp by simp_all
    have up: "(pre @ old @ post)[ptr - 1 := digit_char (?n mod 10), ptr - 2 := digit_char (?n div 10)] =
        pre @ show_nat ?n @ post"
      using update_pair [of pre a b post "digit_char (?n mod 10)" "digit_char (?n div 10)"]
      unfolding p o sp by simp
    then show ?thesis
      using 2 by (simp add: put_digits.simps [of "pre @ old @ post"] le Let_def digits_to_99_def)
  next
    case 3
    note sp = show_nat_small [OF 3]
    from less.prems(2) sp obtain a where o: "old = [a]" by (auto simp: length_Suc_conv)
    have p: "ptr - 1 = length pre" using less.prems(1) sp by simp
    show ?thesis
      using 3 unfolding o sp by (simp add: put_digits.simps [of "pre @ _ @ post"] le p [unfolded One_nat_def] list_update_append del: append_Cons)
  qed
qed

lemma length_show_nat_bound: "n < 10 ^ k \<Longrightarrow> 0 < k \<Longrightarrow> length (show_nat n) \<le> k"
proof (induction k arbitrary: n)
  case (Suc k)
  show ?case
  proof (cases "n < 10")
    case True
    then show ?thesis by (simp add: show_nat_small)
  next
    case False
    then have "n div 10 < 10 ^ k" "0 < k" using Suc.prems by (auto intro: Suc_lessI gr0I simp: less_mult_imp_div_less mult.commute)
    from Suc.IH [OF this] False show ?thesis by (simp add: length_show_nat_step)
  qed
qed simp

lemma length_show_u64: "length (show_nat (unat (x :: u64))) \<le> 20"
proof -
  have "unat x < 2 ^ 64" using unsigned_less [of x, where ?'a = nat] by simp
  then have "unat x < 10 ^ 20" by (rule less_trans) simp
  then show ?thesis by (rule length_show_nat_bound) simp
qed

lemma dump_unsigned: "dump_integer False x = show_u64 x"
proof (cases "x = 0")
  case True
  moreover have "digit_char 0 = CHR ''0''" by code_simp
  ultimately show ?thesis by (simp add: dump_integer_def show_u64_def show_nat_small)
next
  case False
  let ?l = "length (show_nat (unat x))"
  have c: "count_digits x 1 = ?l" using count_digits_correct [of x 1] by simp
  have "replicate 64 (CHR 0x00) = [] @ replicate ?l (CHR 0x00) @ replicate (64 - ?l) (CHR 0x00)"
    using length_show_u64 [of x] by (simp flip: replicate_add)
  with put_digits_correct [of "[]" x ?l "replicate ?l (CHR 0x00)" "replicate (64 - ?l) (CHR 0x00)"]
  have "put_digits (replicate 64 (CHR 0x00)) ?l x = show_nat (unat x) @ replicate (64 - ?l) (CHR 0x00)"
    by simp
  then show ?thesis using False by (simp add: dump_integer_def c [unfolded One_nat_def] show_u64_def Let_def)
qed

lemma remove_sign_correct: "sint x < 0 \<Longrightarrow> unat (remove_sign x) = nat (- sint x)"
proof -
  assume neg: "sint x < 0"
  have "uint (word_of_int (- sint x) :: 64 word) = take_bit 64 (- sint x)"
    unfolding uint_word_of_int_eq by simp
  moreover have "word_of_int (- sint x) = - x" by simp
  ultimately have "uint (- x) = take_bit 64 (- sint x)" by metis
  moreover have "- (2 ^ 63) \<le> sint x" using sint_ge [of x] by simp
  ultimately have "uint (- x) = - sint x" using neg by (simp add: take_bit_int_eq_self)
  moreover have "remove_sign x = - x" by (simp add: remove_sign_def)
  ultimately show ?thesis by (metis nat_uint_eq)
qed

lemma sint_nonneg: "0 \<le> sint x \<Longrightarrow> uint x = sint (x :: 64 word)"
  using uint_sint [of x] sint_lt [of x] by (simp add: take_bit_int_eq_self)

lemma dump_signed: "dump_integer True x = show_i64 x"
proof (cases "sint x < 0")
  case True
  let ?v = "remove_sign x"
  let ?l = "length (show_nat (unat ?v))"
  have x: "x \<noteq> 0" using True by auto
  have c: "count_digits ?v 1 = ?l" using count_digits_correct [of ?v 1] by simp
  have "(replicate 64 (CHR 0x00))[0 := CHR ''-''] = [CHR ''-''] @ replicate ?l (CHR 0x00) @ replicate (63 - ?l) (CHR 0x00)"
    using length_show_u64 [of ?v] by (simp add: numeral_eq_Suc flip: replicate_add)
  with put_digits_correct [of "[CHR ''-'']" ?v "Suc ?l" "replicate ?l (CHR 0x00)" "replicate (63 - ?l) (CHR 0x00)"]
  have "put_digits ((replicate 64 (CHR 0x00))[0 := CHR ''-'']) (Suc ?l) ?v =
      CHR ''-'' # show_nat (unat ?v) @ replicate (63 - ?l) (CHR 0x00)"
    by simp
  then show ?thesis
    using True x by (simp add: dump_integer_def c [unfolded One_nat_def] show_i64_def Let_def remove_sign_correct)
next
  case False
  then have "dump_integer True x = dump_integer False x" by (simp add: dump_integer_def)
  moreover have "unat x = nat (sint x)"
    using False sint_nonneg [of x] by (metis nat_uint_eq not_less)
  ultimately show ?thesis using False by (simp add: dump_unsigned show_u64_def show_i64_def Let_def)
qed

end
