(* ===== verification/Json_Text.thy ===== *)
theory Json_Text
  imports Json_Lexer Json_Serializer
begin

text \<open>
  Strings and numbers between the serializer and the scanner. UTF-8 is specified once, by
  the byte ranges of the Unicode standard (\<open>utf8_ok\<close>); the automaton of the serializer
  and the switch of the scanner, written independently in the library, both implement it:
  \<open>dump_escaped\<close> succeeds exactly on UTF-8 strings, and the scanner reads its output back.
\<close>

section \<open>UTF-8\<close>

abbreviation code :: "char \<Rightarrow> int" where
  "code c \<equiv> int (of_char c)"

lemma code_bounds: "0 \<le> code c" "code c < 256"
  using nat_of_char_less_256 [of c] by simp_all

text \<open>The ranges of the bytes that follow a first byte.\<close>

definition tail_ranges :: "int \<Rightarrow> (int \<times> int) list option" where
  "tail_ranges c =
     (if 0x00 \<le> c \<and> c \<le> 0x7F then Some []
      else if 0xC2 \<le> c \<and> c \<le> 0xDF then Some [(0x80, 0xBF)]
      else if c = 0xE0 then Some [(0xA0, 0xBF), (0x80, 0xBF)]
      else if 0xE1 \<le> c \<and> c \<le> 0xEC \<or> c = 0xEE \<or> c = 0xEF then Some [(0x80, 0xBF), (0x80, 0xBF)]
      else if c = 0xED then Some [(0x80, 0x9F), (0x80, 0xBF)]
      else if c = 0xF0 then Some [(0x90, 0xBF), (0x80, 0xBF), (0x80, 0xBF)]
      else if 0xF1 \<le> c \<and> c \<le> 0xF3 then Some [(0x80, 0xBF), (0x80, 0xBF), (0x80, 0xBF)]
      else if c = 0xF4 then Some [(0x80, 0x8F), (0x80, 0xBF), (0x80, 0xBF)]
      else None)"

fun utf8_ok :: "(int \<times> int) list \<Rightarrow> string \<Rightarrow> bool" where
  "utf8_ok [] [] = True"
| "utf8_ok (r # rs) [] = False"
| "utf8_ok [] (c # s) = (case tail_ranges (code c) of None \<Rightarrow> False | Some rs \<Rightarrow> utf8_ok rs s)"
| "utf8_ok ((lo, hi) # rs) (c # s) = (lo \<le> code c \<and> code c \<le> hi \<and> utf8_ok rs s)"

abbreviation utf8 :: "string \<Rightarrow> bool" where
  "utf8 s \<equiv> utf8_ok [] s"

definition in_ranges :: "string \<Rightarrow> (int \<times> int) list \<Rightarrow> bool" where
  "in_ranges s rs = list_all2 (\<lambda>c (lo, hi). lo \<le> code c \<and> code c \<le> hi) s rs"

lemma utf8_ok_split:
  "utf8_ok rs s \<longleftrightarrow> (\<exists>t u. s = t @ u \<and> in_ranges t rs \<and> utf8 u)"
proof (induction rs arbitrary: s)
  case Nil
  then show ?case by (auto simp: in_ranges_def)
next
  case (Cons r rs)
  obtain lo hi where r: "r = (lo, hi)" by (cases r)
  show ?case
  proof (cases s)
    case Nil
    then show ?thesis by (auto simp: in_ranges_def r)
  next
    case [simp]: (Cons c s')
    show ?thesis
      by (auto simp: r Cons.IH [of s'] in_ranges_def list_all2_Cons2 Cons_eq_append_conv)
  qed
qed

lemma utf8_append: "utf8_ok rs s \<Longrightarrow> utf8 t \<Longrightarrow> utf8_ok rs (s @ t)"
  by (induction rs s rule: utf8_ok.induct) (auto split: option.splits)

section \<open>The automaton of the serializer\<close>

definition byte_type :: "nat \<Rightarrow> nat" where
  "byte_type b =
     (if b < 0x80 then 0 else if b < 0x90 then 1 else if b < 0xA0 then 9 else if b < 0xC0 then 7
      else if b < 0xC2 then 8 else if b < 0xE0 then 2 else if b = 0xE0 then 10 else if b = 0xED then 4
      else if b < 0xF0 then 3 else if b = 0xF0 then 11 else if b < 0xF4 then 6 else if b = 0xF4 then 5 else 8)"

lemma byte_type: "b < 256 \<Longrightarrow> utf8d ! b = byte_type b"
proof -
  have "list_all (\<lambda>b. utf8d ! b = byte_type b) [0..<256]" by code_simp
  then show "b < 256 \<Longrightarrow> ?thesis" by (simp add: list_all_iff)
qed

text \<open>The ranges a state of the automaton still expects, and its transitions by type of byte.\<close>

definition dfa_states :: "nat list" where
  "dfa_states = [0, 2, 3, 4, 5, 6, 7, 8]"

definition pending :: "nat \<Rightarrow> (int \<times> int) list" where
  "pending st =
     (if st = 2 then [(0x80, 0xBF)] else if st = 3 then [(0x80, 0xBF), (0x80, 0xBF)]
      else if st = 4 then [(0xA0, 0xBF), (0x80, 0xBF)] else if st = 5 then [(0x80, 0x9F), (0x80, 0xBF)]
      else if st = 6 then [(0x90, 0xBF), (0x80, 0xBF), (0x80, 0xBF)]
      else if st = 7 then [(0x80, 0xBF), (0x80, 0xBF), (0x80, 0xBF)]
      else if st = 8 then [(0x80, 0x8F), (0x80, 0xBF), (0x80, 0xBF)] else [])"

definition dfa_next :: "nat \<Rightarrow> nat \<Rightarrow> nat" where
  "dfa_next st ty =
     (if st = 0 then
        (if ty = 0 then 0 else if ty = 2 then 2 else if ty = 3 then 3 else if ty = 4 then 5
         else if ty = 5 then 8 else if ty = 6 then 7 else if ty = 10 then 4 else if ty = 11 then 6 else 1)
      else if st = 2 then (if ty \<in> {1, 7, 9} then 0 else 1)
      else if st = 3 then (if ty \<in> {1, 7, 9} then 2 else 1)
      else if st = 4 then (if ty = 7 then 2 else 1)
      else if st = 5 then (if ty \<in> {1, 9} then 2 else 1)
      else if st = 6 then (if ty \<in> {7, 9} then 3 else 1)
      else if st = 7 then (if ty \<in> {1, 7, 9} then 3 else 1)
      else (if ty = 1 then 3 else 1))"

lemma dfa_next: "st \<in> set dfa_states \<Longrightarrow> ty < 12 \<Longrightarrow> utf8d ! (256 + st * 16 + ty) = dfa_next st ty"
proof -
  have "list_all (\<lambda>st. list_all (\<lambda>ty. utf8d ! (256 + st * 16 + ty) = dfa_next st ty) [0..<12]) dfa_states"
    by code_simp
  then show "st \<in> set dfa_states \<Longrightarrow> ty < 12 \<Longrightarrow> ?thesis" by (simp add: list_all_iff)
qed

lemma byte_type_less: "byte_type b < 12"
  by (simp add: byte_type_def)

lemma decode_state:
  assumes "st \<in> set dfa_states"
  shows "fst (utf8_decode st cp (byte_of c)) = dfa_next st (byte_type (of_char c))"
  using assms nat_of_char_less_256 [of c]
  by (simp add: utf8_decode_def Let_def unat_byte_of byte_type dfa_next byte_type_less)

lemma decode_first:
  "(case tail_ranges (code c) of
      None \<Rightarrow> dfa_next 0 (byte_type (of_char c)) = 1
    | Some rs \<Rightarrow> dfa_next 0 (byte_type (of_char c)) \<in> set dfa_states \<and>
                 pending (dfa_next 0 (byte_type (of_char c))) = rs)"
  using nat_of_char_less_256 [of c]
  by (auto simp: tail_ranges_def byte_type_def dfa_next_def dfa_states_def pending_def)

lemma decode_next:
  assumes "st \<in> set dfa_states" and "pending st = (lo, hi) # rs"
  shows "if lo \<le> code c \<and> code c \<le> hi
    then dfa_next st (byte_type (of_char c)) \<in> set dfa_states \<and>
         pending (dfa_next st (byte_type (of_char c))) = rs
    else dfa_next st (byte_type (of_char c)) = 1"
proof -
  let ?b = "of_char c :: nat"
  have ty: "byte_type ?b = 1 \<longleftrightarrow> 0x80 \<le> ?b \<and> ?b < 0x90" "byte_type ?b = 9 \<longleftrightarrow> 0x90 \<le> ?b \<and> ?b < 0xA0"
    "byte_type ?b = 7 \<longleftrightarrow> 0xA0 \<le> ?b \<and> ?b < 0xC0"
    by (auto simp: byte_type_def)
  from assms consider "st = 2" | "st = 3" | "st = 4" | "st = 5" | "st = 6" | "st = 7" | "st = 8"
    by (auto simp: dfa_states_def pending_def)
  then show ?thesis
    by cases (use assms(2) in \<open>auto simp: dfa_next_def ty [unfolded One_nat_def] dfa_states_def pending_def\<close>)
qed

section \<open>Code points are escaped only when they are ASCII\<close>

lemma nat_or_disjoint: "a < 2 ^ n \<Longrightarrow> (a OR push_bit n b :: nat) = a + 2 ^ n * b"
proof -
  assume "a < 2 ^ n"
  then have t: "take_bit n a = a" by (simp add: take_bit_nat_eq_self)
  have "\<not> bit a k \<or> \<not> bit (push_bit n b) k" for k
    using bit_take_bit_iff [of n a k] by (auto simp: t bit_push_bit_iff_nat)
  from disjunctive_add [of a "push_bit n b", OF this] show ?thesis
    by (simp add: push_bit_eq_mult mult.commute)
qed

lemma unat_ucast_byte: "unat (ucast (byte_of c) :: u32) = of_char c"
proof -
  have "(of_char c :: nat) < 2 ^ 32" by (rule less_trans [OF nat_of_char_less_256]) simp
  then have "take_bit 32 (of_char c :: nat) = of_char c" by (rule take_bit_nat_eq_self)
  then show ?thesis by (simp add: unsigned_ucast_eq unat_byte_of)
qed

lemma cp_continue:
  assumes "unat cp < 2 ^ 20"
  shows "unat (((ucast (byte_of c) :: u32) AND 0x3f) OR push_bit 6 cp) = 64 * unat cp + of_char c mod 64"
proof -
  have and3f: "(w AND 0x3f :: u32) = take_bit 6 w" for w
    by (simp add: take_bit_eq_mask mask_eq_exp_minus_1)
  have u: "unat (ucast (byte_of c) :: u32) = of_char c" by (rule unat_ucast_byte)
  have p: "unat (push_bit 6 cp) = push_bit 6 (unat cp)"
    unfolding unsigned_push_bit_eq by (rule take_bit_nat_eq_self) (use assms in \<open>simp add: push_bit_eq_mult\<close>)
  have "unat (take_bit 6 (ucast (byte_of c) :: u32) OR push_bit 6 cp) = (of_char c mod 64) OR push_bit 6 (unat cp)"
    unfolding unsigned_or_eq unsigned_take_bit_eq u p by (simp add: take_bit_eq_mod)
  then show ?thesis using nat_or_disjoint [of "of_char c mod 64" 6 "unat cp"] by (simp add: and3f)
qed

lemma cp_first:
  "unat (drop_bit k 0xFF AND (ucast (byte_of c) :: u32)) = (drop_bit k 0xFF AND of_char c :: nat)"
  by (simp add: unsigned_and_eq unsigned_drop_bit_eq unat_ucast_byte)

text \<open>
  Bounds on the code point collected so far, by state: a sequence of several bytes ends above
  the ASCII range, so its last byte is written as it is.
\<close>

definition cp_ok :: "nat \<Rightarrow> nat \<Rightarrow> bool" where
  "cp_ok st cp =
     (if st = 2 then 2 \<le> cp \<and> cp < 2 ^ 15
      else if st = 3 \<or> st = 5 then 1 \<le> cp \<and> cp < 2 ^ 9
      else if st = 4 then cp = 0
      else if st = 6 then cp = 0
      else if st = 7 \<or> st = 8 then 1 \<le> cp \<and> cp < 8
      else True)"

lemma and_low_bits:
  "(255 AND n :: nat) = n mod 256" "(63 AND n :: nat) = n mod 64" "(31 AND n :: nat) = n mod 32" "(15 AND n :: nat) = n mod 16"
  "(7 AND n :: nat) = n mod 8" "(3 AND n :: nat) = n mod 4"
  using take_bit_eq_mask [of 8 n] take_bit_eq_mask [of 6 n] take_bit_eq_mask [of 5 n] take_bit_eq_mask [of 4 n]
    take_bit_eq_mask [of 3 n] take_bit_eq_mask [of 2 n]
  by (simp_all add: mask_eq_exp_minus_1 take_bit_eq_mod and.commute)

lemma mod_sub: "k * m \<le> b \<Longrightarrow> b < k * m + m \<Longrightarrow> b mod m = b - k * m" for b :: nat
  by (metis add_less_cancel_left le_add_diff_inverse mod_less mod_mult_self3)

lemma decode_cp_first:
  assumes "utf8_decode 0 cp (byte_of c) = (st', cp')" and "st' \<noteq> 1"
  shows "cp_ok st' (unat cp') \<and> (st' = 0 \<longrightarrow> unat cp' = of_char c)"
proof -
  let ?b = "of_char c :: nat"
  have b: "?b < 256" by simp
  have st: "st' = dfa_next 0 (byte_type ?b)"
    using assms(1) decode_state [of 0 cp c] by (simp add: dfa_states_def)
  have cp: "unat cp' = (drop_bit (byte_type ?b) 0xFF AND ?b)"
    using assms(1) b by (auto simp: utf8_decode_def Let_def unat_byte_of byte_type cp_first)
  consider "?b < 0x80" | "0xC2 \<le> ?b" "?b < 0xE0" | "?b = 0xE0" | "?b = 0xED"
    | "0xE1 \<le> ?b" "?b < 0xF0" "?b \<noteq> 0xED" | "?b = 0xF0" | "0xF1 \<le> ?b" "?b < 0xF4" | "?b = 0xF4"
    using assms(2) b unfolding st by (auto simp: byte_type_def dfa_next_def split: if_splits)
  then show ?thesis
  proof cases
    case 1 then show ?thesis by (simp add: st cp byte_type_def dfa_next_def cp_ok_def and_low_bits)
  next
    case 2
    then have "?b mod 64 = ?b - 0xC0" "2 \<le> ?b - 0xC0" "?b - 0xC0 < 2 ^ 15"
      using mod_sub [of 3 64 ?b] by simp_all
    with 2 show ?thesis by (simp add: st cp byte_type_def dfa_next_def cp_ok_def and_low_bits drop_bit_eq_div)
  next
    case 3 then show ?thesis by (simp add: st cp byte_type_def dfa_next_def cp_ok_def drop_bit_eq_div)
  next
    case 4 then show ?thesis by (simp add: st cp byte_type_def dfa_next_def cp_ok_def and_low_bits drop_bit_eq_div)
  next
    case 5
    then have "?b mod 32 = ?b - 0xE0" "1 \<le> ?b - 0xE0" "?b - 0xE0 < 2 ^ 9"
      using mod_sub [of 7 32 ?b] by simp_all
    with 5 show ?thesis by (simp add: st cp byte_type_def dfa_next_def cp_ok_def and_low_bits drop_bit_eq_div)
  next
    case 6 then show ?thesis by (simp add: st cp byte_type_def dfa_next_def cp_ok_def drop_bit_eq_div)
  next
    case 7
    then have "?b mod 4 = ?b - 0xF0" "1 \<le> ?b - 0xF0" "?b - 0xF0 < 8"
      using mod_sub [of 60 4 ?b] by simp_all
    with 7 show ?thesis by (simp add: st cp byte_type_def dfa_next_def cp_ok_def and_low_bits drop_bit_eq_div)
  next
    case 8 then show ?thesis by (simp add: st cp byte_type_def dfa_next_def cp_ok_def and_low_bits drop_bit_eq_div)
  qed
qed

lemma decode_cp_next:
  assumes "utf8_decode st cp (byte_of c) = (st', cp')" and "st \<in> set dfa_states" and "st \<noteq> 0"
    and "st' \<noteq> 1" and "cp_ok st (unat cp)"
  shows "cp_ok st' (unat cp') \<and> (st' = 0 \<longrightarrow> 0x80 \<le> unat cp') \<and> 0x80 \<le> (of_char c :: nat)"
proof -
  let ?b = "of_char c :: nat"
  have st: "st' = dfa_next st (byte_type ?b)"
    using assms(1) decode_state [OF assms(2), of cp c] by simp
  have "unat cp < 2 ^ 20" using assms(5) assms(2,3) by (auto simp: cp_ok_def dfa_states_def split: if_splits)
  then have cp: "unat cp' = 64 * unat cp + ?b mod 64"
    using assms(1,3) cp_continue [of cp c] by (auto simp: utf8_decode_def Let_def)
  have ty: "byte_type ?b \<in> {1, 7, 9}"
    using assms(2-4) unfolding st by (auto simp: dfa_next_def dfa_states_def split: if_splits)
  then have b: "0x80 \<le> ?b" "?b < 0xC0" by (auto simp: byte_type_def split: if_splits)
  then have m: "?b mod 64 = ?b - 0x80" using mod_sub [of 2 64 ?b] by simp
  have ty7: "byte_type ?b = 7 \<Longrightarrow> 0xA0 \<le> ?b" "byte_type ?b = 9 \<Longrightarrow> 0x90 \<le> ?b"
    by (auto simp: byte_type_def split: if_splits)
  from assms(2,3) consider "st = 2" | "st = 3" | "st = 4" | "st = 5" | "st = 6" | "st = 7" | "st = 8"
    by (auto simp: dfa_states_def)
  then show ?thesis
    by cases (use assms(4,5) b ty7 in \<open>auto simp: st cp m dfa_next_def cp_ok_def split: if_splits\<close>)
qed

section \<open>Escaping\<close>

text \<open>The text of one byte of a UTF-8 string.\<close>

definition esc :: "char \<Rightarrow> string" where
  "esc c = (if of_char c < (0x80 :: nat) then escape_codepoint (word_of_nat (of_char c)) c else [c])"

lemma escape_multibyte: "0x80 \<le> unat cp \<Longrightarrow> escape_codepoint cp c = [c]"
  by (auto simp: escape_codepoint_def word_le_nat_alt)

lemma pending_Nil: "st \<in> set dfa_states \<Longrightarrow> pending st = [] \<longleftrightarrow> st = 0"
  by (auto simp: dfa_states_def pending_def)

lemma tail_ranges_ascii: "tail_ranges (code c) = Some [] \<longleftrightarrow> of_char c < (0x80 :: nat)"
  by (auto simp: tail_ranges_def)

lemma dump_escaped_step:
  assumes "st \<in> set dfa_states" and "cp_ok st (unat cp)" and "utf8_decode st cp (byte_of c) = (st', cp')"
  shows "utf8_ok (pending st) (c # s) \<longleftrightarrow> st' \<noteq> 1 \<and> utf8_ok (pending st') s"
    and "st' \<noteq> 1 \<Longrightarrow> st' \<in> set dfa_states \<and> cp_ok st' (unat cp') \<and>
      (if st' = 0 then escape_codepoint cp' c else [c]) = esc c"
proof -
  have st: "st' = dfa_next st (byte_type (of_char c))"
    using assms(3) decode_state [OF assms(1), of cp c] by simp
  have one: "1 \<notin> set dfa_states" by (simp add: dfa_states_def)
  show "utf8_ok (pending st) (c # s) \<longleftrightarrow> st' \<noteq> 1 \<and> utf8_ok (pending st') s"
  proof (cases "pending st")
    case Nil
    then have "st = 0" using pending_Nil [OF assms(1)] by simp
    with decode_first [of c] one Nil show ?thesis by (auto simp: st split: option.splits)
  next
    case (Cons r rs)
    obtain lo hi where r: "r = (lo, hi)" by (cases r)
    from decode_next [OF assms(1) Cons [unfolded r], of c] one Cons r show ?thesis
      by (auto simp: st split: if_splits)
  qed
  assume ok: "st' \<noteq> 1"
  show "st' \<in> set dfa_states \<and> cp_ok st' (unat cp') \<and>
      (if st' = 0 then escape_codepoint cp' c else [c]) = esc c"
  proof (cases "st = 0")
    case True
    with decode_cp_first [of cp c st' cp'] assms(3) ok
    have cp: "cp_ok st' (unat cp')" "st' = 0 \<Longrightarrow> unat cp' = of_char c" by auto
    from decode_first [of c] ok True obtain rs where rs: "tail_ranges (code c) = Some rs"
      "st' \<in> set dfa_states" "pending st' = rs"
      by (auto simp: st split: option.splits)
    then have "st' = 0 \<longleftrightarrow> of_char c < (0x80 :: nat)"
      using tail_ranges_ascii [of c] pending_Nil [of st'] by auto
    moreover have "st' = 0 \<Longrightarrow> cp' = word_of_nat (of_char c)" 
    proof -
      have "word_of_nat (unat cp') = cp'" by simp
      then show "st' = 0 \<Longrightarrow> ?thesis" using cp(2) by simp
    qed
    ultimately show ?thesis using rs cp by (auto simp: esc_def)
  next
    case False
    note n = decode_cp_next [OF assms(3,1) False ok assms(2)]
    from False pending_Nil [OF assms(1)] obtain lo hi rs where "pending st = (lo, hi) # rs"
      by (metis neq_Nil_conv surj_pair)
    from decode_next [OF assms(1) this, of c] ok have "st' \<in> set dfa_states"
      by (auto simp: st split: if_splits)
    with n show ?thesis using escape_multibyte [of cp' c] by (auto simp: esc_def)
  qed
qed

lemma dump_escaped_loop:
  assumes "st \<in> set dfa_states" and "cp_ok st (unat cp)"
  shows "dump_escaped_loop s st cp out =
    (if utf8_ok (pending st) s then Some (out @ concat (map esc s)) else None)"
  using assms
proof (induction s arbitrary: st cp out)
  case Nil
  then show ?case using pending_Nil [of st] by (cases "pending st") auto
next
  case (Cons c s)
  obtain st' cp' where d: "utf8_decode st cp (byte_of c) = (st', cp')" by fastforce
  note step = dump_escaped_step(1) [OF Cons.prems d, of s] dump_escaped_step(2) [OF Cons.prems d]
  show ?case
  proof (cases "st' = 1")
    case True
    then show ?thesis using step(1) d by simp
  next
    case False
    with step(2) have s: "st' \<in> set dfa_states" "cp_ok st' (unat cp')"
      "(if st' = 0 then escape_codepoint cp' c else [c]) = esc c" by auto
    show ?thesis
      using Cons.IH [OF s(1,2)] s(3) False step(1) d by (auto split: if_splits)
  qed
qed

lemma dump_escaped: "dump_escaped s = (if utf8 s then Some (concat (map esc s)) else None)"
  using dump_escaped_loop [of 0 0 s "[]"]
  by (simp add: dump_escaped_def dfa_states_def cp_ok_def pending_def)

section \<open>Scanning strings\<close>

text \<open>
  \<open>reads lx s\<close>: the characters that \<open>get\<close> will return are those of \<open>s\<close>, then the end of the
  input. \<open>at lx s b\<close>: moreover the token buffer is \<open>b\<close>, and reading has begun.
\<close>

definition reads :: "lexer \<Rightarrow> string \<Rightarrow> bool" where
  "reads lx s =
     (if next_unget lx
      then (case s of [] \<Rightarrow> current lx = -1 \<and> ia lx = [] | c # cs \<Rightarrow> current lx = code c \<and> ia lx = cs)
      else ia lx = s)"

definition at :: "lexer \<Rightarrow> string \<Rightarrow> string \<Rightarrow> bool" where
  "at lx s b = (reads lx s \<and> token_buffer lx = b \<and> 0 < chars_read_total lx)"

lemma at_get:
  assumes "reads lx (c # s)"
  shows "current (lex_get lx) = code c" "at (lex_get lx) s (token_buffer lx)" "\<not> next_unget (lex_get lx)"
  using assms by (auto simp: reads_def at_def lex_get_def get_character_def Let_def split: if_splits)

lemma at_get_end:
  assumes "reads lx []"
  shows "current (lex_get lx) = -1" "at (lex_get lx) [] (token_buffer lx)" "\<not> next_unget (lex_get lx)"
  using assms by (auto simp: reads_def at_def lex_get_def get_character_def Let_def split: if_splits)

lemma at_reads: "at lx s b \<Longrightarrow> reads lx s" "at lx s b \<Longrightarrow> token_buffer lx = b"
  by (simp_all add: at_def)

lemma at_add: "at lx s b \<Longrightarrow> at (lex_add c lx) s (b @ [char_of (nat c)])"
  by (auto simp: at_def lex_add_def reads_def split: list.splits)

lemma at_add_code: "at lx s b \<Longrightarrow> at (lex_add (code c) lx) s (b @ [c])"
  using at_add [of lx s b "code c"] by simp

lemma at_next: "at lx (c # s) b \<Longrightarrow> current (lex_get lx) = code c \<and> at (lex_get lx) s b"
  using at_get [of lx c s] by (auto simp: at_def)

lemma next_byte_loop_reads:
  "at lx (t @ r) b \<Longrightarrow> in_ranges t rs \<Longrightarrow> \<exists>lx'. next_byte_loop rs lx = (True, lx') \<and> at lx' r (b @ t)"
proof (induction rs arbitrary: lx t b)
  case Nil
  then show ?case by (auto simp: in_ranges_def)
next
  case (Cons rg rs)
  obtain lo hi where rg: "rg = (lo, hi)" by (cases rg)
  from Cons.prems(2) rg obtain c t' where t: "t = c # t'" "lo \<le> code c" "code c \<le> hi" "in_ranges t' rs"
    by (auto simp: in_ranges_def list_all2_Cons2)
  from Cons.prems(1) t have "at lx (c # t' @ r) b" by simp
  from at_next [OF this] have g: "current (lex_get lx) = code c" "at (lex_get lx) (t' @ r) b" by auto
  from Cons.IH [OF at_add_code [OF g(2), of c] t(4)] show ?case
    using t g(1) by (simp add: rg Let_def)
qed

lemma string_step_multi:
  assumes "at lx (c # t @ r) b" and "tail_ranges (code c) = Some rs" and "in_ranges t rs"
    and "\<not> of_char c < (0x80 :: nat)"
  shows "\<exists>lx'. scan_string_step lx = (None, lx') \<and> at lx' r (b @ c # t)"
proof -
  let ?l = "lex_get lx"
  from at_next [OF assms(1)] have g: "current ?l = code c" "at ?l (t @ r) b" by auto
  from next_byte_loop_reads [OF at_add_code [OF g(2), of c] assms(3)] obtain lx' where
    n: "next_byte_in_range rs ?l = (True, lx')" "at lx' r (b @ c # t)"
    using g(1) by (auto simp: next_byte_in_range_def)
  then have "continue_if (next_byte_in_range rs ?l) = (None, lx')" by (simp add: continue_if_def)
  moreover have "scan_string_step lx = continue_if (next_byte_in_range rs ?l)"
    using assms(2,4) by (auto simp: scan_string_step_def Let_def g(1) tail_ranges_def split: if_splits)
  ultimately show ?thesis using n by auto
qed

lemma string_step_short:
  assumes "at lx (CHR 0x5C # e # r) b"
    and "(code e, v) \<in> {(0x22, 0x22), (0x5C, 0x5C), (0x62, 0x08), (0x66, 0x0C), (0x6E, 0x0A), (0x72, 0x0D), (0x74, 0x09)}"
  shows "\<exists>lx'. scan_string_step lx = (None, lx') \<and> at lx' r (b @ [char_of (nat v)])"
proof -
  from at_next [OF assms(1)] have g: "current (lex_get lx) = 0x5C" "at (lex_get lx) (e # r) b" by auto
  from at_next [OF g(2)] have h: "current (lex_get (lex_get lx)) = code e" "at (lex_get (lex_get lx)) r b" by auto
  have "scan_escape (lex_get lx) = (True, lex_add v (lex_get (lex_get lx)))"
    using assms(2) by (auto simp: scan_escape_def Let_def h(1))
  then have "scan_string_step lx = (None, lex_add v (lex_get (lex_get lx)))"
    by (simp add: scan_string_step_def Let_def g(1) continue_if_def)
  then show ?thesis using at_add [OF h(2), of v] by simp
qed

lemma hex_digit_lower: "d < 16 \<Longrightarrow> hex_digit (code (hex_lower d)) = Some (int d)"
  by (auto simp: hex_digit_def hex_lower_def)

lemma get_codepoint_reads:
  assumes "at lx (hex_lower d3 # hex_lower d2 # hex_lower d1 # hex_lower d0 # r) b"
    and "d3 < 16" "d2 < 16" "d1 < 16" "d0 < 16"
  shows "\<exists>lx'. get_codepoint lx = (int (4096 * d3 + 256 * d2 + 16 * d1 + d0), lx') \<and> at lx' r b"
proof -
  let ?g = lex_get
  from at_next [OF assms(1)] have 1: "current (?g lx) = code (hex_lower d3)"
    "at (?g lx) (hex_lower d2 # hex_lower d1 # hex_lower d0 # r) b" by auto
  from at_next [OF 1(2)] have 2: "current (?g (?g lx)) = code (hex_lower d2)"
    "at (?g (?g lx)) (hex_lower d1 # hex_lower d0 # r) b" by auto
  from at_next [OF 2(2)] have 3: "current (?g (?g (?g lx))) = code (hex_lower d1)"
    "at (?g (?g (?g lx))) (hex_lower d0 # r) b" by auto
  from at_next [OF 3(2)] have 4: "current (?g (?g (?g (?g lx)))) = code (hex_lower d0)"
    "at (?g (?g (?g (?g lx)))) r b" by auto
  show ?thesis
    using assms(2-) 4(2)
    by (simp add: get_codepoint_def Let_def 1(1) 2(1) 3(1) 4(1) hex_digit_lower push_bit_eq_mult)
qed

lemma string_step_control:
  assumes "at lx (u_escape n @ r) b" and "n < 0x20"
  shows "\<exists>lx'. scan_string_step lx = (None, lx') \<and> at lx' r (b @ [char_of n])"
proof -
  have u: "u_escape n = CHR 0x5C # CHR ''u'' # hex_lower 0 # hex_lower 0 # hex_lower (n div 16) # hex_lower (n mod 16) # []"
    using assms(2) by (simp add: u_escape_def)
  from assms(1) have a: "at lx (CHR 0x5C # CHR ''u'' # hex_lower 0 # hex_lower 0 # hex_lower (n div 16) # hex_lower (n mod 16) # r) b"
    by (simp add: u)
  from at_next [OF a] have g: "current (lex_get lx) = 0x5C"
    "at (lex_get lx) (CHR ''u'' # hex_lower 0 # hex_lower 0 # hex_lower (n div 16) # hex_lower (n mod 16) # r) b" by auto
  from at_next [OF g(2)] have h: "current (lex_get (lex_get lx)) = 0x75"
    "at (lex_get (lex_get lx)) (hex_lower 0 # hex_lower 0 # hex_lower (n div 16) # hex_lower (n mod 16) # r) b" by auto
  have "n div 16 < 16" by (rule less_mult_imp_div_less) (use assms(2) in simp)
  then have "\<exists>lx'. get_codepoint (lex_get (lex_get lx)) =
      (int (4096 * 0 + 256 * 0 + 16 * (n div 16) + n mod 16), lx') \<and> at lx' r b"
    by (intro get_codepoint_reads [OF h(2)]) simp_all
  then obtain lx' where c: "get_codepoint (lex_get (lex_get lx)) = (int n, lx')" "at lx' r b"
    by (simp only: mult_div_mod_eq mult_0_right add_0) blast
  let ?w = "word_of_nat n :: u32"
  have w: "unat ?w = n" using assms(2) by (simp add: unat_of_nat)
  then have ui: "uint ?w = int n" by (metis uint_nat)
  have ub: "utf8_bytes ?w = [?w]"
    using assms(2) w by (simp add: utf8_bytes_def word_less_nat_alt)
  have "scan_unicode (lex_get (lex_get lx)) = (Some ?w, lx')"
    using assms(2) by (simp add: scan_unicode_def c(1))
  then have "scan_escape (lex_get lx) = (True, lex_add (int n) lx')"
    by (simp add: scan_escape_def Let_def h(1) ub ui)
  then have "scan_string_step lx = (None, lex_add (int n) lx')"
    by (simp add: scan_string_step_def Let_def g(1) continue_if_def)
  then show ?thesis using at_add [OF c(2), of "int n"] by simp
qed

lemma string_step_ascii:
  assumes "at lx (esc c @ r) b" and "of_char c < (0x80 :: nat)"
  shows "\<exists>lx'. scan_string_step lx = (None, lx') \<and> at lx' r (b @ [c])"
proof -
  let ?n = "of_char c :: nat"
  have w: "unat (word_of_nat ?n :: u32) = ?n" using assms(2) by (simp add: unat_of_nat)
  have e: "esc c = (if ?n = 0x08 then [CHR 0x5C, CHR ''b''] else if ?n = 0x09 then [CHR 0x5C, CHR ''t'']
      else if ?n = 0x0A then [CHR 0x5C, CHR ''n''] else if ?n = 0x0C then [CHR 0x5C, CHR ''f'']
      else if ?n = 0x0D then [CHR 0x5C, CHR ''r''] else if ?n = 0x22 then [CHR 0x5C, CHR 0x22]
      else if ?n = 0x5C then [CHR 0x5C, CHR 0x5C] else if ?n \<le> 0x1F then u_escape ?n else [c])"
    using assms(2) by (simp add: esc_def escape_codepoint_def word_le_nat_alt word_unat_eq_iff w)
  have ch: "char_of ?n = c" by simp
  consider "?n \<in> {0x08, 0x09, 0x0A, 0x0C, 0x0D, 0x22, 0x5C}"
    | "?n \<notin> {0x08, 0x09, 0x0A, 0x0C, 0x0D, 0x22, 0x5C}" "?n < 0x20"
    | "?n \<notin> {0x22, 0x5C}" "0x20 \<le> ?n" by force
  then show ?thesis
  proof cases
    case 1
    then show ?thesis
      using string_step_short [of lx _ r b "int ?n"] assms(1) ch e by (auto simp del: ch)
  next
    case 2
    then show ?thesis using string_step_control [of lx ?n r b] assms(1) by (simp add: e)
  next
    case 3
    then have "at lx (c # r) b" using assms(1) by (simp add: e)
    from at_next [OF this] have g: "current (lex_get lx) = code c" "at (lex_get lx) r b" by auto
    have "scan_string_step lx = (None, lex_add (code c) (lex_get lx))"
      using 3 assms(2) by (simp add: scan_string_step_def Let_def g(1))
    then show ?thesis using at_add_code [OF g(2), of c] by simp
  qed
qed

lemma in_ranges_high: "tail_ranges (code c) = Some rs \<Longrightarrow> in_ranges t rs \<Longrightarrow> concat (map esc t) = t"
proof -
  have "in_ranges t rs \<Longrightarrow> \<forall>(lo, hi)\<in>set rs. 0x80 \<le> lo \<Longrightarrow> concat (map esc t) = t" for rs
    by (induction t arbitrary: rs) (auto simp: in_ranges_def list_all2_Cons1 esc_def)
  moreover assume "tail_ranges (code c) = Some rs" "in_ranges t rs"
  moreover have "\<forall>(lo, hi)\<in>set rs. 0x80 \<le> lo"
    using \<open>tail_ranges (code c) = Some rs\<close> by (auto simp: tail_ranges_def split: if_splits)
  ultimately show ?thesis by blast
qed

lemma scan_string_loop_reads:
  "at lx (concat (map esc s) @ CHR 0x22 # r) b \<Longrightarrow> utf8 s \<Longrightarrow>
   \<exists>lx'. scan_string_loop lx = (ValueString, lx') \<and> at lx' r (b @ s)"
proof (induction "length s" arbitrary: s lx b rule: less_induct)
  case less
  show ?case
  proof (cases s)
    case Nil
    with less.prems(1) have "at lx (CHR 0x22 # r) b" by simp
    from at_next [OF this] have "current (lex_get lx) = 0x22" "at (lex_get lx) r b" by auto
    then show ?thesis
      using Nil by (simp add: scan_string_loop.simps [of lx] scan_string_step_def Let_def)
  next
    case (Cons c s')
    with less.prems(2) obtain rs where rs: "tail_ranges (code c) = Some rs" "utf8_ok rs s'"
      by (auto split: option.splits)
    from rs(2) obtain t u where tu: "s' = t @ u" "in_ranges t rs" "utf8 u"
      by (auto simp: utf8_ok_split [of rs])
    note t = in_ranges_high [OF rs(1) tu(2)]
    let ?r = "concat (map esc u) @ CHR 0x22 # r"
    have "\<exists>lx1. scan_string_step lx = (None, lx1) \<and> at lx1 ?r (b @ c # t)"
    proof (cases "of_char c < (0x80 :: nat)")
      case True
      with tail_ranges_ascii [of c] rs(1) tu(2) have "t = []" by (simp add: in_ranges_def)
      with string_step_ascii [of lx c ?r b] less.prems(1) Cons tu(1) True show ?thesis by simp
    next
      case False
      then have "esc c = [c]" by (simp add: esc_def)
      with string_step_multi [of lx c t ?r b rs] less.prems(1) Cons tu False rs(1) t show ?thesis by simp
    qed
    then obtain lx1 where 1: "scan_string_step lx = (None, lx1)" "at lx1 ?r (b @ c # t)" by blast
    from less.hyps [OF _ 1(2) tu(3)] Cons tu(1) obtain lx' where
      "scan_string_loop lx1 = (ValueString, lx')" "at lx' r ((b @ c # t) @ u)"
      by auto
    then show ?thesis using 1(1) Cons tu(1) by (simp add: scan_string_loop.simps [of lx])
  qed
qed

lemma at_reset: "at lx s b \<Longrightarrow> at (lex_reset lx) s []"
  by (auto simp: at_def lex_reset_def reads_def split: list.splits)

lemma scan_string_reads:
  assumes "at lx (concat (map esc s) @ CHR 0x22 # r) b" and "utf8 s"
  shows "\<exists>lx'. scan_string lx = (ValueString, lx') \<and> at lx' r s"
  using scan_string_loop_reads [OF at_reset [OF assms(1)] assms(2)] by (simp add: scan_string_def)

section \<open>Scanning numbers\<close>

text \<open>What may follow a number: nothing, or a character that cannot continue it.\<close>

definition number_end :: "string \<Rightarrow> bool" where
  "number_end r = (r = [] \<or> hd r \<in> {CHR '','', CHR '']'', CHR ''}''})"

lemma at_unget:
  assumes "reads lx r" 
  shows "reads (lex_unget (lex_get lx)) r"
  using assms
  by (auto simp: reads_def lex_unget_def lex_get_def get_character_def Let_def split: list.splits if_splits)

lemma unget_get_fields [simp]:
  "token_buffer (lex_unget lx) = token_buffer lx" "token_buffer (lex_get lx) = token_buffer lx"
  "chars_read_total (lex_unget (lex_get lx)) = chars_read_total lx"
  by (auto simp: lex_unget_def lex_get_def get_character_def Let_def split: list.splits)

lemma at_unget_get: "at lx r b \<Longrightarrow> at (lex_unget (lex_get lx)) r b"
  by (simp add: at_def at_unget)

lemma number_end_current:
  assumes "reads lx r" and "number_end r"
  shows "\<not> is_dig (current (lex_get lx))" "current (lex_get lx) \<notin> {0x2E, 0x65, 0x45}"
proof -
  have "current (lex_get lx) \<in> {-1, 0x2C, 0x5D, 0x7D}"
    using assms at_get_end [of lx] at_get(1) [of lx "hd r" "tl r"]
    by (cases r) (auto simp: number_end_def)
  then show "\<not> is_dig (current (lex_get lx))" "current (lex_get lx) \<notin> {0x2E, 0x65, 0x45}"
    by (auto simp: is_dig_def)
qed

lemma is_dig_code: "is_dig (code c) = isdigit c"
  by (auto simp: is_dig_def isdigit_def Let_def)

lemma number_any1_reads:
  "at lx (ds @ r) b \<Longrightarrow> \<forall>c\<in>set ds. isdigit c \<Longrightarrow> number_end r \<Longrightarrow> ty \<noteq> ValueFloat \<Longrightarrow>
   \<exists>lx'. scan_number_at Any1 ty lx = scan_number_done ty (lex_get lx') \<and> at lx' r (b @ ds)"
proof (induction ds arbitrary: lx b)
  case Nil
  then have "at lx r b" by simp
  with number_end_current [of lx r] Nil.prems(3) show ?case
    by (intro exI [of _ lx]) (simp add: scan_number_at.simps [of Any1 ty lx] Let_def at_def)
next
  case (Cons d ds)
  then have "at lx (d # ds @ r) b" by simp
  from at_next [OF this] have g: "current (lex_get lx) = code d" "at (lex_get lx) (ds @ r) b" by auto
  have "is_dig (code d)" using Cons.prems(2) by (simp add: is_dig_code)
  moreover from Cons.IH [OF at_add_code [OF g(2), of d]] Cons.prems obtain lx' where
    "scan_number_at Any1 ty (lex_add (code d) (lex_get lx)) = scan_number_done ty (lex_get lx')"
    "at lx' r (b @ d # ds)" by auto
  ultimately show ?case
    by (intro exI [of _ lx']) (simp add: scan_number_at.simps [of Any1 ty lx] Let_def g(1))
qed

lemma reads_value_fields [simp]:
  "reads (lx\<lparr>value_unsigned := u\<rparr>) s = reads lx s" "reads (lx\<lparr>value_integer := i\<rparr>) s = reads lx s"
  by (simp_all add: reads_def split: list.split)

lemma show_nat_Cons: "\<exists>d ds. show_nat n = d # ds \<and> isdigit d \<and> (\<forall>c\<in>set ds. isdigit c)"
  using show_nat_digits [of n] by (cases "show_nat n") auto

lemma show_nat_leading_zero: "show_nat n = CHR ''0'' # ds \<Longrightarrow> n = 0 \<and> ds = []"
proof (induction n arbitrary: ds rule: show_nat.induct)
  case (1 n)
  have d: "digit_char m = CHR ''0'' \<Longrightarrow> m < 10 \<Longrightarrow> m = 0" for m
    using of_char_digit_char [of m] by auto
  show ?case
  proof (cases "n < 10")
    case True
    with 1 d [of n] show ?thesis by (simp add: show_nat_small)
  next
    case False
    with 1(2) obtain ds' where "show_nat (n div 10) = CHR ''0'' # ds'"
      using show_nat_step [of n] show_nat_nonempty [of "n div 10"] by (cases "show_nat (n div 10)") auto
    from 1(1) [OF False this] have "n div 10 = 0" by simp
    then have "n < 10" by (simp add: div_eq_0_iff)
    with False show ?thesis by simp
  qed
qed

text \<open>The digits of a number, the first of them already read.\<close>

lemma scan_digits:
  assumes "at lx (ds @ r) b" and "isdigit d" and "\<forall>c\<in>set ds. isdigit c" and "d = CHR ''0'' \<Longrightarrow> ds = []"
    and "number_end r" and "ty \<noteq> ValueFloat"
  shows "\<exists>lx'. scan_number_at (if code d = 0x30 then Zero else Any1) ty lx = scan_number_done ty (lex_get lx') \<and>
    at lx' r (b @ ds)"
proof (cases "d = CHR ''0''")
  case True
  with assms(1,4) have "at lx r b" by simp
  moreover from this number_end_current [of lx r] assms(5)
  have "scan_number_at Zero ty lx = scan_number_done ty (lex_get lx)"
    by (simp add: scan_number_at.simps [of Zero ty lx] Let_def at_def)
  ultimately show ?thesis using True assms(4) by auto
next
  case False
  then have "of_char d \<noteq> (of_char (CHR ''0'') :: nat)" by (simp only: of_char_eq_iff not_False_eq_True)
  then have "code d \<noteq> 0x30" by simp
  with number_any1_reads [OF assms(1,3,5,6)] show ?thesis by simp
qed

lemma scan_number_unsigned:
  assumes "at lx (ds @ r) b" and "current lx = code d" and "show_nat n = d # ds" and "number_end r" and "n < 2 ^ 64"
  shows "\<exists>lx'. scan_number lx = (ValueUnsigned, lx') \<and> value_unsigned lx' = word_of_nat n \<and> (\<exists>b'. at lx' r b')"
proof -
  have dig: "isdigit d" "\<forall>c\<in>set ds. isdigit c" using show_nat_digits [of n] assms(3) by simp_all
  have z: "d = CHR ''0'' \<Longrightarrow> ds = []" using show_nat_leading_zero assms(3) by blast
  have "at (lex_add (code d) (lex_reset lx)) (ds @ r) [d]"
    using at_add_code [OF at_reset [OF assms(1)], of d] by simp
  from scan_digits [OF this dig z assms(4), of ValueUnsigned] obtain lx' where
    s: "scan_number_at (if code d = 0x30 then Zero else Any1) ValueUnsigned (lex_add (code d) (lex_reset lx)) =
      scan_number_done ValueUnsigned (lex_get lx')" and a: "at lx' r (d # ds)" by auto
  have cd: "code d \<noteq> 0x2D" using dig(1) by (auto simp: isdigit_def Let_def)
  have cur: "current (lex_reset lx) = code d" using assms(2) by (simp add: lex_reset_def)
  have n: "scan_number lx = scan_number_done ValueUnsigned (lex_get lx')"
    using s cd by (simp add: scan_number_def Let_def cur split: if_splits)
  have "stoul (d # ds) = Some (word_of_nat n)" using stoul_show_nat [of n "[]"] assms(3,5) by simp
  then show ?thesis
    using n at_unget_get [OF a] a by (auto simp: scan_number_done_def Let_def at_def)
qed

lemma scan_number_negative:
  assumes "at lx (show_nat m @ r) b" and "current lx = 0x2D" and "number_end r" and "0 < m" and "m \<le> 2 ^ 63"
  shows "\<exists>lx'. scan_number lx = (ValueInteger, lx') \<and> value_integer lx' = word_of_int (- int m) \<and> (\<exists>b'. at lx' r b')"
proof -
  obtain d ds where m: "show_nat m = d # ds" "isdigit d" "\<forall>c\<in>set ds. isdigit c"
    using show_nat_Cons [of m] by blast
  have z: "d = CHR ''0'' \<Longrightarrow> ds = []" using show_nat_leading_zero m(1) by blast
  let ?l = "lex_add 0x2D (lex_reset lx)"
  have "at ?l (d # ds @ r) ''-''"
    using at_add_code [OF at_reset [OF assms(1)], of "CHR ''-''"] m(1) by simp
  from at_next [OF this] have g: "current (lex_get ?l) = code d" "at (lex_get ?l) (ds @ r) ''-''" by auto
  from scan_digits [OF at_add_code [OF g(2), of d] m(2,3) z assms(3), of ValueInteger] obtain lx' where
    s: "scan_number_at (if code d = 0x30 then Zero else Any1) ValueInteger (lex_add (code d) (lex_get ?l)) =
      scan_number_done ValueInteger (lex_get lx')" and a: "at lx' r (''-'' @ d # ds)" by auto
  have "scan_number_at Minus ValueUnsigned ?l = scan_number_done ValueInteger (lex_get lx')"
    using s m(2) by (auto simp: scan_number_at.simps [of Minus] Let_def g(1) is_dig_code)
  then have n: "scan_number lx = scan_number_done ValueInteger (lex_get lx')"
    using assms(2) by (simp add: scan_number_def Let_def lex_reset_def)
  have "strto (''-'' @ show_nat m) = Some (True, m)"
    by (simp add: strto_def Let_def isspace_def)
  then have "stoll (''-'' @ d # ds) = Some (word_of_int (- int m))"
    using assms(5) m(1) by (simp add: stoll_def signed_of_def)
  then show ?thesis
    using n at_unget_get [OF a] a by (auto simp: scan_number_done_def Let_def at_def)
qed

section \<open>Scanning tokens\<close>

text \<open>The part of \<open>scan\<close> after the byte order mark.\<close>

definition scan_rest :: "lexer \<Rightarrow> token_type \<times> lexer" where
  "scan_rest lx1 =
     (let lx = skip_whitespace lx1; c = current lx in
      if c = 0x5B then (BeginArray, lx)
      else if c = 0x5D then (EndArray, lx)
      else if c = 0x7B then (BeginObject, lx)
      else if c = 0x7D then (EndObject, lx)
      else if c = 0x3A then (NameSeparator, lx)
      else if c = 0x2C then (ValueSeparator, lx)
      else if c = 0x74 then scan_literal ''true'' LiteralTrue lx
      else if c = 0x66 then scan_literal ''false'' LiteralFalse lx
      else if c = 0x6E then scan_literal ''null'' LiteralNull lx
      else if c = 0x22 then scan_string lx
      else if c = 0x2D \<or> is_dig c then scan_number lx
      else if c = 0x00 \<or> c = -1 then (EndOfInput, lx)
      else (ParseError, lx))"

lemma scan_started: "at lx s b \<Longrightarrow> scan lx = scan_rest lx"
  by (simp add: scan_def scan_rest_def at_def Let_def)

lemma scan_init:
  assumes "of_char c \<noteq> (0xEF :: nat)"
  shows "\<exists>lx. scan (lexer_init (c # s)) = scan_rest lx \<and> reads lx (c # s)"
proof -
  let ?i = "lexer_init (c # s)"
  have r: "reads ?i (c # s)" by (simp add: reads_def lexer_init_def)
  have "skip_bom ?i = (True, lex_unget (lex_get ?i))"
    using at_get(1) [OF r] assms by (simp add: skip_bom_def Let_def)
  then have "scan ?i = scan_rest (lex_unget (lex_get ?i))"
    by (simp add: scan_def scan_rest_def Let_def lexer_init_def)
  then show ?thesis using at_unget [OF r] by auto
qed

lemma skip_whitespace_reads:
  assumes "reads lx (c # s)" and "c \<notin> {CHR '' '', CHR 0x09, CHR 0x0A, CHR 0x0D}"
  shows "skip_whitespace lx = lex_get lx"
proof -
  have "of_char c \<noteq> (of_char (CHR '' '') :: nat)" "of_char c \<noteq> (of_char (CHR 0x09) :: nat)"
    "of_char c \<noteq> (of_char (CHR 0x0A) :: nat)" "of_char c \<noteq> (of_char (CHR 0x0D) :: nat)"
    using assms(2) by (simp_all only: of_char_eq_iff) simp_all
  then show ?thesis using at_get(1) [OF assms(1)] by (simp add: skip_whitespace.simps [of lx] Let_def)
qed

end
