(* ===== verification/Json_Roundtrip.thy ===== *)
theory Json_Roundtrip
  imports Json_Parser Json_Text
begin

text \<open>
  The parser reads back what the serializer writes, and every value it returns is well
  formed: the strings and keys are UTF-8 and the objects ordered, so that no later \<open>dump\<close>
  of them can throw.
\<close>

section \<open>Tokens of serialized values\<close>

lemma at_of_reads:
  assumes "reads lx (c # s)" and "c \<notin> {CHR '' '', CHR 0x09, CHR 0x0A, CHR 0x0D}"
  shows "skip_whitespace lx = lex_get lx" "current (lex_get lx) = code c" "\<exists>b. at (lex_get lx) s b"
  using skip_whitespace_reads [OF assms] at_get [OF assms(1)] by auto

lemma scan_structural:
  assumes "reads lx (c # r)"
    and "(c, t) \<in> {(CHR ''['', BeginArray), (CHR '']'', EndArray), (CHR ''{'', BeginObject), (CHR ''}'', EndObject),
      (CHR '':'', NameSeparator), (CHR '','', ValueSeparator)}"
  shows "\<exists>lx' b. scan_rest lx = (t, lx') \<and> at lx' r b"
proof -
  have "c \<notin> {CHR '' '', CHR 0x09, CHR 0x0A, CHR 0x0D}" using assms(2) by auto
  note a = at_of_reads [OF assms(1) this]
  then show ?thesis using assms(2) by (auto simp: scan_rest_def Let_def)
qed

lemma scan_text:
  assumes "reads lx (CHR 0x22 # concat (map esc s) @ CHR 0x22 # r)" and "utf8 s"
  shows "\<exists>lx'. scan_rest lx = (ValueString, lx') \<and> at lx' r s"
proof -
  note a = at_of_reads [OF assms(1)]
  then obtain b where "at (lex_get lx) (concat (map esc s) @ CHR 0x22 # r) b" by auto
  from scan_string_reads [OF this assms(2)] a show ?thesis by (simp add: scan_rest_def Let_def)
qed

lemma scan_literal_loop_reads:
  "at lx (cs @ r) b \<Longrightarrow> \<exists>lx'. scan_literal_loop cs lx = (True, lx') \<and> at lx' r b"
proof (induction cs arbitrary: lx)
  case (Cons c cs)
  from at_next [of lx c "cs @ r" b] Cons.prems have g: "current (lex_get lx) = code c" "at (lex_get lx) (cs @ r) b"
    by auto
  have "nat (code c mod 256) = of_char c" using nat_of_char_less_256 [of c] by (simp add: nat_mod_distrib)
  then have "char_of (nat (code c mod 256)) = c" by simp
  with Cons.IH [OF g(2)] show ?case by (simp add: Let_def g(1))
qed auto

lemma scan_word:
  assumes "reads lx (w @ r)"
    and "(w, t) \<in> {(''true'', LiteralTrue), (''false'', LiteralFalse), (''null'', LiteralNull)}"
  shows "\<exists>lx' b. scan_rest lx = (t, lx') \<and> at lx' r b"
proof -
  from assms(2) consider "w = ''true''" "t = LiteralTrue" | "w = ''false''" "t = LiteralFalse"
    | "w = ''null''" "t = LiteralNull" by blast
  note c3 = this
  obtain c cs where w: "w = c # cs" by (cases rule: c3) simp_all
  have ws: "c \<notin> {CHR '' '', CHR 0x09, CHR 0x0A, CHR 0x0D}" using w by (cases rule: c3) auto
  note a = at_of_reads [OF assms(1) [unfolded w append_Cons] ws]
  then obtain b where "at (lex_get lx) (cs @ r) b" by auto
  from scan_literal_loop_reads [OF this] obtain lx' where "scan_literal_loop cs (lex_get lx) = (True, lx')" "at lx' r b"
    by auto
  note l = this
  have "scan_rest lx = scan_literal w t (lex_get lx)"
  proof (cases rule: c3)
    case 1
    then have "c = CHR ''t''" using w by simp
    with 1 a(2) show ?thesis by (simp add: scan_rest_def Let_def a(1))
  next
    case 2
    then have "c = CHR ''f''" using w by simp
    with 2 a(2) show ?thesis by (simp add: scan_rest_def Let_def a(1))
  next
    case 3
    then have "c = CHR ''n''" using w by simp
    with 3 a(2) show ?thesis by (simp add: scan_rest_def Let_def a(1))
  qed
  then show ?thesis using l w by (auto simp: scan_literal_def)
qed

lemma digit_not_space: "isdigit c \<Longrightarrow> c \<notin> {CHR '' '', CHR 0x09, CHR 0x0A, CHR 0x0D}"
  by (auto simp: isdigit_def Let_def)

lemma digit_not_structural:
  "isdigit c \<Longrightarrow> code c \<notin> {0x5B, 0x5D, 0x7B, 0x7D, 0x3A, 0x2C, 0x74, 0x66, 0x6E, 0x22}"
  by (auto simp: isdigit_def Let_def)

lemma scan_unsigned:
  assumes "reads lx (show_nat n @ r)" and "number_end r" and "n < 2 ^ 64"
  shows "\<exists>lx' b. scan_rest lx = (ValueUnsigned, lx') \<and> value_unsigned lx' = word_of_nat n \<and> at lx' r b"
proof -
  obtain d ds where d: "show_nat n = d # ds" "isdigit d" using show_nat_Cons [of n] by blast
  note a = at_of_reads [OF assms(1) [unfolded d append_Cons] digit_not_space [OF d(2)]]
  then obtain b where "at (lex_get lx) (ds @ r) b" by auto
  from scan_number_unsigned [OF this a(2) d(1) assms(2,3)] show ?thesis
    using a digit_not_structural [OF d(2)] d(2) by (auto simp: scan_rest_def Let_def is_dig_code)
qed

lemma scan_negative:
  assumes "reads lx (CHR ''-'' # show_nat m @ r)" and "number_end r" and "0 < m" and "m \<le> 2 ^ 63"
  shows "\<exists>lx' b. scan_rest lx = (ValueInteger, lx') \<and> value_integer lx' = word_of_int (- int m) \<and> at lx' r b"
proof -
  note a = at_of_reads [OF assms(1)]
  then obtain b where "at (lex_get lx) (show_nat m @ r) b" by auto
  from scan_number_negative [OF this _ assms(2-4)] a show ?thesis by (auto simp: scan_rest_def Let_def)
qed

lemma scan_end: "at lx [] b \<Longrightarrow> fst (scan lx) = EndOfInput"
proof -
  assume a: "at lx [] b"
  then have "current (lex_get lx) = -1" using at_get_end [of lx] by (simp add: at_def)
  then have "skip_whitespace lx = lex_get lx" "current (skip_whitespace lx) = -1"
    by (simp_all add: skip_whitespace.simps [of lx] Let_def)
  then show ?thesis using scan_started [OF a] by (simp add: scan_rest_def Let_def is_dig_def)
qed

section \<open>Well-formed values\<close>

fun json_ok :: "json \<Rightarrow> bool" where
  "json_ok (JObject m) = (obj_sorted m \<and> (\<forall>(k, v)\<in>set m. utf8 k \<and> json_ok v))"
| "json_ok (JArray xs) = (\<forall>v\<in>set xs. json_ok v)"
| "json_ok (JString s) = utf8 s"
| "json_ok _ = True"

fun no_float :: "json \<Rightarrow> bool" where
  "no_float (JObject m) = (\<forall>(k, v)\<in>set m. no_float v)"
| "no_float (JArray xs) = (\<forall>v\<in>set xs. no_float v)"
| "no_float (JFloat d) = False"
| "no_float _ = True"

text \<open>The parser makes a number unsigned unless it has a minus sign.\<close>

fun json_norm :: "json \<Rightarrow> json" where
  "json_norm (JObject m) = JObject (map (\<lambda>(k, v). (k, json_norm v)) m)"
| "json_norm (JArray xs) = JArray (map json_norm xs)"
| "json_norm (JInt i) = (if sint i < 0 then JInt i else JUInt i)"
| "json_norm j = j"

lemma comma_sep_Some: "(\<forall>x\<in>set xs. \<exists>s. x = Some s) \<Longrightarrow> \<exists>s. comma_sep xs = Some s"
  by (induction xs rule: comma_sep.induct) auto

lemma dump_total: "json_ok j \<Longrightarrow> \<exists>text. dump to_chars j = Some text"
proof (induction to_chars j rule: dump.induct)
  case (1 to_chars m)
  have "\<exists>s. dump_member k (dump to_chars v) = Some s" if "(k, v) \<in> set m" for k v
    using 1 that by (fastforce simp: dump_member_def dump_escaped)
  then have "\<exists>s. comma_sep (map (\<lambda>(k, v). dump_member k (dump to_chars v)) m) = Some s"
    by (intro comma_sep_Some) auto
  then show ?case by auto
next
  case (2 to_chars xs)
  have "\<exists>s. dump to_chars x = Some s" if "x \<in> set xs" for x
    using 2 that by (cases "xs = []") auto
  then have "\<exists>s. comma_sep (map (dump to_chars) xs) = Some s" by (intro comma_sep_Some) auto
  then show ?case by auto
qed (auto simp: dump_escaped)

section \<open>The loop of the parser on serialized values\<close>

text \<open>What the parser does once a value is complete.\<close>

definition after :: "lexer \<Rightarrow> sax \<Rightarrow> bool list \<Rightarrow> (lexer \<times> sax) option" where
  "after lx s states =
     (case parse_next lx s states of
        None \<Rightarrow> None
      | Some (Inl (skip, p)) \<Rightarrow> sax_parse_internal skip p
      | Some (Inr r) \<Rightarrow> Some r)"

lemma parse_done:
  "parse_value (t, lx, s, st) = Some (Inr (lx', s')) \<Longrightarrow> sax_parse_internal False (t, lx, s, st) = after lx' s' st"
  by (simp add: sax_parse_internal.simps [of False] parse_round_def after_def)

lemma parse_go:
  "parse_value p = Some (Inl p') \<Longrightarrow> sax_parse_internal False p = sax_parse_internal False p'"
  by (simp add: sax_parse_internal.simps [of False p] parse_round_def)

lemma parse_skip: "sax_parse_internal True (t, lx, s, st) = after lx s st"
  by (simp add: sax_parse_internal.simps [of True] parse_round_def after_def)

text \<open>\<open>parses lx j lx'\<close>: from \<open>lx\<close>, the parser reads the value \<open>j\<close> and stops at \<open>lx'\<close>.\<close>

definition parses :: "token_type \<times> lexer \<Rightarrow> json \<Rightarrow> lexer \<Rightarrow> bool" where
  "parses tok j lx' = (fst tok \<notin> {EndArray, EndObject} \<and>
     (\<forall>s st. sax_parse_internal False (fst tok, snd tok, s, st) = after lx' (handle_value j s) st))"

lemma parses_leaf:
  assumes "\<And>s st. parse_value (t, lx, s, st) = Some (Inr (lx, handle_value j s))"
    and "t \<notin> {EndArray, EndObject}"
  shows "parses (t, lx) j lx"
  using assms(2) parse_done [OF assms(1)] by (simp add: parses_def)

lemma sax_end_array: "sax_end (s\<lparr>ref_stack := OpenArray xs # ref_stack s\<rparr>) = handle_value (JArray xs) s"
  by (simp add: sax_end_def)

lemma sax_end_object: "sax_end (s\<lparr>ref_stack := OpenObject m k # ref_stack s\<rparr>) = handle_value (JObject m) s"
  by (simp add: sax_end_def)

lemma handle_array:
  "handle_value v (s\<lparr>ref_stack := OpenArray xs # fs\<rparr>) = s\<lparr>ref_stack := OpenArray (xs @ [v]) # fs\<rparr>"
  by (simp add: handle_value_def)

text \<open>The text \<open>tv\<close> of a value is read back, wherever it stands.\<close>

definition reading :: "string \<Rightarrow> json \<Rightarrow> bool" where
  "reading tv v = (\<forall>lx r. reads lx (tv @ r) \<longrightarrow> number_end r \<longrightarrow> (\<exists>lx' b. parses (scan_rest lx) v lx' \<and> at lx' r b))"

lemma readingD:
  "reading tv v \<Longrightarrow> reads lx (tv @ r) \<Longrightarrow> number_end r \<Longrightarrow> \<exists>lx' b. parses (scan_rest lx) v lx' \<and> at lx' r b"
  by (simp add: reading_def)

text \<open>The elements of an array, up to the closing bracket.\<close>

lemma parse_elements:
  assumes "\<forall>x\<in>set (x0 # xs). reading (enc x) (json_norm x)"
    and "reads lx (the (comma_sep (map (\<lambda>x. Some (enc x)) (x0 # xs))) @ CHR '']'' # r)"
  shows "\<exists>lx' b. at lx' r b \<and> fst (scan_rest lx) \<noteq> EndArray \<and>
    (\<forall>s acc st. sax_parse_internal False
        (fst (scan_rest lx), snd (scan_rest lx), s\<lparr>ref_stack := OpenArray acc # ref_stack s\<rparr>, True # st) =
      after lx' (handle_value (JArray (acc @ map json_norm (x0 # xs))) s) st)"
  using assms
proof (induction xs arbitrary: x0 lx)
  case Nil
  have "number_end (CHR '']'' # r)" by (simp add: number_end_def)
  from readingD [OF _ _ this, of "enc x0" "json_norm x0" lx] Nil obtain lx1 b where
    p: "parses (scan_rest lx) (json_norm x0) lx1" "at lx1 (CHR '']'' # r) b" by auto
  from scan_structural [of lx1 "CHR '']''" r EndArray] at_reads(1) [OF p(2)] obtain lx' b' where
    e: "scan_rest lx1 = (EndArray, lx')" "at lx' r b'" by auto
  have "after lx1 (s\<lparr>ref_stack := OpenArray (acc @ [json_norm x0]) # ref_stack s\<rparr>) (True # st) =
      after lx' (handle_value (JArray (acc @ [json_norm x0])) s) st" for s acc st
    using e(1) scan_started [OF p(2)]
    by (simp add: after_def [of lx1] parse_next_def parse_skip sax_end_array)
  then show ?case using p(1) e(2) by (auto simp: parses_def handle_array)
next
  case (Cons x1 xs)
  let ?rest = "the (comma_sep (map (\<lambda>x. Some (enc x)) (x1 # xs)))"
  have body: "the (comma_sep (map (\<lambda>x. Some (enc x)) (x0 # x1 # xs))) = enc x0 @ '','' @ ?rest"
    using comma_sep_Some [of "map (\<lambda>x. Some (enc x)) (x1 # xs)"] by auto
  have "number_end (CHR '','' # ?rest @ CHR '']'' # r)" by (simp add: number_end_def)
  from readingD [OF _ _ this, of "enc x0" "json_norm x0" lx] Cons(2,3) body obtain lx1 b where
    p: "parses (scan_rest lx) (json_norm x0) lx1" "at lx1 (CHR '','' # ?rest @ CHR '']'' # r) b" by auto
  from scan_structural [of lx1 "CHR '',''" "?rest @ CHR '']'' # r" ValueSeparator] at_reads(1) [OF p(2)] obtain lx2 b2 where
    e: "scan_rest lx1 = (ValueSeparator, lx2)" "at lx2 (?rest @ CHR '']'' # r) b2" by auto
  have "\<forall>x\<in>set (x1 # xs). reading (enc x) (json_norm x)" using Cons(2) by simp
  from Cons.IH [OF this, of lx2] at_reads(1) [OF e(2)] obtain lx' b' where
    i: "at lx' r b'"
    "\<And>s acc st. sax_parse_internal False
        (fst (scan_rest lx2), snd (scan_rest lx2), s\<lparr>ref_stack := OpenArray acc # ref_stack s\<rparr>, True # st) =
      after lx' (handle_value (JArray (acc @ map json_norm (x1 # xs))) s) st" by auto
  have "after lx1 (s\<lparr>ref_stack := OpenArray (acc @ [json_norm x0]) # ref_stack s\<rparr>) (True # st) =
      after lx' (handle_value (JArray (acc @ map json_norm (x0 # x1 # xs))) s) st" for s acc st
    using e(1) scan_started [OF p(2)] scan_started [OF e(2)] i(2) [where s = s and acc = "acc @ [json_norm x0]" and st = st]
    by (simp add: after_def [of lx1] parse_next_def split_beta)
  then show ?case using p(1) i(1) by (auto simp: parses_def handle_array)
qed

text \<open>The members of an object, from the first key to the closing brace.\<close>

lemma handle_object:
  "handle_value v (s\<lparr>ref_stack := OpenObject m k # fs\<rparr>) = s\<lparr>ref_stack := OpenObject (obj_set k v m) k # fs\<rparr>"
  by (simp add: handle_value_def)

lemma obj_set_twice: "obj_set k v (obj_set k w m) = obj_set k v m"
  by (induction k w m rule: obj_set.induct) auto

lemma key_then_value:
  assumes "\<forall>k'\<in>fst ` set acc. k' < k"
  shows "handle_value v (sax_key k (s\<lparr>ref_stack := OpenObject acc k0 # fs\<rparr>)) =
    s\<lparr>ref_stack := OpenObject (acc @ [(k, v)]) k # fs\<rparr>"
proof -
  have "obj_set k v (if map_of acc k = None then obj_set k JNull acc else acc) = acc @ [(k, v)]"
    using obj_set_snoc [OF assms, of v] obj_set_twice [of k v JNull acc] by simp
  then show ?thesis by (simp add: sax_key_def handle_object)
qed

lemma parse_member:
  assumes "reading tv v"
    and "reads lx ([CHR 0x22] @ concat (map esc k) @ [CHR 0x22, CHR '':''] @ tv @ r)" and "utf8 k" and "number_end r"
  shows "\<exists>lxk lx2 lx' b. scan_rest lx = (ValueString, lxk) \<and> (\<forall>s. parse_key ValueString lxk s = Some (lx2, sax_key k s)) \<and>
    parses (scan lx2) v lx' \<and> at lx' r b"
proof -
  from assms(2) have "reads lx (CHR 0x22 # concat (map esc k) @ CHR 0x22 # CHR '':'' # tv @ r)" by simp
  from scan_text [OF this assms(3)] obtain lxk where
    k: "scan_rest lx = (ValueString, lxk)" "at lxk (CHR '':'' # tv @ r) k" by auto
  from scan_structural [of lxk "CHR '':''" "tv @ r" NameSeparator] at_reads(1) [OF k(2)] obtain lx2 b2 where
    c: "scan_rest lxk = (NameSeparator, lx2)" "at lx2 (tv @ r) b2" by auto
  from readingD [OF assms(1) at_reads(1) [OF c(2)] assms(4)] obtain lx' b where
    v: "parses (scan lx2) v lx'" "at lx' r b" by (auto simp: scan_started [OF c(2)])
  have "parse_key ValueString lxk s = Some (lx2, sax_key k s)" for s
    using c(1) scan_started [OF k(2)] at_reads(2) [OF k(2)] by (simp add: parse_key_def)
  then show ?thesis using k(1) v by blast
qed

definition member_text :: "string \<times> string \<Rightarrow> string" where
  "member_text kt = [CHR 0x22] @ concat (map esc (fst kt)) @ [CHR 0x22, CHR '':''] @ snd kt"

lemma parse_members:
  assumes "\<forall>(k, v)\<in>set (x0 # xs). reading (enc v) (json_norm v)"
    and "\<forall>(k, v)\<in>set (x0 # xs). utf8 k"
    and "reads lx (the (comma_sep (map (\<lambda>(k, v). Some (member_text (k, enc v))) (x0 # xs))) @ CHR ''}'' # r)"
  shows "\<exists>lxk lx2 lx' b. scan_rest lx = (ValueString, lxk) \<and>
    (\<forall>s. parse_key ValueString lxk s = Some (lx2, sax_key (fst x0) s)) \<and> at lx' r b \<and>
    (\<forall>s acc k0 st. obj_sorted (acc @ map (\<lambda>(k, v). (k, json_norm v)) (x0 # xs)) \<longrightarrow>
      sax_parse_internal False
        (fst (scan lx2), snd (scan lx2), sax_key (fst x0) (s\<lparr>ref_stack := OpenObject acc k0 # ref_stack s\<rparr>), False # st) =
      after lx' (handle_value (JObject (acc @ map (\<lambda>(k, v). (k, json_norm v)) (x0 # xs))) s) st)"
  using assms
proof (induction xs arbitrary: x0 lx)
  case Nil
  obtain k v where x0: "x0 = (k, v)" by (cases x0)
  have e: "number_end (CHR ''}'' # r)" by (simp add: number_end_def)
  have m: "reading (enc v) (json_norm v)" using Nil(1) by (simp add: x0)
  have uk: "utf8 k" using Nil(2) by (simp add: x0)
  have rd: "reads lx ([CHR 0x22] @ concat (map esc k) @ [CHR 0x22, CHR '':''] @ enc v @ CHR ''}'' # r)"
    using Nil(3) by (simp add: x0 member_text_def)
  from parse_member [OF m rd uk e]
  obtain lxk lx2 lx1 b where p: "scan_rest lx = (ValueString, lxk)" "\<forall>s. parse_key ValueString lxk s = Some (lx2, sax_key k s)"
    "parses (scan lx2) (json_norm v) lx1" "at lx1 (CHR ''}'' # r) b"
    by auto
  from scan_structural [of lx1 "CHR ''}''" r EndObject] at_reads(1) [OF p(4)] obtain lx' b' where
    c: "scan_rest lx1 = (EndObject, lx')" "at lx' r b'" by auto
  have "after lx1 (s\<lparr>ref_stack := OpenObject m k # ref_stack s\<rparr>) (False # st) = after lx' (handle_value (JObject m) s) st" for s m st
    using c(1) scan_started [OF p(4)]
    by (simp add: after_def [of lx1] parse_next_def parse_skip sax_end_object)
  then show ?case
    using p c(2) x0 by (fastforce simp: parses_def obj_sorted_append key_then_value)
next
  case (Cons x1 xs)
  obtain k v where x0: "x0 = (k, v)" by (cases x0)
  let ?rest = "the (comma_sep (map (\<lambda>(k, v). Some (member_text (k, enc v))) (x1 # xs)))"
  have "\<exists>s. comma_sep (map (\<lambda>(k, v). Some (member_text (k, enc v))) (x1 # xs)) = Some s"
    by (rule comma_sep_Some) (auto split: prod.split)
  then have body: "the (comma_sep (map (\<lambda>(k, v). Some (member_text (k, enc v))) (x0 # x1 # xs))) =
      member_text (k, enc v) @ '','' @ ?rest"
    by (auto simp: x0)
  have e: "number_end (CHR '','' # ?rest @ CHR ''}'' # r)" by (simp add: number_end_def)
  have m: "reading (enc v) (json_norm v)" using Cons(2) by (simp add: x0)
  have uk: "utf8 k" using Cons(3) by (simp add: x0)
  have rd: "reads lx ([CHR 0x22] @ concat (map esc k) @ [CHR 0x22, CHR '':''] @ enc v @ CHR '','' # ?rest @ CHR ''}'' # r)"
    using Cons(4) unfolding body by (simp add: member_text_def)
  from parse_member [OF m rd uk e]
  obtain lxk lx2 lx1 b where p: "scan_rest lx = (ValueString, lxk)" "\<forall>s. parse_key ValueString lxk s = Some (lx2, sax_key k s)"
    "parses (scan lx2) (json_norm v) lx1" "at lx1 (CHR '','' # ?rest @ CHR ''}'' # r) b"
    by auto
  from scan_structural [of lx1 "CHR '',''" "?rest @ CHR ''}'' # r" ValueSeparator] at_reads(1) [OF p(4)] obtain lx3 b3 where
    c: "scan_rest lx1 = (ValueSeparator, lx3)" "at lx3 (?rest @ CHR ''}'' # r) b3" by auto
  have "\<forall>(k, v)\<in>set (x1 # xs). reading (enc v) (json_norm v)" "\<forall>(k, v)\<in>set (x1 # xs). utf8 k"
    using Cons(2,3) by simp_all
  from Cons.IH [OF this, of lx3] at_reads(1) [OF c(2)] obtain lxk' lx4 lx' b' where
    i: "scan_rest lx3 = (ValueString, lxk')" "\<forall>s. parse_key ValueString lxk' s = Some (lx4, sax_key (fst x1) s)" "at lx' r b'"
    "\<And>s acc k0 st. obj_sorted (acc @ map (\<lambda>(k, v). (k, json_norm v)) (x1 # xs)) \<Longrightarrow>
      sax_parse_internal False
        (fst (scan lx4), snd (scan lx4), sax_key (fst x1) (s\<lparr>ref_stack := OpenObject acc k0 # ref_stack s\<rparr>), False # st) =
      after lx' (handle_value (JObject (acc @ map (\<lambda>(k, v). (k, json_norm v)) (x1 # xs))) s) st"
    by auto
  have step: "after lx1 s (False # st) = sax_parse_internal False (fst (scan lx4), snd (scan lx4), sax_key (fst x1) s, False # st)" for s st
    using c(1) scan_started [OF p(4)] scan_started [OF c(2)] i(1,2)
    by (simp add: after_def [of lx1] parse_next_def split_beta)
  have "sax_parse_internal False
        (fst (scan lx2), snd (scan lx2), sax_key k (s\<lparr>ref_stack := OpenObject acc k0 # ref_stack s\<rparr>), False # st) =
      after lx' (handle_value (JObject (acc @ map (\<lambda>(k, v). (k, json_norm v)) (x0 # x1 # xs))) s) st"
    if "obj_sorted (acc @ map (\<lambda>(k, v). (k, json_norm v)) (x0 # x1 # xs))" for s acc k0 st
  proof -
    have "\<forall>k'\<in>fst ` set acc. k' < k"
      using that by (auto simp: obj_sorted_def x0 sorted_wrt_append)
    then show ?thesis
      using p(3) i(4) [where acc = "acc @ [(k, json_norm v)]" and s = s and ?k0.0 = k and st = st] that
      by (simp add: parses_def key_then_value step x0)
  qed
  then show ?case using p(1,2) i(3) x0 by auto
qed

section \<open>The round trip\<close>

lemma parses_empty_object:
  assumes "reads lx (''{}'' @ r)"
  shows "\<exists>lx' b. parses (scan_rest lx) (JObject []) lx' \<and> at lx' r b"
proof -
  from scan_structural [of lx "CHR ''{''" "CHR ''}'' # r" BeginObject] assms obtain lx1 b1 where
    o: "scan_rest lx = (BeginObject, lx1)" "at lx1 (CHR ''}'' # r) b1" by auto
  from scan_structural [of lx1 "CHR ''}''" r EndObject] at_reads(1) [OF o(2)] obtain lx2 b2 where
    c: "scan_rest lx1 = (EndObject, lx2)" "at lx2 r b2" by auto
  have "parse_value (BeginObject, lx1, s, st) = Some (Inr (lx2, handle_value (JObject []) s))" for s st
    using c(1) scan_started [OF o(2)] by (simp add: parse_value_def start_object_def sax_end_object)
  from parse_done [OF this] show ?thesis using o(1) c(2) by (auto simp: parses_def)
qed

lemma parses_empty_array:
  assumes "reads lx (''[]'' @ r)"
  shows "\<exists>lx' b. parses (scan_rest lx) (JArray []) lx' \<and> at lx' r b"
proof -
  from scan_structural [of lx "CHR ''[''" "CHR '']'' # r" BeginArray] assms obtain lx1 b1 where
    o: "scan_rest lx = (BeginArray, lx1)" "at lx1 (CHR '']'' # r) b1" by auto
  from scan_structural [of lx1 "CHR '']''" r EndArray] at_reads(1) [OF o(2)] obtain lx2 b2 where
    c: "scan_rest lx1 = (EndArray, lx2)" "at lx2 r b2" by auto
  have "parse_value (BeginArray, lx1, s, st) = Some (Inr (lx2, handle_value (JArray []) s))" for s st
    using c(1) scan_started [OF o(2)] by (simp add: parse_value_def start_array_def sax_end_array)
  from parse_done [OF this] show ?thesis using o(1) c(2) by (auto simp: parses_def)
qed

lemma parses_array:
  assumes "\<forall>x\<in>set (x0 # xs). reading (enc x) (json_norm x)"
    and "reads lx (CHR ''['' # the (comma_sep (map (\<lambda>x. Some (enc x)) (x0 # xs))) @ CHR '']'' # r)"
  shows "\<exists>lx' b. parses (scan_rest lx) (JArray (map json_norm (x0 # xs))) lx' \<and> at lx' r b"
proof -
  let ?body = "the (comma_sep (map (\<lambda>x. Some (enc x)) (x0 # xs)))"
  from scan_structural [of lx "CHR ''[''" "?body @ CHR '']'' # r" BeginArray] assms(2) obtain lx1 b1 where
    o: "scan_rest lx = (BeginArray, lx1)" "at lx1 (?body @ CHR '']'' # r) b1" by auto
  from parse_elements [OF assms(1) at_reads(1) [OF o(2)]] obtain lx' b where
    e: "at lx' r b" "fst (scan_rest lx1) \<noteq> EndArray"
    "\<And>s acc st. sax_parse_internal False
        (fst (scan_rest lx1), snd (scan_rest lx1), s\<lparr>ref_stack := OpenArray acc # ref_stack s\<rparr>, True # st) =
      after lx' (handle_value (JArray (acc @ map json_norm (x0 # xs))) s) st" by auto
  have "parse_value (BeginArray, lx1, s, st) =
      Some (Inl (fst (scan_rest lx1), snd (scan_rest lx1), s\<lparr>ref_stack := OpenArray [] # ref_stack s\<rparr>, True # st))" for s st
    using e(2) scan_started [OF o(2)] by (simp add: parse_value_def start_array_def split_beta)
  from parse_go [OF this] e(3) [where acc = "[]"] show ?thesis
    using o(1) e(1) by (auto simp: parses_def)
qed

lemma parses_object:
  assumes "\<forall>(k, v)\<in>set (x0 # xs). reading (enc v) (json_norm v)"
    and "\<forall>(k, v)\<in>set (x0 # xs). utf8 k" and "obj_sorted (x0 # xs)"
    and "reads lx (CHR ''{'' # the (comma_sep (map (\<lambda>(k, v). Some (member_text (k, enc v))) (x0 # xs))) @ CHR ''}'' # r)"
  shows "\<exists>lx' b. parses (scan_rest lx) (json_norm (JObject (x0 # xs))) lx' \<and> at lx' r b"
proof -
  let ?body = "the (comma_sep (map (\<lambda>(k, v). Some (member_text (k, enc v))) (x0 # xs)))"
  let ?m = "map (\<lambda>(k, v). (k, json_norm v)) (x0 # xs)"
  from scan_structural [of lx "CHR ''{''" "?body @ CHR ''}'' # r" BeginObject] assms(4) obtain lx1 b1 where
    o: "scan_rest lx = (BeginObject, lx1)" "at lx1 (?body @ CHR ''}'' # r) b1" by auto
  from parse_members [OF assms(1,2) at_reads(1) [OF o(2)]] obtain lxk lx2 lx' b where
    e: "scan_rest lx1 = (ValueString, lxk)" "\<forall>s. parse_key ValueString lxk s = Some (lx2, sax_key (fst x0) s)" "at lx' r b"
    "\<And>s acc k0 st. obj_sorted (acc @ ?m) \<Longrightarrow>
      sax_parse_internal False
        (fst (scan lx2), snd (scan lx2), sax_key (fst x0) (s\<lparr>ref_stack := OpenObject acc k0 # ref_stack s\<rparr>), False # st) =
      after lx' (handle_value (JObject (acc @ ?m)) s) st" by blast
  have m: "obj_sorted ([] @ ?m)" using assms(3) by (simp add: obj_sorted_def split_beta comp_def)
  have "parse_value (BeginObject, lx1, s, st) =
      Some (Inl (fst (scan lx2), snd (scan lx2), sax_key (fst x0) (s\<lparr>ref_stack := OpenObject [] [] # ref_stack s\<rparr>), False # st))" for s st
    using e(1,2) scan_started [OF o(2)] by (simp add: parse_value_def start_object_def split_beta)
  from parse_go [OF this] e(4) [OF m] show ?thesis
    using o(1) e(3) by (auto simp: parses_def)
qed

lemma parse_dump:
  "json_ok j \<Longrightarrow> no_float j \<Longrightarrow> reads lx (the (dump to_chars j) @ r) \<Longrightarrow> number_end r \<Longrightarrow>
   \<exists>lx' b. parses (scan_rest lx) (json_norm j) lx' \<and> at lx' r b"
proof (induction to_chars j arbitrary: lx r rule: dump.induct)
  case (1 to_chars m)
  show ?case
  proof (cases m)
    case Nil
    with 1 parses_empty_object [of lx r] show ?thesis by simp
  next
    case (Cons x0 xs)
    have "dump_member k (dump to_chars v) = Some (member_text (k, the (dump to_chars v)))" if "(k, v) \<in> set m" for k v
    proof -
      from 1(2) that have "utf8 k" "json_ok v" by auto
      with dump_total [of v to_chars] show ?thesis by (auto simp: dump_member_def dump_escaped member_text_def)
    qed
    then have dm: "map (\<lambda>(k, v). dump_member k (dump to_chars v)) m =
        map (\<lambda>(k, v). Some (member_text (k, the (dump to_chars v)))) m"
      by (intro map_cong) auto
    obtain body where bd: "comma_sep (map (\<lambda>(k, v). Some (member_text (k, the (dump to_chars v)))) m) = Some body"
      using comma_sep_Some [of "map (\<lambda>(k, v). Some (member_text (k, the (dump to_chars v)))) m"]
      by (fastforce split: prod.split)
    have "dump to_chars (JObject m) = Some (''{'' @ body @ ''}'')"
      unfolding dump.simps dm bd using Cons by simp
    with 1(4) have "reads lx (CHR ''{'' # the (comma_sep (map (\<lambda>(k, v). Some (member_text (k, the (dump to_chars v)))) (x0 # xs))) @ CHR ''}'' # r)"
      unfolding Cons [symmetric] bd by simp
    moreover have "reading (the (dump to_chars v)) (json_norm v)" if "(k, v) \<in> set m" for k v
    proof -
      from 1(2,3) that have "json_ok v" "no_float v" by auto
      then show ?thesis
        unfolding reading_def using 1(1) [OF _ that refl] Cons by blast
    qed
    ultimately show ?thesis
      unfolding Cons by (intro parses_object [where enc = "\<lambda>v. the (dump to_chars v)"]) (use 1(2) Cons in auto)
  qed
next
  case (2 to_chars xs)
  show ?case
  proof (cases xs)
    case Nil
    with 2 parses_empty_array [of lx r] show ?thesis by simp
  next
    case (Cons x0 ys)
    have dm: "map (dump to_chars) xs = map (\<lambda>x. Some (the (dump to_chars x))) xs"
      using 2(2) dump_total by fastforce
    obtain body where bd: "comma_sep (map (\<lambda>x. Some (the (dump to_chars x))) xs) = Some body"
      using comma_sep_Some [of "map (\<lambda>x. Some (the (dump to_chars x))) xs"] by auto
    have "dump to_chars (JArray xs) = Some (''['' @ body @ '']'')"
      unfolding dump.simps dm bd using Cons by simp
    with 2(4) have "reads lx (CHR ''['' # the (comma_sep (map (\<lambda>x. Some (the (dump to_chars x))) (x0 # ys))) @ CHR '']'' # r)"
      unfolding Cons [symmetric] bd by simp
    moreover have "reading (the (dump to_chars x)) (json_norm x)" if "x \<in> set xs" for x
      unfolding reading_def using 2(1) [OF _ that] 2(2,3) that Cons by auto
    ultimately show ?thesis
      unfolding Cons json_norm.simps
      by (intro parses_array [where enc = "\<lambda>x. the (dump to_chars x)"]) (use Cons in auto)
  qed
next
  case (3 to_chars s)
  then obtain lx' where "scan_rest lx = (ValueString, lx')" "at lx' r s"
    using scan_text [of lx s r] by (auto simp: dump_escaped)
  then show ?case using parses_leaf [of ValueString lx' "JString s"] by (auto simp: parse_value_def at_def)
next
  case (4 to_chars b)
  then obtain lx' c where "scan_rest lx = (if b then LiteralTrue else LiteralFalse, lx')" "at lx' r c"
    using scan_word [of lx "if b then ''true'' else ''false''" r "if b then LiteralTrue else LiteralFalse"]
    by (cases b) auto
  then show ?case using parses_leaf [of "if b then LiteralTrue else LiteralFalse" lx' "JBool b"]
    by (auto simp: parse_value_def split: if_splits)
next
  case (5 to_chars i)
  show ?case
  proof (cases "sint i < 0")
    case True
    have m: "0 < nat (- sint i)" "nat (- sint i) \<le> 2 ^ 63" using True sint_ge [of i] by simp_all
    from 5 True have "reads lx (CHR ''-'' # show_nat (nat (- sint i)) @ r)"
      by (simp add: dump_signed show_i64_def Let_def)
    from scan_negative [OF this 5(4) m] True obtain lx' c where
      "scan_rest lx = (ValueInteger, lx')" "value_integer lx' = i" "at lx' r c" by auto
    then show ?thesis using parses_leaf [of ValueInteger lx' "JInt i"] True by (auto simp: parse_value_def)
  next
    case False
    let ?n = "nat (sint i)"
    from 5 False have rd: "reads lx (show_nat ?n @ r)" by (simp add: dump_signed show_i64_def Let_def)
    have n: "?n < 2 ^ 64" "word_of_nat ?n = i" using False sint_lt [of i] by simp_all
    from scan_unsigned [OF rd 5(4) n(1)] n(2) obtain lx' c where
      "scan_rest lx = (ValueUnsigned, lx')" "value_unsigned lx' = i" "at lx' r c" by auto
    then show ?thesis using parses_leaf [of ValueUnsigned lx' "JUInt i"] False by (auto simp: parse_value_def)
  qed
next
  case (6 to_chars u)
  have n: "unat u < 2 ^ 64" using unsigned_less [of u, where ?'a = nat] by simp
  from 6 have "reads lx (show_nat (unat u) @ r)" by (simp add: dump_unsigned show_u64_def)
  from scan_unsigned [OF this 6(4) n] obtain lx' c where
    "scan_rest lx = (ValueUnsigned, lx')" "value_unsigned lx' = u" "at lx' r c" by auto
  then show ?case using parses_leaf [of ValueUnsigned lx' "JUInt u"] by (auto simp: parse_value_def)
next
  case (8 to_chars)
  then obtain lx' c where "scan_rest lx = (LiteralNull, lx')" "at lx' r c"
    using scan_word [of lx "''null''" r LiteralNull] by auto
  then show ?case using parses_leaf [of LiteralNull lx' JNull] by (auto simp: parse_value_def)
qed simp

lemma dump_first_char:
  "json_ok j \<Longrightarrow> no_float j \<Longrightarrow> \<exists>c s. the (dump to_chars j) = c # s \<and> of_char c \<noteq> (0xEF :: nat)"
proof -
  assume ok: "json_ok j" "no_float j"
  have nat: "\<exists>c s. show_nat n = c # s \<and> of_char c \<noteq> (0xEF :: nat)" for n
    using show_nat_Cons [of n] by (auto simp: isdigit_def Let_def)
  show ?thesis
  proof (cases j)
    case (JObject m)
    with dump_total [OF ok(1), of to_chars] show ?thesis by (auto split: if_splits)
  next
    case (JArray xs)
    with dump_total [OF ok(1), of to_chars] show ?thesis by (auto split: if_splits)
  qed (use ok nat in \<open>auto simp: dump_escaped dump_signed dump_unsigned show_i64_def show_u64_def Let_def\<close>)
qed

lemma json_roundtrip_text:
  assumes "json_ok j" and "no_float j"
  shows "\<exists>out. dump to_chars j = Some out \<and> json_parse out = Some (json_norm j)"
proof -
  obtain out where d: "dump to_chars j = Some out" using dump_total [OF assms(1)] by blast
  obtain c s where t: "out = c # s" "of_char c \<noteq> (0xEF :: nat)"
    using dump_first_char [OF assms, of to_chars] d by auto
  from scan_init [OF t(2), of s] obtain lx where
    lx: "scan (lexer_init out) = scan_rest lx" "reads lx out" by (auto simp: t(1))
  from parse_dump [OF assms, of lx to_chars "[]"] lx(2) d obtain lx' b where
    p: "parses (scan_rest lx) (json_norm j) lx'" "at lx' [] b" by (auto simp: number_end_def)
  have "sax_parse_internal False (fst (scan_rest lx), snd (scan_rest lx), sax_init, []) =
      Some (lx', sax_init\<lparr>root := json_norm j\<rparr>)"
    using p(1) by (simp add: parses_def after_def parse_next_def handle_value_def sax_init_def)
  then have "json_parse out = Some (json_norm j)"
    using lx(1) scan_end [OF p(2)] by (simp add: json_parse_def split_beta)
  with d show ?thesis by blast
qed

end
