(* ===== verification/Json_Wf.thy ===== *)
theory Json_Wf
  imports Json_Roundtrip
begin

text \<open>
  Values that come out of the parser are well formed: every string and key is UTF-8, checked
  byte by byte by the scanner or produced by it from an escape, and objects keep their keys
  in order.
\<close>

section \<open>Strings that the scanner accepts\<close>

lemma code_char_of: "0 \<le> c \<Longrightarrow> c < 256 \<Longrightarrow> code (char_of (nat c)) = c"
  by simp

lemma token_buffer_add [simp]: "token_buffer (lex_add c lx) = token_buffer lx @ [char_of (nat c)]"
  by (simp add: lex_add_def)

lemma next_byte_loop_accepts:
  assumes "next_byte_loop rs lx = (True, lx')" and "\<forall>(lo, hi)\<in>set rs. 0 \<le> lo \<and> hi < 256"
  shows "\<exists>t. token_buffer lx' = token_buffer lx @ t \<and> in_ranges t rs"
  using assms
proof (induction rs lx rule: next_byte_loop.induct)
  case (2 lo hi rs lx)
  let ?c = "current (lex_get lx)"
  from 2(2) have c: "lo \<le> ?c" "?c \<le> hi" "next_byte_loop rs (lex_add ?c (lex_get lx)) = (True, lx')"
    by (auto simp: Let_def split: if_splits)
  from 2(1) [OF refl _ c(3)] 2(3) c obtain t where
    "token_buffer lx' = token_buffer (lex_add ?c (lex_get lx)) @ t" "in_ranges t rs" by auto
  moreover have "code (char_of (nat ?c)) = ?c" using c 2(3) by (intro code_char_of) auto
  ultimately show ?case using c(1,2)
    by (intro exI [of _ "char_of (nat ?c) # t"]) (auto simp: in_ranges_def)
qed (auto simp: in_ranges_def)

lemma utf8_unit: "tail_ranges (code c) = Some rs \<Longrightarrow> in_ranges t rs \<Longrightarrow> utf8 (c # t)"
  using utf8_ok_split [of rs t] by (auto intro: exI [of _ t])

lemma next_byte_accepts:
  assumes "next_byte_in_range rs lx = (True, lx')" and "tail_ranges (current lx) = Some rs" and "utf8 (token_buffer lx)"
  shows "utf8 (token_buffer lx')"
proof -
  have rs: "\<forall>(lo, hi)\<in>set rs. 0 \<le> lo \<and> hi < 256" and c: "code (char_of (nat (current lx))) = current lx"
    using assms(2) by (auto simp: tail_ranges_def split: if_splits)
  from next_byte_loop_accepts [OF assms(1) [unfolded next_byte_in_range_def] rs] obtain t where
    "token_buffer lx' = token_buffer lx @ char_of (nat (current lx)) # t" "in_ranges t rs" by auto
  moreover from this(2) have "utf8 (char_of (nat (current lx)) # t)" using utf8_unit c assms(2) by metis
  ultimately show ?thesis using utf8_append [OF assms(3)] by simp
qed

section \<open>Escapes give UTF-8\<close>

definition scalar_value :: "nat \<Rightarrow> bool" where
  "scalar_value n = (n < 0xD800 \<or> 0xE000 \<le> n \<and> n \<le> 0x10FFFF)"

lemma hex_digit_bounds: "hex_digit c = Some d \<Longrightarrow> 0 \<le> d \<and> d < 16"
  by (auto simp: hex_digit_def split: if_splits)

lemma get_codepoint_bounds:
  assumes "get_codepoint lx = (cp, lx')" and "cp \<noteq> -1"
  shows "0 \<le> cp \<and> cp < 0x10000" "token_buffer lx' = token_buffer lx"
proof -
  from assms obtain d3 d2 d1 d0 where
    "hex_digit (current (lex_get lx)) = Some d3"
    "hex_digit (current (lex_get (lex_get lx))) = Some d2"
    "hex_digit (current (lex_get (lex_get (lex_get lx)))) = Some d1"
    "hex_digit (current (lex_get (lex_get (lex_get (lex_get lx))))) = Some d0"
    "cp = 4096 * d3 + 256 * d2 + 16 * d1 + d0" "lx' = lex_get (lex_get (lex_get (lex_get lx)))"
    by (auto simp: get_codepoint_def Let_def push_bit_eq_mult split: option.splits)
  note d = this
  from d(1-4) [THEN hex_digit_bounds] d(5) show "0 \<le> cp \<and> cp < 0x10000" by simp
  from d(6) show "token_buffer lx' = token_buffer lx" by simp
qed

lemma surrogate_pair:
  assumes "0xD800 \<le> a" "a \<le> 0xDBFF" "0xDC00 \<le> b" "b \<le> 0xDFFF"
  shows "scalar_value (unat (push_bit 10 (word_of_int a) + word_of_int b - 0x35FDC00 :: u32))"
proof -
  have w: "push_bit 10 (word_of_int a) + word_of_int b - 0x35FDC00 = (word_of_int (1024 * a + b - 0x35FDC00) :: u32)"
    by (simp add: push_bit_eq_mult)
  have bd: "0x10000 \<le> 1024 * a + b - 0x35FDC00" "1024 * a + b - 0x35FDC00 \<le> 0x10FFFF" using assms by simp_all
  then have "uint (word_of_int (1024 * a + b - 0x35FDC00) :: u32) = 1024 * a + b - 0x35FDC00"
    unfolding uint_word_of_int_eq by (intro take_bit_int_eq_self) simp_all
  then have "unat (word_of_int (1024 * a + b - 0x35FDC00) :: u32) = nat (1024 * a + b - 0x35FDC00)" by (metis nat_uint_eq)
  moreover from bd have "57344 \<le> nat (1024 * a + b - 0x35FDC00)" "nat (1024 * a + b - 0x35FDC00) \<le> 0x10FFFF"
    by linarith+
  ultimately show ?thesis unfolding w by (simp add: scalar_value_def)
qed

lemma scan_unicode_scalar:
  assumes "scan_unicode lx = (Some w, lx')"
  shows "scalar_value (unat w) \<and> token_buffer lx' = token_buffer lx"
proof -
  obtain c1 lx1 where c1: "get_codepoint lx = (c1, lx1)" by fastforce
  obtain c2 lx2 where c2: "get_codepoint (lex_get (lex_get lx1)) = (c2, lx2)" by fastforce
  consider "c1 \<noteq> -1" "0xD800 \<le> c1" "c1 \<le> 0xDBFF" "c2 \<noteq> -1" "0xDC00 \<le> c2" "c2 \<le> 0xDFFF"
      "w = push_bit 10 (word_of_int c1) + word_of_int c2 - 0x35FDC00" "lx' = lx2"
    | "c1 \<noteq> -1" "\<not> (0xD800 \<le> c1 \<and> c1 \<le> 0xDFFF)" "w = word_of_int c1" "lx' = lx1"
    using assms by (auto simp: scan_unicode_def Let_def c1 c2 split: if_splits)
  then show ?thesis
  proof cases
    case 1
    then show ?thesis
      using surrogate_pair [of c1 c2] get_codepoint_bounds(2) [OF c1] get_codepoint_bounds(2) [OF c2] by simp
  next
    case 2
    note b = get_codepoint_bounds [OF c1 2(1)]
    then have "uint w = c1"
      unfolding 2(3) uint_word_of_int_eq by (intro take_bit_int_eq_self) simp_all
    then have "unat w = nat c1" by (metis nat_uint_eq)
    then show ?thesis using 2 b by (auto simp: scalar_value_def)
  qed
qed

lemma or_add:
  "a < 64 \<Longrightarrow> (0xC0 OR a :: nat) = 0xC0 + a" "a < 64 \<Longrightarrow> (0x80 OR a :: nat) = 0x80 + a"
  "a < 32 \<Longrightarrow> (0xE0 OR a :: nat) = 0xE0 + a" "a < 16 \<Longrightarrow> (0xF0 OR a :: nat) = 0xF0 + a"
  using nat_or_disjoint [of a 6 3] nat_or_disjoint [of a 6 2] nat_or_disjoint [of a 5 7] nat_or_disjoint [of a 4 15]
  by (simp_all add: or.commute push_bit_eq_mult)

lemma unat_tail_byte: "unat (0x80 OR (w AND 0x3F) :: u32) = 0x80 + unat w mod 64"
proof -
  have "unat (0x80 OR (w AND 0x3F) :: u32) = 0x80 OR (0x3F AND unat w)"
    by (simp add: unsigned_or_eq unsigned_and_eq and.commute)
  then show ?thesis by (simp add: and_low_bits or_add)
qed

lemma unat_drop_bit: "unat (drop_bit n (w :: u32)) = unat w div 2 ^ n"
proof -
  have "unat w < 2 ^ 32" using unsigned_less [of w, where ?'a = nat] by simp
  then have "take_bit 32 (unat w) = unat w" by (rule take_bit_nat_eq_self)
  then have "unat (drop_bit n w) = drop_bit n (unat w)" by (subst unsigned_drop_bit_eq) simp
  then show ?thesis by (simp only: drop_bit_eq_div)
qed

text \<open>The bytes of a code point as numbers.\<close>

definition nat_bytes :: "nat \<Rightarrow> nat list" where
  "nat_bytes n =
     (if n < 0x80 then [n]
      else if n \<le> 0x7FF then [0xC0 + n div 64, 0x80 + n mod 64]
      else if n \<le> 0xFFFF then [0xE0 + n div 4096, 0x80 + n div 64 mod 64, 0x80 + n mod 64]
      else [0xF0 + n div 262144, 0x80 + n div 4096 mod 64, 0x80 + n div 64 mod 64, 0x80 + n mod 64])"

lemma utf8_bytes_nat:
  assumes "unat w \<le> 0x10FFFF"
  shows "map unat (utf8_bytes w) = nat_bytes (unat w)"
proof -
  let ?n = "unat w"
  have c: "w < 0x80 \<longleftrightarrow> ?n < 0x80" "w \<le> 0x7FF \<longleftrightarrow> ?n \<le> 0x7FF" "w \<le> 0xFFFF \<longleftrightarrow> ?n \<le> 0xFFFF"
    by (simp_all add: word_less_nat_alt word_le_nat_alt)
  have h2: "?n \<le> 0x7FF \<Longrightarrow> unat (0xC0 OR drop_bit 6 w) = 0xC0 + ?n div 64"
    unfolding unsigned_or_eq unat_drop_bit using or_add(1) [of "?n div 64"] by (simp add: less_mult_imp_div_less)
  have h3: "?n \<le> 0xFFFF \<Longrightarrow> unat (0xE0 OR drop_bit 12 w) = 0xE0 + ?n div 4096"
    unfolding unsigned_or_eq unat_drop_bit using or_add(3) [of "?n div 4096"] by (simp add: less_mult_imp_div_less)
  have h4: "unat (0xF0 OR drop_bit 18 w) = 0xF0 + ?n div 262144"
    unfolding unsigned_or_eq unat_drop_bit using or_add(4) [of "?n div 262144"] assms by (simp add: less_mult_imp_div_less)
  have d: "unat (drop_bit 6 w) = ?n div 64" "unat (drop_bit 12 w) = ?n div 4096"
    by (simp_all only: unat_drop_bit) simp_all
  show ?thesis
    using h2 h3 h4 by (simp add: utf8_bytes_def c nat_bytes_def unat_tail_byte d)
qed

lemma utf8_nat_bytes:
  assumes "scalar_value n"
  shows "utf8 (map char_of (nat_bytes n))"
proof -
  have tb: "0x80 + m mod 64 < 256" "0x80 + m mod 64 \<le> 0xBF" for m :: nat
  proof -
    have "m mod 64 < 64" by simp
    then show "0x80 + m mod 64 < 256" "0x80 + m mod 64 \<le> 0xBF" by linarith+
  qed
  have n: "n \<le> 0x10FFFF" using assms by (auto simp: scalar_value_def)
  consider "n < 0x80" | "0x80 \<le> n" "n \<le> 0x7FF" | "0x800 \<le> n" "n \<le> 0xFFFF" | "0x10000 \<le> n"
    by linarith
  then show ?thesis
  proof cases
    case 1
    then show ?thesis by (simp add: nat_bytes_def tail_ranges_def)
  next
    case 2
    then have "2 \<le> n div 64" "n div 64 \<le> 31" using div_le_mono [of 128 n 64] div_le_mono [of n "0x7FF" 64] by simp_all
    with 2 tb show ?thesis by (simp add: nat_bytes_def tail_ranges_def)
  next
    case 3
    let ?q = "n div 4096" and ?r = "n div 64 mod 64"
    have qr: "n div 64 = 64 * ?q + ?r" using mult_div_mod_eq [of 64 "n div 64"] by (simp add: div_mult2_eq [symmetric])
    have q: "?q < 16" by (rule less_mult_imp_div_less) (use 3 in simp)
    have r0: "?q = 0 \<Longrightarrow> 32 \<le> ?r" using 3 div_le_mono [of "0x800" n 64] qr by simp
    have r13: "?q = 13 \<Longrightarrow> ?r < 32"
      using assms div_le_mono [of n "0xD7FF" 64] div_le_mono [of "0xE000" n 4096] qr by (auto simp: scalar_value_def)
    have b: "nat_bytes n = [0xE0 + ?q, 0x80 + ?r, 0x80 + n mod 64]" using 3 by (simp add: nat_bytes_def)
    have "tail_ranges (int (0xE0 + ?q)) = Some (if ?q = 0 then [(0xA0, 0xBF), (0x80, 0xBF)]
        else if ?q = 13 then [(0x80, 0x9F), (0x80, 0xBF)] else [(0x80, 0xBF), (0x80, 0xBF)])"
      using q by (auto simp: tail_ranges_def)
    then show ?thesis unfolding b using q r0 r13 tb [of n] tb [of "n div 64"] by (auto split: if_splits)
  next
    case 4
    let ?q = "n div 262144" and ?r = "n div 4096 mod 64"
    have qr: "n div 4096 = 64 * ?q + ?r" using mult_div_mod_eq [of 64 "n div 4096"] by (simp add: div_mult2_eq [symmetric])
    have q: "?q \<le> 4" using div_le_mono [OF n, of 262144] by simp
    have r0: "?q = 0 \<Longrightarrow> 16 \<le> ?r" using 4 div_le_mono [of "0x10000" n 4096] qr by simp
    have r4: "?q = 4 \<Longrightarrow> ?r < 16" using div_le_mono [OF n, of 4096] qr by simp
    have b: "nat_bytes n = [0xF0 + ?q, 0x80 + ?r, 0x80 + n div 64 mod 64, 0x80 + n mod 64]" using 4 by (simp add: nat_bytes_def)
    have "tail_ranges (int (0xF0 + ?q)) = Some (if ?q = 0 then [(0x90, 0xBF), (0x80, 0xBF), (0x80, 0xBF)]
        else if ?q = 4 then [(0x80, 0x8F), (0x80, 0xBF), (0x80, 0xBF)] else [(0x80, 0xBF), (0x80, 0xBF), (0x80, 0xBF)])"
      using q by (auto simp: tail_ranges_def)
    then show ?thesis unfolding b using q r0 r4 tb [of n] tb [of "n div 64"] tb [of "n div 4096"] by (auto split: if_splits)
  qed
qed

lemma utf8_bytes_ok:
  assumes "scalar_value (unat w)"
  shows "utf8 (map (\<lambda>b. char_of (unat b)) (utf8_bytes w))"
proof -
  have "unat w \<le> 0x10FFFF" using assms by (auto simp: scalar_value_def)
  with utf8_nat_bytes [OF assms] have "utf8 (map char_of (map unat (utf8_bytes w)))"
    by (simp add: utf8_bytes_nat)
  then show ?thesis by (simp add: comp_def)
qed

lemma token_buffer_adds:
  "token_buffer (foldl (\<lambda>l b. lex_add (uint b) l) lx bs) = token_buffer lx @ map (\<lambda>b. char_of (unat b)) bs"
  by (induction bs arbitrary: lx) simp_all

lemma utf8_ascii: "0 \<le> c \<Longrightarrow> c \<le> 0x7F \<Longrightarrow> utf8 [char_of (nat c)]"
  by (simp add: tail_ranges_def)

lemma scan_escape_accepts:
  assumes "scan_escape lx = (True, lx')" and "utf8 (token_buffer lx)"
  shows "utf8 (token_buffer lx')"
proof (cases "current (lex_get lx) = 0x75")
  case True
  with assms(1) obtain w lx2 where w: "scan_unicode (lex_get lx) = (Some w, lx2)"
    "lx' = foldl (\<lambda>l b. lex_add (uint b) l) lx2 (utf8_bytes w)"
    by (auto simp: scan_escape_def Let_def split: option.splits prod.splits)
  with scan_unicode_scalar [OF w(1)] utf8_bytes_ok [of w] utf8_append [OF assms(2)] show ?thesis
    by (simp add: token_buffer_adds)
next
  case False
  with assms(1) obtain c where "lx' = lex_add c (lex_get lx)" "0 \<le> c" "c \<le> 0x7F"
    by (auto simp: scan_escape_def Let_def split: if_splits)
  then show ?thesis using utf8_append [OF assms(2) utf8_ascii [of c]] by simp
qed

text \<open>The switch of \<open>scan_string\<close> by the ranges of UTF-8.\<close>

lemma string_step_alt:
  "scan_string_step lx =
     (let l = lex_get lx; c = current l in
      if c = -1 then (Some ParseError, l)
      else if c = 0x22 then (Some ValueString, l)
      else if c = 0x5C then continue_if (scan_escape l)
      else if 0x00 \<le> c \<and> c \<le> 0x1F then (Some ParseError, l)
      else if 0x20 \<le> c \<and> c \<le> 0x7F then (None, lex_add c l)
      else
        (case tail_ranges c of
           None \<Rightarrow> (Some ParseError, l)
         | Some rs \<Rightarrow> continue_if (next_byte_in_range rs l)))"
proof -
  define c where "c = current (lex_get lx)"
  consider "c < 0" | "0 \<le> c" "c \<le> 0x7F" | "0x7F < c" "c < 0xC2" | "0xC2 \<le> c" "c \<le> 0xDF" | "c = 0xE0"
    | "0xE1 \<le> c" "c \<le> 0xEC" | "c = 0xED" | "c = 0xEE" | "c = 0xEF" | "c = 0xF0" | "0xF1 \<le> c" "c \<le> 0xF3"
    | "c = 0xF4" | "0xF4 < c" by linarith
  then show ?thesis
    unfolding scan_string_step_def Let_def c_def [symmetric] tail_ranges_def
    by cases simp_all
qed

lemma continue_None: "continue_if r = (None, lx') \<longleftrightarrow> r = (True, lx')"
  by (cases r) (simp add: continue_if_def)

lemma string_step_accepts:
  assumes "scan_string_step lx = (None, lx')" and "utf8 (token_buffer lx)"
  shows "utf8 (token_buffer lx')"
proof -
  let ?l = "lex_get lx"
  have tb: "utf8 (token_buffer ?l)" using assms(2) by simp
  consider "scan_escape ?l = (True, lx')"
    | "0x20 \<le> current ?l" "current ?l \<le> 0x7F" "lx' = lex_add (current ?l) ?l"
    | rs where "tail_ranges (current ?l) = Some rs" "next_byte_in_range rs ?l = (True, lx')"
    using assms(1) unfolding string_step_alt Let_def
    by (auto simp: continue_None split: if_splits option.splits)
  then show ?thesis
  proof cases
    case 1
    then show ?thesis using scan_escape_accepts tb by blast
  next
    case 2
    then show ?thesis using utf8_append [OF tb utf8_ascii [of "current ?l"]] by simp
  next
    case 3
    then show ?thesis using next_byte_accepts tb by blast
  qed
qed

lemma string_step_end:
  "scan_string_step lx = (Some ValueString, lx') \<Longrightarrow> token_buffer lx' = token_buffer lx"
  unfolding string_step_alt Let_def
  by (auto simp: continue_if_def split: if_splits option.splits)

lemma string_loop_accepts:
  "scan_string_loop lx = (ValueString, lx') \<Longrightarrow> utf8 (token_buffer lx) \<Longrightarrow> utf8 (token_buffer lx')"
proof (induction lx rule: scan_string_loop.induct)
  case (1 lx)
  obtain r lx1 where s: "scan_string_step lx = (r, lx1)" by fastforce
  show ?case
  proof (cases r)
    case None
    with 1 s string_step_accepts [of lx lx1] show ?thesis by (simp add: scan_string_loop.simps [of lx])
  next
    case (Some t)
    with 1(2) s have "t = ValueString" "lx' = lx1" by (simp_all add: scan_string_loop.simps [of lx])
    with Some s string_step_end [of lx lx'] 1(3) show ?thesis by simp
  qed
qed

lemma scan_string_accepts: "scan_string lx = (ValueString, lx') \<Longrightarrow> utf8 (token_buffer lx')"
  using string_loop_accepts [of "lex_reset lx" lx'] by (simp add: scan_string_def lex_reset_def)

lemma scan_number_token: "fst (scan_number_at s ty lx) \<noteq> ValueString"
proof (induction s ty lx rule: scan_number_at.induct)
  case (1 s ty lx)
  show ?case
  proof (cases "number_switch s (current (lex_get lx))")
    case (Goto s')
    with 1 [OF refl refl Goto] show ?thesis by (simp add: scan_number_at.simps [of s ty lx] Let_def)
  qed (auto simp: scan_number_at.simps [of s ty lx] Let_def scan_number_done_def split: option.splits)
qed

lemma scan_literal_token: "scan_literal s t lx = (ValueString, lx') \<Longrightarrow> t = ValueString"
  by (auto simp: scan_literal_def split: prod.splits if_splits)

lemma scan_rest_token:
  assumes "scan_rest lx = (ValueString, lx')"
  shows "utf8 (token_buffer lx')"
proof -
  have num: "scan_number l \<noteq> (ValueString, lx')" for l
    using scan_number_token by (metis fst_conv scan_number_def)
  have "scan_string (skip_whitespace lx) = (ValueString, lx')"
    using assms unfolding scan_rest_def Let_def
    by (simp add: num split: if_splits) (auto dest: scan_literal_token)
  then show ?thesis by (rule scan_string_accepts)
qed

lemma scan_string_token:
  assumes "scan lx = (ValueString, lx')"
  shows "utf8 (token_buffer lx')"
proof -
  obtain ok lx1 where "(if chars_read_total lx = 0 then skip_bom lx else (True, lx)) = (ok, lx1)" by fastforce
  then have "scan lx = (if ok then scan_rest lx1 else (ParseError, lx1))"
    by (simp add: scan_def scan_rest_def Let_def)
  then show ?thesis using assms scan_rest_token by (auto split: if_splits)
qed

section \<open>Values that the parser returns\<close>

fun container_ok :: "container \<Rightarrow> bool" where
  "container_ok (OpenArray xs) = json_ok (JArray xs)"
| "container_ok (OpenObject m k) = (json_ok (JObject m) \<and> utf8 k)"

definition sax_ok :: "sax \<Rightarrow> bool" where
  "sax_ok s = (json_ok (root s) \<and> (\<forall>f\<in>set (ref_stack s). container_ok f))"

lemma obj_set_ok: "(\<forall>(k, v)\<in>set m. P k v) \<Longrightarrow> P k v \<Longrightarrow> \<forall>(k, v)\<in>set (obj_set k v m). P k v"
  by (induction k v m rule: obj_set.induct) auto

lemma obj_ok_set: "json_ok (JObject m) \<Longrightarrow> utf8 k \<Longrightarrow> json_ok v \<Longrightarrow> json_ok (JObject (obj_set k v m))"
  using obj_set_ok [of m "\<lambda>k v. utf8 k \<and> json_ok v" k v] by simp

lemma handle_value_ok: "sax_ok s \<Longrightarrow> json_ok v \<Longrightarrow> sax_ok (handle_value v s)"
proof (cases "ref_stack s")
  case (Cons f fs)
  assume "sax_ok s" "json_ok v"
  with Cons show ?thesis
    by (cases f) (auto simp: handle_value_def sax_ok_def simp del: json_ok.simps(1) intro!: obj_ok_set)
qed (simp add: handle_value_def sax_ok_def)

lemma sax_ops_ok:
  "sax_ok s \<Longrightarrow> sax_ok (start_object s)" "sax_ok s \<Longrightarrow> sax_ok (start_array s)"
  "sax_ok s \<Longrightarrow> utf8 k \<Longrightarrow> sax_ok (sax_key k s)" "sax_ok s \<Longrightarrow> sax_ok (sax_end s)"
proof -
  show "sax_ok s \<Longrightarrow> sax_ok (start_object s)" "sax_ok s \<Longrightarrow> sax_ok (start_array s)"
    by (simp_all add: start_object_def start_array_def sax_ok_def)
  show "sax_ok s \<Longrightarrow> utf8 k \<Longrightarrow> sax_ok (sax_key k s)"
    by (auto simp: sax_key_def sax_ok_def simp del: json_ok.simps(1) split: list.split container.split intro!: obj_ok_set)
  assume s: "sax_ok s"
  show "sax_ok (sax_end s)"
  proof (cases "ref_stack s")
    case (Cons f fs)
    then have "json_ok (close_container f)" "sax_ok (s\<lparr>ref_stack := fs\<rparr>)"
      using s by (cases f; auto simp: sax_ok_def simp del: json_ok.simps(1))+
    then show ?thesis using Cons handle_value_ok by (simp add: sax_end_def)
  qed (use s in \<open>simp add: sax_end_def\<close>)
qed

text \<open>The invariant of the loop: a string token comes with a UTF-8 buffer.\<close>

definition token_ok :: "token_type \<Rightarrow> lexer \<Rightarrow> bool" where
  "token_ok t lx = (t = ValueString \<longrightarrow> utf8 (token_buffer lx))"

lemma scan_token_ok: "scan lx = (t, lx') \<Longrightarrow> token_ok t lx'"
  using scan_string_token by (auto simp: token_ok_def)

lemma parse_key_ok: "parse_key t lx s = Some (lx', s') \<Longrightarrow> token_ok t lx \<Longrightarrow> sax_ok s \<Longrightarrow> sax_ok s'"
  using sax_ops_ok(3) by (auto simp: parse_key_def token_ok_def Let_def split: if_splits prod.splits)

lemma parse_value_go_ok:
  assumes "parse_value (t, lx, s, st) = Some (Inl (t', lx', s', st'))" and "sax_ok s"
  shows "token_ok t' lx' \<and> sax_ok s'"
proof -
  consider
    lx1 t1 lx2 where "t = BeginObject" "scan lx = (t1, lx1)"
      "parse_key t1 lx1 (start_object s) = Some (lx2, s')" "scan lx2 = (t', lx')"
  | "t = BeginArray" "scan lx = (t', lx')" "s' = start_array s"
    using assms(1) by (cases t) (auto simp: parse_value_def Let_def split: if_splits prod.splits option.splits)
  then show ?thesis
  proof cases
    case 1
    then show ?thesis
      using scan_token_ok [OF 1(4)] parse_key_ok [OF 1(3) scan_token_ok [OF 1(2)] sax_ops_ok(1) [OF assms(2)]] by simp
  next
    case 2
    then show ?thesis using scan_token_ok [OF 2(2)] sax_ops_ok(2) [OF assms(2)] by simp
  qed
qed

lemma parse_value_done_ok:
  assumes "parse_value (t, lx, s, st) = Some (Inr (lx', s'))" and "token_ok t lx" and "sax_ok s"
  shows "sax_ok s'"
proof -
  have "(\<exists>v. json_ok v \<and> s' = handle_value v s) \<or> s' = sax_end (start_object s) \<or> s' = sax_end (start_array s)"
    using assms(1,2)
    by (cases t) (auto simp: parse_value_def Let_def token_ok_def split: if_splits prod.splits option.splits
        intro: exI [of _ "JFloat _"] exI [of _ "JBool _"] exI [of _ JNull] exI [of _ "JInt _"] exI [of _ "JUInt _"] exI [of _ "JString _"])
  then show ?thesis using assms(3) handle_value_ok sax_ops_ok by metis
qed

lemma parse_next_ok:
  assumes "parse_next lx s st = Some r" and "sax_ok s"
  shows "case r of Inl (skip, t, lx', s', st') \<Rightarrow> (skip \<or> token_ok t lx') \<and> sax_ok s' | Inr (lx', s') \<Rightarrow> sax_ok s'"
proof -
  consider
    "r = Inr (lx, s)"
  | lx1 t2 lx2 b rest where "scan lx1 = (t2, lx2)" "r = Inl (False, t2, lx2, s, b # rest)"
  | lx1 t2 lx2 lx3 s3 t4 lx4 rest where "scan lx1 = (t2, lx2)"
      "parse_key t2 lx2 s = Some (lx3, s3)" "scan lx3 = (t4, lx4)" "r = Inl (False, t4, lx4, s3, rest)"
  | t lx1 rest where "r = Inl (True, t, lx1, sax_end s, rest)"
    using assms(1)
    by (auto simp: parse_next_def Let_def split: if_splits prod.splits option.splits list.splits bool.splits)
  then show ?thesis
  proof cases
    case 3
    then show ?thesis using scan_token_ok [OF 3(3)] parse_key_ok [OF 3(2) scan_token_ok [OF 3(1)] assms(2)] by simp
  qed (use assms(2) sax_ops_ok(4) scan_token_ok in auto)
qed

lemma parse_loop_ok:
  assumes "sax_parse_internal skip (t, lx, s, st) = Some (lx', s')" and "skip \<or> token_ok t lx" and "sax_ok s"
  shows "sax_ok s'"
  using assms
proof (induction skip "(t, lx, s, st)" arbitrary: t lx s st rule: sax_parse_internal.induct)
  case (1 skip t lx s st)
  let ?r = "parse_round skip (t, lx, s, st)"
  have after: "case r of Inl (skip, t, lx', s', st') \<Rightarrow> (skip \<or> token_ok t lx') \<and> sax_ok s' | Inr (lx', s') \<Rightarrow> sax_ok s'"
    if "?r = Some r" for r
  proof (cases "\<not> skip \<and> (\<exists>p'. parse_value (t, lx, s, st) = Some (Inl p'))")
    case True
    then obtain t1 lx1 s1 st1 where p: "parse_value (t, lx, s, st) = Some (Inl (t1, lx1, s1, st1))" "\<not> skip" by auto
    with that have "r = Inl (False, t1, lx1, s1, st1)" by (simp add: parse_round_def)
    with parse_value_go_ok [OF p(1) 1(4)] show ?thesis by simp
  next
    case False
    with that obtain lx1 s1 where "parse_next lx1 s1 st = Some r" "sax_ok s1"
      using 1(3,4) parse_value_done_ok [of t lx s st]
      by (auto simp: parse_round_def split: if_splits option.splits sum.splits prod.splits)
    then show ?thesis using parse_next_ok by blast
  qed
  from 1(2) obtain r where r: "?r = Some r" by (auto simp: sax_parse_internal.simps [of skip] split: option.splits)
  show ?case
  proof (cases r)
    case (Inl p)
    then obtain sk t1 lx1 s1 st1 where p: "r = Inl (sk, t1, lx1, s1, st1)" by (cases p) auto
    with after [OF r] have "sk \<or> token_ok t1 lx1" "sax_ok s1" by auto
    moreover have "sax_parse_internal sk (t1, lx1, s1, st1) = Some (lx', s')"
      using 1(2) r p by (simp add: sax_parse_internal.simps [of skip])
    ultimately show ?thesis using 1(1) [OF r p refl] by blast
  next
    case (Inr q)
    with 1(2) r after [OF r] show ?thesis by (simp add: sax_parse_internal.simps [of skip])
  qed
qed

lemma json_parse_ok: "json_parse s = Some j \<Longrightarrow> json_ok j"
proof -
  assume "json_parse s = Some j"
  then obtain t lx lx' sx where p: "scan (lexer_init s) = (t, lx)"
    "sax_parse_internal False (t, lx, sax_init, []) = Some (lx', sx)" "root sx = j"
    by (auto simp: json_parse_def split: prod.splits option.splits if_splits)
  have "sax_ok sax_init" by (simp add: sax_ok_def sax_init_def)
  from parse_loop_ok [OF p(2) _ this] scan_token_ok [OF p(1)] p(3) show ?thesis by (simp add: sax_ok_def)
qed

section \<open>Properties\<close>

text \<open>
  C24. JSON round trip: a well-formed value without floating point numbers is serialized, and
  the parser reads the text back as the same value, with the non-negative integers in
  their unsigned form. The parser always returns, on every input.
\<close>

theorem json_roundtrip:
  assumes "json_ok j" and "no_float j"
  shows "\<exists>out. dump to_chars j = Some out \<and> json_parse out = Some (json_norm j)"
  using assms by (rule json_roundtrip_text)

theorem json_roundtrip_witness:
  "\<exists>out. dump (\<lambda>d. []) (JObject [(''content'', JString [CHR 0xC3, CHR 0xA9, CHR 0x0A]), (''id'', JInt (- 7)), (''ok'', JArray [JBool True, JNull])]) = Some out \<and>
     json_parse out = Some (JObject [(''content'', JString [CHR 0xC3, CHR 0xA9, CHR 0x0A]), (''id'', JInt (- 7)), (''ok'', JArray [JBool True, JNull])])"
  using json_roundtrip [of "JObject [(''content'', JString [CHR 0xC3, CHR 0xA9, CHR 0x0A]), (''id'', JInt (- 7)), (''ok'', JArray [JBool True, JNull])]" "\<lambda>d. []"]
  by (simp add: obj_sorted_def tail_ranges_def)

text \<open>
  C25. What the parser accepts can be echoed: every value \<open>parse\<close> returns is well formed, so
  \<open>dump\<close> of it, or of any string or key in it, does not throw.
\<close>

theorem json_parse_dumpable:
  assumes "json_parse s = Some j"
  shows "json_ok j \<and> dump to_chars j \<noteq> None"
  using json_parse_ok [OF assms] dump_total [of j to_chars] by auto

theorem json_parse_dumpable_witness:
  "\<exists>s. json_parse s = Some (JArray [JUInt 1, JBool True]) \<and>
     json_ok (JArray [JUInt 1, JBool True]) \<and> dump (\<lambda>d. []) (JArray [JUInt 1, JBool True]) \<noteq> None"
proof -
  obtain s where s: "json_parse s = Some (JArray [JUInt 1, JBool True])"
    using json_roundtrip_text [of "JArray [JUInt 1, JBool True]" "\<lambda>d. []"] by auto
  from json_parse_dumpable [OF this] s show ?thesis by blast
qed

end
