(* ===== verification/Messages.thy ===== *)
theory Messages
  imports Json_Wf
begin

text \<open>
  The protocol layer: \<open>src/include/protocol/messages.h\<close> and \<open>src/src/protocol/messages.cpp\<close>.
  The builders of replies and events, \<open>parse\<close> and \<open>serialize\<close>, and the accessors with
  defaults that the handlers read their requests with. The lemmas show that everything
  the builders make of UTF-8 strings can be serialized, and that a client that parses the
  text reads back the fields it was built from.
\<close>

section \<open>The code\<close>

text \<open>Namespace \<open>types\<close>.\<close>

abbreviation (input) kRegister :: string where "kRegister \<equiv> ''register''"
abbreviation (input) kLogin :: string where "kLogin \<equiv> ''login''"
abbreviation (input) kLogout :: string where "kLogout \<equiv> ''logout''"
abbreviation (input) kSendDM :: string where "kSendDM \<equiv> ''send_dm''"
abbreviation (input) kSendRoom :: string where "kSendRoom \<equiv> ''send_room''"
abbreviation (input) kCreateRoom :: string where "kCreateRoom \<equiv> ''create_room''"
abbreviation (input) kJoinRoom :: string where "kJoinRoom \<equiv> ''join_room''"
abbreviation (input) kLeaveRoom :: string where "kLeaveRoom \<equiv> ''leave_room''"
abbreviation (input) kListRooms :: string where "kListRooms \<equiv> ''list_rooms''"
abbreviation (input) kHistoryDM :: string where "kHistoryDM \<equiv> ''history_dm''"
abbreviation (input) kHistoryRoom :: string where "kHistoryRoom \<equiv> ''history_room''"
abbreviation (input) kPresence :: string where "kPresence \<equiv> ''presence''"
abbreviation (input) kPing :: string where "kPing \<equiv> ''ping''"
abbreviation (input) kEventMessage :: string where "kEventMessage \<equiv> ''event_message''"
abbreviation (input) kEventPresence :: string where "kEventPresence \<equiv> ''event_presence''"
abbreviation (input) kAck :: string where "kAck \<equiv> ''ack''"
abbreviation (input) kError :: string where "kError \<equiv> ''error''"
abbreviation (input) kPong :: string where "kPong \<equiv> ''pong''"

text \<open>Namespace \<open>errcode\<close>, without \<open>kRateLimited\<close>, which nothing uses.\<close>

abbreviation (input) kBadRequest :: string where "kBadRequest \<equiv> ''bad_request''"
abbreviation (input) kUnauthorized :: string where "kUnauthorized \<equiv> ''unauthorized''"
abbreviation (input) kNotFound :: string where "kNotFound \<equiv> ''not_found''"
abbreviation (input) kConflict :: string where "kConflict \<equiv> ''conflict''"
abbreviation (input) kInternal :: string where "kInternal \<equiv> ''internal_error''"

text \<open>
  \<open>j[k] = v\<close> on an object, and on the null value that \<open>json j;\<close> declares, which the first
  store turns into an object. Every call of the builders has such a \<open>j\<close>; the type error
  that \<open>operator[]\<close> throws on other values is \<^const>\<open>None\<close>.
\<close>

fun json_set :: "string \<Rightarrow> json \<Rightarrow> json \<Rightarrow> json option" where
  "json_set k v JNull = Some (JObject [(k, v)])"
| "json_set k v (JObject m) = Some (JObject (obj_set k v m))"
| "json_set k v _ = None"

text \<open>A run of such stores, \<open>j[k1] = v1; j[k2] = v2; ...\<close>, in the order of the statements.\<close>

fun json_sets :: "json \<Rightarrow> (string \<times> json) list \<Rightarrow> json option" where
  "json_sets j [] = Some j"
| "json_sets j ((k, v) # kvs) = (case json_set k v j of None \<Rightarrow> None | Some j' \<Rightarrow> json_sets j' kvs)"

text \<open>The same on a value just declared: it is an object from the first store on.\<close>

definition json_build :: "(string \<times> json) list \<Rightarrow> json" where
  "json_build kvs = (if kvs = [] then JNull else JObject (fold (\<lambda>(k, v). obj_set k v) kvs []))"

text \<open>\<open>if (x) j[k] = *x\<close>.\<close>

definition opt_field :: "string \<Rightarrow> i64 option \<Rightarrow> (string \<times> json) list" where
  "opt_field k x = (case x of None \<Rightarrow> [] | Some v \<Rightarrow> [(k, JInt v)])"

definition make_ack :: "i64 option \<Rightarrow> json \<Rightarrow> json option" where
  "make_ack req_id data = json_sets data ((''type'', JString kAck) # opt_field ''id'' req_id)"

definition make_error :: "i64 option \<Rightarrow> string \<Rightarrow> string \<Rightarrow> json" where
  "make_error req_id ecode message =
     json_build ([(''type'', JString kError), (''code'', JString ecode), (''message'', JString message)]
       @ opt_field ''id'' req_id)"

definition make_event_message ::
  "i64 \<Rightarrow> i64 \<Rightarrow> i64 option \<Rightarrow> i64 option \<Rightarrow> string \<Rightarrow> i64 \<Rightarrow> json" where
  "make_event_message msg_id sender_id receiver_id room_id content created_at_ms =
     json_build ([(''type'', JString kEventMessage), (''msg_id'', JInt msg_id), (''sender_id'', JInt sender_id)]
       @ opt_field ''receiver_id'' receiver_id
       @ opt_field ''room_id'' room_id
       @ [(''content'', JString content), (''timestamp'', JInt created_at_ms)])"

definition make_event_presence :: "i64 \<Rightarrow> string \<Rightarrow> bool \<Rightarrow> i64 \<Rightarrow> json" where
  "make_event_presence user_id username online last_seen_ms =
     json_build [(''type'', JString kEventPresence), (''user_id'', JInt user_id),
       (''username'', JString username), (''online'', JBool online), (''last_seen'', JInt last_seen_ms)]"

definition parse :: "string \<Rightarrow> json option" where
  "parse s = json_parse s"

text \<open>\<open>to_chars\<close> prints floating point numbers; \<^const>\<open>None\<close> is the exception of \<open>dump\<close>.\<close>

definition serialize :: "(double \<Rightarrow> string) \<Rightarrow> json \<Rightarrow> string option" where
  "serialize to_chars j = dump to_chars j"

definition get_str :: "json \<Rightarrow> string \<Rightarrow> string \<Rightarrow> string" where
  "get_str j k def = (case json_find j k of Some (JString s) \<Rightarrow> s | _ \<Rightarrow> def)"

text \<open>
  \<open>is_number_integer ()\<close> holds of signed and of unsigned integers, and
  \<open>get<std::int64_t> ()\<close> is a \<open>static_cast\<close> of either; \<open>ub\<close> is the result of casting
  a floating point number outside the range of \<open>std::int64_t\<close>, which C++ leaves undefined.
\<close>

definition get_i64 :: "(double \<Rightarrow> i64) \<Rightarrow> json \<Rightarrow> string \<Rightarrow> i64 \<Rightarrow> i64" where
  "get_i64 ub j k def =
     (case json_find j k of
        None \<Rightarrow> def
      | Some (JInt v) \<Rightarrow> v
      | Some (JUInt v) \<Rightarrow> v
      | Some (JFloat d) \<Rightarrow> from_double ub d
      | Some (JString s) \<Rightarrow> (case stoll s of Some v \<Rightarrow> v | None \<Rightarrow> def)
      | Some _ \<Rightarrow> def)"

section \<open>Objects built by stores\<close>

lemma map_of_fold_set:
  "map_of (fold (\<lambda>(k, v). obj_set k v) kvs m) k = (case map_of (rev kvs) k of Some v \<Rightarrow> Some v | None \<Rightarrow> map_of m k)"
proof (induction kvs arbitrary: m)
  case (Cons kv kvs)
  then show ?case by (cases kv) (auto simp: map_add_def split: option.splits)
qed simp

lemma find_build [simp]: "kvs \<noteq> [] \<Longrightarrow> json_find (json_build kvs) k = map_of (rev kvs) k"
  by (simp add: json_build_def map_of_fold_set split: option.split)

lemma snd_obj_set: "snd ` set (obj_set k v m) \<subseteq> insert v (snd ` set m)"
  by (induction k v m rule: obj_set.induct) auto

lemma snd_fold_set: "snd ` set (fold (\<lambda>(k, v). obj_set k v) kvs m) \<subseteq> snd ` set kvs \<union> snd ` set m"
proof (induction kvs arbitrary: m)
  case (Cons kv kvs)
  obtain k v where kv: "kv = (k, v)" by fastforce
  from Cons [of "obj_set k v m"] snd_obj_set [of k v m] show ?case by (auto simp: kv)
qed simp

lemma fst_fold_set: "fst ` set (fold (\<lambda>(k, v). obj_set k v) kvs m) = fst ` set kvs \<union> fst ` set m"
  by (induction kvs arbitrary: m) (simp_all add: split_beta Un_ac)

lemma sorted_fold_set: "obj_sorted m \<Longrightarrow> obj_sorted (fold (\<lambda>(k, v). obj_set k v) kvs m)"
  by (induction kvs arbitrary: m) auto

text \<open>A value that \<open>dump\<close> accepts and whose text does not depend on \<open>to_chars\<close>.\<close>

definition printable :: "json \<Rightarrow> bool" where
  "printable j = (json_ok j \<and> no_float j)"

lemma printable_leaf [simp]:
  "printable JNull" "printable (JBool b)" "printable (JInt i)" "printable (JUInt u)"
  "printable (JString s) = utf8 s" "\<not> printable (JFloat d)"
  by (simp_all add: printable_def)

lemma printable_array [simp]: "printable (JArray xs) \<longleftrightarrow> (\<forall>x\<in>set xs. printable x)"
  by (auto simp: printable_def)

lemma printable_object:
  "printable (JObject m) \<longleftrightarrow> obj_sorted m \<and> (\<forall>k\<in>fst ` set m. utf8 k) \<and> (\<forall>v\<in>snd ` set m. printable v)"
  by (auto simp: printable_def)

lemma printable_build:
  assumes "\<forall>k\<in>fst ` set kvs. utf8 k" and "\<forall>v\<in>snd ` set kvs. printable v"
  shows "printable (json_build kvs)"
proof -
  let ?m = "fold (\<lambda>(k, v). obj_set k v) kvs []"
  have "\<forall>k\<in>fst ` set ?m. utf8 k" using assms(1) fst_fold_set [of kvs "[]"] by simp
  moreover have "\<forall>v\<in>snd ` set ?m. printable v"
    using assms(2) snd_fold_set [of kvs "[]"] by (metis (no_types, lifting) Un_empty_right image_empty list.set(1) subsetD)
  ultimately have "printable (JObject ?m)" unfolding printable_object by (intro conjI sorted_fold_set) simp_all
  then show ?thesis by (simp add: json_build_def)
qed

lemma json_sets_object:
  "json_sets (JObject m) kvs = Some (JObject (fold (\<lambda>(k, v). obj_set k v) kvs m))"
  by (induction kvs arbitrary: m) (auto split: prod.splits)

lemma json_sets_build: "kvs \<noteq> [] \<Longrightarrow> json_sets (json_build kvs) kvs' = Some (json_build (kvs @ kvs'))"
  by (simp add: json_build_def json_sets_object)

lemma serialize_printable: "printable j \<Longrightarrow> \<exists>out. serialize to_chars j = Some out \<and> parse out = Some (json_norm j)"
  using json_roundtrip_text [of j to_chars] by (simp add: printable_def serialize_def parse_def)

lemma find_norm: "json_find (json_norm j) k = map_option json_norm (json_find j k)"
  by (cases j) (auto simp: map_of_map)

lemma get_str_norm [simp]: "get_str (json_norm j) k d = get_str j k d"
  unfolding get_str_def find_norm by (cases "json_find j k") (auto split: json.splits)

lemma get_i64_norm [simp]: "get_i64 ub (json_norm j) k d = get_i64 ub j k d"
  unfolding get_i64_def find_norm by (cases "json_find j k") (auto split: json.splits)

lemma utf8_ascii_string: "\<forall>c\<in>set s. (of_char c :: nat) < 128 \<Longrightarrow> utf8 s"
proof (induction s)
  case (Cons c s)
  then have "tail_ranges (code c) = Some []" by (simp add: tail_ranges_def)
  with Cons show ?case by simp
qed simp

lemma utf8_append_string [simp]: "utf8 s \<Longrightarrow> utf8 t \<Longrightarrow> utf8 (s @ t)"
  by (rule utf8_append)

lemma opt_field_simps [simp]:
  "opt_field k None = []" "opt_field k (Some v) = [(k, JInt v)]"
  by (simp_all add: opt_field_def)

lemma fst_opt_field: "fst ` set (opt_field k x) \<subseteq> {k}"
  by (cases x) auto

lemma map_of_opt_field: "map_of (rev (opt_field k x)) k' = (if k' = k then map_option JInt x else None)"
  by (cases x) auto

text \<open>What a request yields: the strings of a parsed value are UTF-8.\<close>

lemma json_ok_find: "json_ok j \<Longrightarrow> json_find j k = Some v \<Longrightarrow> json_ok v"
  by (cases j) (auto dest: map_of_SomeD)

lemma get_str_utf8: "json_ok j \<Longrightarrow> utf8 d \<Longrightarrow> utf8 (get_str j k d)"
  using json_ok_find [of j k] by (auto simp: get_str_def split: option.split json.split)

lemma parse_ok: "parse s = Some j \<Longrightarrow> json_ok j"
  by (simp add: parse_def json_parse_ok)

text \<open>The builders only make printable values of UTF-8 strings.\<close>

lemma printable_error: "utf8 ecode \<Longrightarrow> utf8 msg \<Longrightarrow> printable (make_error req_id ecode msg)"
  unfolding make_error_def
  by (rule printable_build) (auto simp: opt_field_def tail_ranges_def split: option.splits)

lemma printable_event:
  "utf8 content \<Longrightarrow> printable (make_event_message m s r rm content ts)"
  unfolding make_event_message_def
  by (rule printable_build) (auto simp: opt_field_def tail_ranges_def split: option.splits)

lemma printable_ack:
  assumes "\<forall>k\<in>fst ` set kvs. utf8 k" and "\<forall>v\<in>snd ` set kvs. printable v" and "kvs \<noteq> []"
  shows "\<exists>j. make_ack req_id (json_build kvs) = Some j \<and> printable j"
proof -
  have "make_ack req_id (json_build kvs) = Some (json_build (kvs @ (''type'', JString kAck) # opt_field ''id'' req_id))"
    unfolding make_ack_def by (rule json_sets_build [OF assms(3)])
  moreover have "printable (json_build (kvs @ (''type'', JString kAck) # opt_field ''id'' req_id))"
    using assms by (intro printable_build) (auto simp: opt_field_def tail_ranges_def split: option.splits)
  ultimately show ?thesis by blast
qed

section \<open>Properties\<close>

text \<open>
  C23. What a client reads of a message event: the text of \<open>make_event_message\<close> parses, and the
  accessors return the fields the event was built from, with the receiver or the room
  present exactly when it was given.
\<close>

theorem event_message_roundtrip:
  assumes "utf8 content"
  shows "\<exists>out j. serialize to_chars (make_event_message m s r rm content ts) = Some out \<and> parse out = Some j \<and>
    get_str j ''type'' [] = ''event_message'' \<and> get_str j ''content'' [] = content \<and>
    get_i64 ub j ''msg_id'' 0 = m \<and> get_i64 ub j ''sender_id'' 0 = s \<and> get_i64 ub j ''timestamp'' 0 = ts \<and>
    get_i64 ub j ''receiver_id'' d = (case r of Some x \<Rightarrow> x | None \<Rightarrow> d) \<and>
    get_i64 ub j ''room_id'' d = (case rm of Some x \<Rightarrow> x | None \<Rightarrow> d)"
proof -
  let ?e = "make_event_message m s r rm content ts"
  have find: "json_find ?e k =
      map_of (rev ([(''type'', JString ''event_message''), (''msg_id'', JInt m), (''sender_id'', JInt s)]
       @ opt_field ''receiver_id'' r @ opt_field ''room_id'' rm
       @ [(''content'', JString content), (''timestamp'', JInt ts)])) k" for k
    unfolding make_event_message_def by (rule find_build) simp
  obtain out where "serialize to_chars ?e = Some out" "parse out = Some (json_norm ?e)"
    using serialize_printable [OF printable_event [OF assms]] by blast
  moreover have "get_str ?e ''type'' [] = ''event_message''" "get_str ?e ''content'' [] = content"
    "get_i64 ub ?e ''msg_id'' 0 = m" "get_i64 ub ?e ''sender_id'' 0 = s" "get_i64 ub ?e ''timestamp'' 0 = ts"
    "get_i64 ub ?e ''receiver_id'' d = (case r of Some x \<Rightarrow> x | None \<Rightarrow> d)"
    "get_i64 ub ?e ''room_id'' d = (case rm of Some x \<Rightarrow> x | None \<Rightarrow> d)"
    unfolding get_str_def get_i64_def find
    by (simp_all add: map_of_opt_field map_add_def split: option.split)
  ultimately show ?thesis
    by (intro exI [of _ out] exI [of _ "json_norm ?e"]) simp
qed

theorem event_message_roundtrip_witness:
  "\<exists>out j. serialize (\<lambda>d. []) (make_event_message 7 1 (Some 2) None ''hi'' 99) = Some out \<and> parse out = Some j \<and>
    get_str j ''type'' [] = ''event_message'' \<and> get_str j ''content'' [] = ''hi'' \<and>
    get_i64 (\<lambda>d. 0) j ''msg_id'' 0 = 7 \<and> get_i64 (\<lambda>d. 0) j ''sender_id'' 0 = 1 \<and> get_i64 (\<lambda>d. 0) j ''timestamp'' 0 = 99 \<and>
    get_i64 (\<lambda>d. 0) j ''receiver_id'' 0 = 2 \<and> get_i64 (\<lambda>d. 0) j ''room_id'' 0 = 0"
  using event_message_roundtrip [of "''hi''" "\<lambda>d. []" 7 1 "Some 2" None 99 "\<lambda>d. 0" 0] by (simp add: tail_ranges_def)

end
