(* ===== verification/Repositories.thy ===== *)
theory Repositories
  imports Chat_Prelude
begin

text \<open>
  The store: \<open>src/include/db/repositories.h\<close> and the in-memory half of
  \<open>src/src/db/repositories.cpp\<close> (the \<open>CHAT_NO_MYSQL\<close> build). One record with the members
  of the class, one function per operation; each takes \<open>mu_\<close> for its whole body, so a call
  is one step. The maps are association lists and the sets lists without repetition.
  The reading of \<open>util::now_unix_ms ()\<close> is an argument. \<open>at ()\<close> throws where a key is
  missing; the result type has that exception.

  The lemmas give the invariant of the store, that every operation keeps it as long as
  the identifiers do not wrap around at \<open>2 ^ 64\<close>, and what the loops of the history
  and of the offline queue compute.
\<close>

section \<open>The code\<close>

text \<open>The exceptions a request can end with.\<close>

datatype exn = OutOfRange | TypeError

record User =
  u_id :: user_id
  u_username :: string
  u_password_hash :: string
  u_created_at_ms :: i64
  u_last_seen_ms :: i64

record SessionRow =
  sr_token :: string
  sr_user_id :: user_id
  sr_last_active_ms :: i64

record Room =
  r_id :: room_id
  r_name :: string
  r_created_at_ms :: i64

record Message =
  m_id :: msg_id
  m_sender_id :: user_id
  m_receiver_id :: "user_id option"
  m_room_id :: "room_id option"
  m_content :: string
  m_status :: u8
  m_created_at_ms :: i64

record Repositories =
  next_user_id :: user_id
  next_room_id :: room_id
  next_msg_id :: msg_id
  users :: "(user_id \<times> User) list"
  username_idx :: "(string \<times> user_id) list"
  sessions :: "SessionRow list"
  rooms :: "(room_id \<times> Room) list"
  room_name_idx :: "(string \<times> room_id) list"
  room_members :: "(room_id \<times> user_id list) list"
  messages :: "Message list"
  undelivered :: "(user_id \<times> msg_id list) list"

definition Repositories_init :: Repositories where
  "Repositories_init = \<lparr>next_user_id = 1, next_room_id = 1, next_msg_id = 1, users = [], username_idx = [],
     sessions = [], rooms = [], room_name_idx = [], room_members = [], messages = [], undelivered = []\<rparr>"

text \<open>\<open>m[k]\<close>, which default-constructs a missing entry.\<close>

definition slot :: "('k \<times> 'v list) list \<Rightarrow> 'k \<Rightarrow> 'v list" where
  "slot m k = (case map_of m k of Some vs \<Rightarrow> vs | None \<Rightarrow> [])"

text \<open>\<open>m.at (k)\<close>.\<close>

definition at_key :: "('k \<times> 'v) list \<Rightarrow> 'k \<Rightarrow> exn + 'v" where
  "at_key m k = (case map_of m k of Some v \<Rightarrow> Inr v | None \<Rightarrow> Inl OutOfRange)"

subsection \<open>Users\<close>

definition find_user_by_id :: "user_id \<Rightarrow> Repositories \<Rightarrow> User option" where
  "find_user_by_id i r = map_of (users r) i"

definition find_user_by_username :: "string \<Rightarrow> Repositories \<Rightarrow> exn + User option" where
  "find_user_by_username n r =
     (case map_of (username_idx r) n of
        None \<Rightarrow> Inr None
      | Some i \<Rightarrow> map_sum (\<lambda>e. e) Some (at_key (users r) i))"

definition create_user :: "i64 \<Rightarrow> string \<Rightarrow> string \<Rightarrow> Repositories \<Rightarrow> user_id option \<times> Repositories" where
  "create_user now n h r =
     (if map_of (username_idx r) n \<noteq> None then (None, r)
      else
        (let i = next_user_id r;
             u = \<lparr>u_id = i, u_username = n, u_password_hash = h, u_created_at_ms = now, u_last_seen_ms = 0\<rparr>
         in (Some i, r\<lparr>next_user_id := i + 1, users := AList.update i u (users r),
               username_idx := AList.update n i (username_idx r)\<rparr>)))"

definition update_last_seen :: "user_id \<Rightarrow> i64 \<Rightarrow> Repositories \<Rightarrow> Repositories" where
  "update_last_seen i ts r =
     (case map_of (users r) i of
        None \<Rightarrow> r
      | Some u \<Rightarrow> r\<lparr>users := AList.update i (u\<lparr>u_last_seen_ms := ts\<rparr>) (users r)\<rparr>)"

subsection \<open>Sessions\<close>

definition load_all_sessions :: "Repositories \<Rightarrow> SessionRow list" where
  "load_all_sessions r = sessions r"

fun insert_session_row :: "string \<Rightarrow> user_id \<Rightarrow> i64 \<Rightarrow> SessionRow list \<Rightarrow> SessionRow list" where
  "insert_session_row tok uid ts [] = [\<lparr>sr_token = tok, sr_user_id = uid, sr_last_active_ms = ts\<rparr>]"
| "insert_session_row tok uid ts (s # ss) =
     (if sr_token s = tok then s\<lparr>sr_user_id := uid, sr_last_active_ms := ts\<rparr> # ss
      else s # insert_session_row tok uid ts ss)"

definition insert_session :: "string \<Rightarrow> user_id \<Rightarrow> i64 \<Rightarrow> Repositories \<Rightarrow> Repositories" where
  "insert_session tok uid ts r = r\<lparr>sessions := insert_session_row tok uid ts (sessions r)\<rparr>"

definition delete_session :: "string \<Rightarrow> Repositories \<Rightarrow> Repositories" where
  "delete_session tok r = r\<lparr>sessions := filter (\<lambda>s. sr_token s \<noteq> tok) (sessions r)\<rparr>"

subsection \<open>Rooms\<close>

definition find_room_by_name :: "string \<Rightarrow> Repositories \<Rightarrow> exn + Room option" where
  "find_room_by_name n r =
     (case map_of (room_name_idx r) n of
        None \<Rightarrow> Inr None
      | Some i \<Rightarrow> map_sum (\<lambda>e. e) Some (at_key (rooms r) i))"

definition find_room_by_id :: "room_id \<Rightarrow> Repositories \<Rightarrow> Room option" where
  "find_room_by_id i r = map_of (rooms r) i"

definition create_room :: "i64 \<Rightarrow> string \<Rightarrow> Repositories \<Rightarrow> room_id option \<times> Repositories" where
  "create_room now n r =
     (if map_of (room_name_idx r) n \<noteq> None then (None, r)
      else
        (let i = next_room_id r
         in (Some i, r\<lparr>next_room_id := i + 1,
               rooms := AList.update i \<lparr>r_id = i, r_name = n, r_created_at_ms = now\<rparr> (rooms r),
               room_name_idx := AList.update n i (room_name_idx r)\<rparr>)))"

definition join_room :: "room_id \<Rightarrow> user_id \<Rightarrow> Repositories \<Rightarrow> bool \<times> Repositories" where
  "join_room rm u r =
     (if map_of (rooms r) rm = None then (False, r)
      else (True, r\<lparr>room_members := AList.update rm (List.insert u (slot (room_members r) rm)) (room_members r)\<rparr>))"

definition leave_room :: "room_id \<Rightarrow> user_id \<Rightarrow> Repositories \<Rightarrow> bool \<times> Repositories" where
  "leave_room rm u r =
     (case map_of (room_members r) rm of
        None \<Rightarrow> (False, r)
      | Some us \<Rightarrow> (True, r\<lparr>room_members := AList.update rm (removeAll u us) (room_members r)\<rparr>))"

definition is_member :: "room_id \<Rightarrow> user_id \<Rightarrow> Repositories \<Rightarrow> bool" where
  "is_member rm u r = (case map_of (room_members r) rm of None \<Rightarrow> False | Some us \<Rightarrow> u \<in> set us)"

fun rooms_at :: "(room_id \<times> Room) list \<Rightarrow> (room_id \<times> user_id list) list \<Rightarrow> user_id \<Rightarrow> Room list \<Rightarrow> exn + Room list"
where
  "rooms_at tab [] u out = Inr out"
| "rooms_at tab ((rid, members) # ms) u out =
     (if u \<in> set members
      then (case at_key tab rid of Inl e \<Rightarrow> Inl e | Inr rm \<Rightarrow> rooms_at tab ms u (out @ [rm]))
      else rooms_at tab ms u out)"

definition list_rooms_for_user :: "user_id \<Rightarrow> Repositories \<Rightarrow> exn + Room list" where
  "list_rooms_for_user u r = rooms_at (rooms r) (room_members r) u []"

definition list_room_members :: "room_id \<Rightarrow> Repositories \<Rightarrow> user_id list" where
  "list_room_members rm r = slot (room_members r) rm"

subsection \<open>Messages\<close>

definition insert_dm :: "user_id \<Rightarrow> user_id \<Rightarrow> string \<Rightarrow> i64 \<Rightarrow> Repositories \<Rightarrow> msg_id option \<times> Repositories" where
  "insert_dm s rcv c ts r =
     (let i = next_msg_id r;
          m = \<lparr>m_id = i, m_sender_id = s, m_receiver_id = Some rcv, m_room_id = None,
               m_content = c, m_status = 0, m_created_at_ms = ts\<rparr>
      in (Some i, r\<lparr>next_msg_id := i + 1, messages := messages r @ [m]\<rparr>))"

definition insert_room_msg :: "user_id \<Rightarrow> room_id \<Rightarrow> string \<Rightarrow> i64 \<Rightarrow> Repositories \<Rightarrow> msg_id option \<times> Repositories" where
  "insert_room_msg s rm c ts r =
     (let i = next_msg_id r;
          m = \<lparr>m_id = i, m_sender_id = s, m_receiver_id = None, m_room_id = Some rm,
               m_content = c, m_status = 0, m_created_at_ms = ts\<rparr>
      in (Some i, r\<lparr>next_msg_id := i + 1, messages := messages r @ [m]\<rparr>))"

text \<open>The loop of both histories, over the messages from the newest to the oldest.\<close>

fun history_scan :: "(Message \<Rightarrow> bool) \<Rightarrow> msg_id \<Rightarrow> nat \<Rightarrow> Message list \<Rightarrow> Message list \<Rightarrow> Message list" where
  "history_scan match before lim [] out = out"
| "history_scan match before lim (m # ms) out =
     (if length out \<ge> lim then out
      else if before \<noteq> 0 \<and> m_id m \<ge> before then history_scan match before lim ms out
      else if match m then history_scan match before lim ms (out @ [m])
      else history_scan match before lim ms out)"

definition dm_between :: "user_id \<Rightarrow> user_id \<Rightarrow> Message \<Rightarrow> bool" where
  "dm_between a b m =
     (case m_receiver_id m of
        None \<Rightarrow> False
      | Some rcv \<Rightarrow> m_sender_id m = a \<and> rcv = b \<or> m_sender_id m = b \<and> rcv = a)"

definition history_dm :: "user_id \<Rightarrow> user_id \<Rightarrow> msg_id \<Rightarrow> u32 \<Rightarrow> Repositories \<Rightarrow> Message list" where
  "history_dm a b before lim r =
     rev (history_scan (dm_between a b) before (unat lim) (rev (messages r)) [])"

definition history_room :: "room_id \<Rightarrow> msg_id \<Rightarrow> u32 \<Rightarrow> Repositories \<Rightarrow> Message list" where
  "history_room rm before lim r =
     rev (history_scan (\<lambda>m. m_room_id m = Some rm) before (unat lim) (rev (messages r)) [])"

fun set_status :: "msg_id \<Rightarrow> u8 \<Rightarrow> Message list \<Rightarrow> Message list" where
  "set_status i st [] = []"
| "set_status i st (m # ms) = (if m_id m = i then m\<lparr>m_status := st\<rparr> # ms else m # set_status i st ms)"

definition update_message_status :: "msg_id \<Rightarrow> u8 \<Rightarrow> Repositories \<Rightarrow> Repositories" where
  "update_message_status i st r = r\<lparr>messages := set_status i st (messages r)\<rparr>"

subsection \<open>The offline queue\<close>

definition enqueue_undelivered :: "msg_id \<Rightarrow> user_id \<Rightarrow> Repositories \<Rightarrow> Repositories" where
  "enqueue_undelivered mid uid r =
     r\<lparr>undelivered := AList.update uid (slot (undelivered r) uid @ [mid]) (undelivered r)\<rparr>"

fun queued_messages :: "msg_id list \<Rightarrow> Message list \<Rightarrow> Message list" where
  "queued_messages [] ms = []"
| "queued_messages (mid # q) ms =
     (case find (\<lambda>m. m_id m = mid) ms of
        Some m \<Rightarrow> m # queued_messages q ms
      | None \<Rightarrow> queued_messages q ms)"

definition drain_undelivered :: "user_id \<Rightarrow> Repositories \<Rightarrow> Message list \<times> Repositories" where
  "drain_undelivered uid r =
     (case map_of (undelivered r) uid of
        None \<Rightarrow> ([], r)
      | Some q \<Rightarrow> (queued_messages q (messages r), r\<lparr>undelivered := AList.delete uid (undelivered r)\<rparr>))"

section \<open>The invariant\<close>

text \<open>
  A table with an index by name, as users and rooms are kept: rows under their own
  identifier, all identifiers below the counter, one row per name.
\<close>

definition table_ok :: "u64 \<Rightarrow> (u64 \<times> 'v) list \<Rightarrow> (string \<times> u64) list \<Rightarrow> ('v \<Rightarrow> u64) \<Rightarrow> ('v \<Rightarrow> string) \<Rightarrow> bool" where
  "table_ok nxt tab idx ident key =
     (0 < nxt \<and> distinct (map fst tab) \<and> distinct (map fst idx) \<and>
      (\<forall>(k, v)\<in>set tab. 0 < k \<and> k < nxt \<and> ident v = k \<and> map_of idx (key v) = Some k) \<and>
      (\<forall>(n, k)\<in>set idx. map_option key (map_of tab k) = Some n))"

definition repos_inv :: "Repositories \<Rightarrow> bool" where
  "repos_inv r =
     (table_ok (next_user_id r) (users r) (username_idx r) u_id u_username \<and>
      table_ok (next_room_id r) (rooms r) (room_name_idx r) r_id r_name \<and>
      distinct (map fst (room_members r)) \<and>
      (\<forall>(rm, us)\<in>set (room_members r). map_of (rooms r) rm \<noteq> None \<and> distinct us) \<and>
      distinct (map sr_token (sessions r)) \<and>
      0 < next_msg_id r \<and> sorted_wrt (<) (map m_id (messages r)) \<and>
      (\<forall>m\<in>set (messages r). 0 < m_id m \<and> m_id m < next_msg_id r \<and>
         (m_receiver_id m = None) \<noteq> (m_room_id m = None)) \<and>
      distinct (map fst (undelivered r)))"

lemma table_okD:
  assumes "table_ok nxt tab idx ident key"
  shows "0 < nxt" "distinct (map fst tab)" "distinct (map fst idx)"
    "map_of tab k = Some v \<Longrightarrow> 0 < k \<and> k < nxt \<and> ident v = k \<and> map_of idx (key v) = Some k"
    "map_of idx n = Some k \<Longrightarrow> \<exists>v. map_of tab k = Some v \<and> key v = n"
proof -
  have rows: "\<And>k v. (k, v) \<in> set tab \<Longrightarrow> 0 < k \<and> k < nxt \<and> ident v = k \<and> map_of idx (key v) = Some k"
    and names: "\<And>n k. (n, k) \<in> set idx \<Longrightarrow> map_option key (map_of tab k) = Some n"
    using assms unfolding table_ok_def by blast+
  show "0 < nxt" "distinct (map fst tab)" "distinct (map fst idx)" using assms unfolding table_ok_def by blast+
  show "0 < k \<and> k < nxt \<and> ident v = k \<and> map_of idx (key v) = Some k" if "map_of tab k = Some v"
    using rows [OF map_of_SomeD [OF that]] .
  show "\<exists>v. map_of tab k = Some v \<and> key v = n" if "map_of idx n = Some k"
    using names [OF map_of_SomeD [OF that]] unfolding map_option_eq_Some .
qed

lemma table_okI:
  assumes "0 < nxt" "distinct (map fst tab)" "distinct (map fst idx)"
    and "\<And>k v. map_of tab k = Some v \<Longrightarrow> 0 < k \<and> k < nxt \<and> ident v = k \<and> map_of idx (key v) = Some k"
    and "\<And>n k. map_of idx n = Some k \<Longrightarrow> \<exists>v. map_of tab k = Some v \<and> key v = n"
  shows "table_ok nxt tab idx ident key"
proof -
  have "0 < k \<and> k < nxt \<and> ident v = k \<and> map_of idx (key v) = Some k" if "(k, v) \<in> set tab" for k v
    using that assms(4) map_of_set_distinct [OF assms(2)] by blast
  moreover have "map_option key (map_of tab k) = Some n" if "(n, k) \<in> set idx" for n k
    using that assms(5) [of n k] map_of_set_distinct [OF assms(3)] by auto
  ultimately show ?thesis unfolding table_ok_def using assms(1-3) by blast
qed

lemma word_less_plus1: "nxt + 1 \<noteq> 0 \<Longrightarrow> k < nxt + 1 \<longleftrightarrow> k \<le> nxt" for nxt :: u64
  using unatSuc [of nxt] by (simp add: word_less_nat_alt word_le_nat_alt add.commute less_Suc_eq_le)

lemma table_insert:
  assumes "table_ok nxt tab idx ident key" and "map_of idx (key v) = None" and "ident v = nxt" and "nxt + 1 \<noteq> 0"
  shows "table_ok (nxt + 1) (AList.update nxt v tab) (AList.update (key v) nxt idx) ident key"
proof (rule table_okI)
  note D = table_okD [OF assms(1)]
  show "0 < nxt + 1" using assms(4) by (simp add: word_gt_0)
  show "distinct (map fst (AList.update nxt v tab))" using D(2) by (rule distinct_update)
  show "distinct (map fst (AList.update (key v) nxt idx))" using D(3) by (rule distinct_update)
  show "0 < k \<and> k < nxt + 1 \<and> ident w = k \<and> map_of (AList.update (key v) nxt idx) (key w) = Some k"
    if w: "map_of (AList.update nxt v tab) k = Some w" for k w
  proof (cases "k = nxt")
    case True
    with w assms(3) D(1) word_less_plus1 [OF assms(4), of k] show ?thesis by (simp add: map_of_update_iff)
  next
    case False
    with w have "map_of tab k = Some w" by (simp add: map_of_update_iff)
    from D(4) [OF this] assms(2) word_less_plus1 [OF assms(4), of k] show ?thesis
      by (auto simp: map_of_update_iff)
  qed
  show "\<exists>w. map_of (AList.update nxt v tab) k = Some w \<and> key w = n"
    if n: "map_of (AList.update (key v) nxt idx) n = Some k" for n k
  proof (cases "n = key v")
    case False
    with n have "map_of idx n = Some k" by (simp add: map_of_update_iff)
    with D(5) obtain w where w: "map_of tab k = Some w" "key w = n" by blast
    with D(4) [OF w(1)] have "k \<noteq> nxt" by auto
    with w show ?thesis by (simp add: map_of_update_iff)
  qed (use n in \<open>simp add: map_of_update_iff\<close>)
qed

lemma table_modify:
  assumes "table_ok nxt tab idx ident key" and "map_of tab k = Some v" and "ident v' = ident v" and "key v' = key v"
  shows "table_ok nxt (AList.update k v' tab) idx ident key"
proof (rule table_okI)
  note D = table_okD [OF assms(1)]
  show "0 < nxt" "distinct (map fst idx)" by (fact D)+
  show "distinct (map fst (AList.update k v' tab))" using D(2) by (rule distinct_update)
  show "0 < i \<and> i < nxt \<and> ident w = i \<and> map_of idx (key w) = Some i"
    if "map_of (AList.update k v' tab) i = Some w" for i w
    using that D(4) [of i] assms(2-) by (cases "i = k") (auto simp: map_of_update_iff)
  show "\<exists>w. map_of (AList.update k v' tab) i = Some w \<and> key w = n" if "map_of idx n = Some i" for n i
    using D(5) [OF that] assms(2-) by (auto simp: map_of_update_iff)
qed

subsection \<open>Every operation keeps it\<close>

lemma repos_inv_init [simp]: "repos_inv Repositories_init"
  by (simp add: repos_inv_def Repositories_init_def table_ok_def)

lemma inv_create_user:
  "repos_inv r \<Longrightarrow> next_user_id r + 1 \<noteq> 0 \<Longrightarrow> repos_inv (snd (create_user now n h r))"
  using table_insert [of "next_user_id r" "users r" "username_idx r" u_id u_username
      "\<lparr>u_id = next_user_id r, u_username = n, u_password_hash = h, u_created_at_ms = now, u_last_seen_ms = 0\<rparr>"]
  by (simp add: repos_inv_def create_user_def Let_def)

lemma inv_update_last_seen: "repos_inv r \<Longrightarrow> repos_inv (update_last_seen i ts r)"
  by (auto simp: repos_inv_def update_last_seen_def intro!: table_modify split: option.split)

lemma tokens_insert_row:
  "set (map sr_token (insert_session_row tok uid ts ss)) = insert tok (set (map sr_token ss))"
  by (induction ss) auto

lemma inv_insert_session: "repos_inv r \<Longrightarrow> repos_inv (insert_session tok uid ts r)"
proof -
  have "distinct (map sr_token ss) \<Longrightarrow> distinct (map sr_token (insert_session_row tok uid ts ss))" for ss
  proof (induction ss)
    case (Cons s ss)
    with tokens_insert_row [of tok uid ts ss] show ?case by auto
  qed simp
  then show "repos_inv r \<Longrightarrow> repos_inv (insert_session tok uid ts r)"
    by (simp add: repos_inv_def insert_session_def)
qed

lemma inv_delete_session: "repos_inv r \<Longrightarrow> repos_inv (delete_session tok r)"
  by (simp add: repos_inv_def delete_session_def distinct_map_filter)

lemma inv_create_room:
  assumes "repos_inv r" and "next_room_id r + 1 \<noteq> 0"
  shows "repos_inv (snd (create_room now n r))"
proof -
  let ?rm = "\<lparr>r_id = next_room_id r, r_name = n, r_created_at_ms = now\<rparr>"
  have "\<forall>(rm, us)\<in>set (room_members r). map_of (AList.update (next_room_id r) ?rm (rooms r)) rm \<noteq> None \<and> distinct us"
    using assms(1) by (auto simp: repos_inv_def alist_simps)
  with assms table_insert [of "next_room_id r" "rooms r" "room_name_idx r" r_id r_name ?rm]
  show ?thesis by (simp add: repos_inv_def create_room_def Let_def)
qed

lemma distinct_slot: "\<forall>(k, vs)\<in>set m. P k \<and> distinct vs \<Longrightarrow> distinct (slot m k)"
  by (auto simp: slot_def dest: map_of_SomeD split: option.splits)

lemma set_update_cases: "(k, v) \<in> set (AList.update k' v' m) \<Longrightarrow> k = k' \<and> v = v' \<or> (k, v) \<in> set m"
  by (induction m) (auto split: if_splits)

lemma inv_room_members:
  assumes "repos_inv r" and "map_of (rooms r) rm \<noteq> None" and "distinct us"
  shows "repos_inv (r\<lparr>room_members := AList.update rm us (room_members r)\<rparr>)"
  using assms by (auto simp: repos_inv_def distinct_update dest!: set_update_cases)

lemma inv_join_room: "repos_inv r \<Longrightarrow> repos_inv (snd (join_room rm u r))"
  using inv_room_members [of r rm "List.insert u (slot (room_members r) rm)"]
    distinct_slot [of "room_members r" "\<lambda>k. map_of (rooms r) k \<noteq> None" rm]
  by (simp add: join_room_def repos_inv_def)

lemma inv_leave_room: "repos_inv r \<Longrightarrow> repos_inv (snd (leave_room rm u r))"
proof (cases "map_of (room_members r) rm")
  case (Some us)
  assume "repos_inv r"
  moreover from this Some have "map_of (rooms r) rm \<noteq> None" "distinct us"
    by (auto simp: repos_inv_def dest!: map_of_SomeD)
  ultimately show ?thesis
    using Some inv_room_members [of r rm "removeAll u us"] by (simp add: leave_room_def distinct_removeAll)
qed (simp add: leave_room_def)

lemma inv_insert_message:
  assumes "repos_inv r" and "next_msg_id r + 1 \<noteq> 0" and "m_id m = next_msg_id r"
    and "(m_receiver_id m = None) \<noteq> (m_room_id m = None)"
  shows "repos_inv (r\<lparr>next_msg_id := next_msg_id r + 1, messages := messages r @ [m]\<rparr>)"
  using assms word_less_plus1 [OF assms(2)]
  by (auto simp: repos_inv_def sorted_wrt_append word_gt_0 dest: less_imp_le)

lemma inv_insert_dm: "repos_inv r \<Longrightarrow> next_msg_id r + 1 \<noteq> 0 \<Longrightarrow> repos_inv (snd (insert_dm s rcv c ts r))"
  by (auto simp: insert_dm_def Let_def intro: inv_insert_message)

lemma inv_insert_room_msg: "repos_inv r \<Longrightarrow> next_msg_id r + 1 \<noteq> 0 \<Longrightarrow> repos_inv (snd (insert_room_msg s rm c ts r))"
  by (auto simp: insert_room_msg_def Let_def intro: inv_insert_message)

lemma set_status_fields:
  "map m_id (set_status i st ms) = map m_id ms" "map m_receiver_id (set_status i st ms) = map m_receiver_id ms"
  "map m_room_id (set_status i st ms) = map m_room_id ms" "map m_content (set_status i st ms) = map m_content ms"
  by (induction ms) auto

lemma set_status_mem:
  "m \<in> set (set_status i st ms) \<Longrightarrow> \<exists>m0\<in>set ms. m = m0 \<or> m = m0\<lparr>m_status := st\<rparr>"
  by (induction ms) (auto split: if_splits)

lemma inv_update_message_status: "repos_inv r \<Longrightarrow> repos_inv (update_message_status i st r)"
  by (auto simp: repos_inv_def update_message_status_def set_status_fields dest!: set_status_mem)

lemma inv_enqueue_undelivered: "repos_inv r \<Longrightarrow> repos_inv (enqueue_undelivered mid uid r)"
  by (simp add: repos_inv_def enqueue_undelivered_def distinct_update)

lemma inv_drain_undelivered: "repos_inv r \<Longrightarrow> repos_inv (snd (drain_undelivered uid r))"
  by (simp add: repos_inv_def drain_undelivered_def distinct_delete split: option.split)

lemmas repos_inv_ops =
  inv_create_user inv_update_last_seen inv_insert_session inv_delete_session inv_create_room inv_join_room
  inv_leave_room inv_insert_dm inv_insert_room_msg inv_update_message_status inv_enqueue_undelivered
  inv_drain_undelivered

section \<open>What the operations return\<close>

text \<open>Under the invariant \<open>at ()\<close> does not throw: the indexes and the membership table only name rows.\<close>

lemma find_user_by_username_ok:
  "repos_inv r \<Longrightarrow> find_user_by_username n r =
     Inr (case map_of (username_idx r) n of None \<Rightarrow> None | Some i \<Rightarrow> map_of (users r) i)"
  by (auto simp: repos_inv_def find_user_by_username_def at_key_def split: option.split dest: table_okD(5))

lemma find_room_by_name_ok:
  "repos_inv r \<Longrightarrow> find_room_by_name n r =
     Inr (case map_of (room_name_idx r) n of None \<Rightarrow> None | Some i \<Rightarrow> map_of (rooms r) i)"
  by (auto simp: repos_inv_def find_room_by_name_def at_key_def split: option.split dest: table_okD(5))

lemma username_taken_iff:
  assumes "repos_inv r"
  shows "map_of (username_idx r) n \<noteq> None \<longleftrightarrow> (\<exists>u. find_user_by_username n r = Inr (Some u))"
  using assms table_okD(5) [of "next_user_id r" "users r" "username_idx r" u_id u_username n]
  by (auto simp: find_user_by_username_ok repos_inv_def split: option.split)

lemma found_user:
  assumes "repos_inv r" and "find_user_by_username n r = Inr (Some u)"
  shows "u_username u = n \<and> find_user_by_id (u_id u) r = Some u \<and> u_id u \<noteq> 0"
proof -
  from assms(1) have T: "table_ok (next_user_id r) (users r) (username_idx r) u_id u_username"
    by (simp add: repos_inv_def)
  from assms obtain i where i: "map_of (username_idx r) n = Some i" "map_of (users r) i = Some u"
    by (auto simp: find_user_by_username_ok split: option.splits)
  from table_okD(4) [OF T i(2)] table_okD(5) [OF T i(1)] i(2) show ?thesis
    by (auto simp: find_user_by_id_def)
qed

lemma user_id_nonzero: "repos_inv r \<Longrightarrow> find_user_by_id i r = Some u \<Longrightarrow> i \<noteq> 0 \<and> u_id u = i"
  using table_okD(4) [of "next_user_id r" "users r" "username_idx r" u_id u_username i u]
  by (auto simp: repos_inv_def find_user_by_id_def)

lemma room_id_nonzero: "repos_inv r \<Longrightarrow> map_of (rooms r) i = Some rm \<Longrightarrow> i \<noteq> 0 \<and> r_id rm = i"
  using table_okD(4) [of "next_room_id r" "rooms r" "room_name_idx r" r_id r_name i rm]
  by (auto simp: repos_inv_def)

lemma rooms_at_ok:
  "\<forall>(rid, us)\<in>set ms. map_of tab rid \<noteq> None \<Longrightarrow>
   rooms_at tab ms u out = Inr (out @ map (\<lambda>(rid, us). the (map_of tab rid)) (filter (\<lambda>(rid, us). u \<in> set us) ms))"
  by (induction tab ms u out rule: rooms_at.induct) (auto simp: at_key_def)

lemma list_rooms_ok:
  assumes "repos_inv r"
  shows "\<exists>rs. list_rooms_for_user u r = Inr rs \<and> (\<forall>x. x \<in> set rs \<longleftrightarrow> (\<exists>rid. map_of (rooms r) rid = Some x \<and> is_member rid u r))"
proof -
  from assms have all: "\<forall>(rid, us)\<in>set (room_members r). map_of (rooms r) rid \<noteq> None"
    and d: "distinct (map fst (room_members r))" by (auto simp: repos_inv_def)
  let ?rs = "map (\<lambda>(rid, us). the (map_of (rooms r) rid)) (filter (\<lambda>(rid, us). u \<in> set us) (room_members r))"
  have "list_rooms_for_user u r = Inr ?rs" using rooms_at_ok [OF all] by (simp add: list_rooms_for_user_def)
  moreover have "x \<in> set ?rs \<longleftrightarrow> (\<exists>rid. map_of (rooms r) rid = Some x \<and> is_member rid u r)" for x
  proof
    assume "x \<in> set ?rs"
    then obtain rid us where m: "(rid, us) \<in> set (room_members r)" "u \<in> set us" "x = the (map_of (rooms r) rid)" by auto
    from bspec [OF all m(1)] have "map_of (rooms r) rid \<noteq> None" by simp
    moreover from d m(1) have "map_of (room_members r) rid = Some us" by (rule map_of_is_SomeI)
    ultimately show "\<exists>rid. map_of (rooms r) rid = Some x \<and> is_member rid u r"
      using m(2,3) by (intro exI [of _ rid]) (simp add: is_member_def)
  next
    assume "\<exists>rid. map_of (rooms r) rid = Some x \<and> is_member rid u r"
    then obtain rid us where "map_of (rooms r) rid = Some x" "map_of (room_members r) rid = Some us" "u \<in> set us"
      by (auto simp: is_member_def split: option.splits)
    then have "(rid, us) \<in> set (filter (\<lambda>(rid, us). u \<in> set us) (room_members r))" "x = the (map_of (rooms r) rid)"
      by (simp_all add: map_of_SomeD)
    then show "x \<in> set ?rs" unfolding set_map by (intro image_eqI) auto
  qed
  ultimately show ?thesis by blast
qed

lemma is_member_slot: "is_member rm u r \<longleftrightarrow> u \<in> set (list_room_members rm r)"
  by (simp add: is_member_def list_room_members_def slot_def split: option.split)

text \<open>The last \<open>n\<close> elements, in order.\<close>

definition last_n :: "nat \<Rightarrow> 'a list \<Rightarrow> 'a list" where
  "last_n n xs = drop (length xs - n) xs"

lemma rev_take_rev: "rev (take n (rev xs)) = last_n n xs"
  by (simp add: last_n_def take_rev)

lemma history_scan_eq:
  "length out \<le> lim \<Longrightarrow> history_scan match before lim ms out =
     out @ take (lim - length out) (filter (\<lambda>m. (before = 0 \<or> m_id m < before) \<and> match m) ms)"
proof (induction match before lim ms out rule: history_scan.induct)
  case (2 match before lim m ms out)
  show ?case
  proof (cases "length out \<ge> lim")
    case False
    then have "lim - length out = Suc (lim - Suc (length out))" by simp
    with 2 False show ?thesis by (auto simp: not_le not_less)
  qed (use 2 in simp)
qed simp

lemma history_eq:
  "rev (history_scan match before lim (rev ms) []) = last_n lim (filter (\<lambda>m. (before = 0 \<or> m_id m < before) \<and> match m) ms)"
  by (simp add: history_scan_eq rev_filter [symmetric] rev_take_rev)

lemma find_unique:
  "distinct (map f xs) \<Longrightarrow> x \<in> set xs \<Longrightarrow> find (\<lambda>y. f y = f x) xs = Some x"
  by (induction xs) (auto simp: rev_image_eqI)

lemma distinct_ids: "repos_inv r \<Longrightarrow> distinct (map m_id (messages r))"
  using strict_sorted_iff [of "map m_id (messages r)"] by (simp add: repos_inv_def)

lemma queued_messages_eq:
  "distinct (map m_id ms) \<Longrightarrow> set qm \<subseteq> set ms \<Longrightarrow> queued_messages (map m_id qm) ms = qm"
  by (induction qm) (auto simp: find_unique)

lemma enqueue_fields [simp]:
  "messages (enqueue_undelivered mid u r) = messages r"
  "slot (undelivered (enqueue_undelivered mid u r)) u' = slot (undelivered r) u' @ (if u' = u then [mid] else [])"
  by (simp_all add: enqueue_undelivered_def slot_def map_of_update_iff)

lemma drain_eq: "fst (drain_undelivered u r) = queued_messages (slot (undelivered r) u) (messages r)"
  by (simp add: drain_undelivered_def slot_def split: option.split)

lemma drain_fields [simp]:
  "messages (snd (drain_undelivered u r)) = messages r"
  "slot (undelivered (snd (drain_undelivered u r))) u' = (if u' = u then [] else slot (undelivered r) u')"
  by (auto simp: drain_undelivered_def slot_def map_of_delete_iff split: option.split)

lemma enqueue_all:
  "messages (fold (\<lambda>m. enqueue_undelivered (m_id m) u) ms r) = messages r"
  "slot (undelivered (fold (\<lambda>m. enqueue_undelivered (m_id m) u) ms r)) u' =
     slot (undelivered r) u' @ (if u' = u then map m_id ms else [])"
  by (induction ms arbitrary: r) auto

section \<open>The contracts the other components rely on\<close>

text \<open>
  The session table, as the session manager uses it: \<open>row\<close> is what the rows that
  \<open>load\<close> returns say of a token.
\<close>

definition row_of :: "SessionRow list \<Rightarrow> string \<Rightarrow> (user_id \<times> i64) option" where
  "row_of ss tok = map_of (map (\<lambda>s. (sr_token s, sr_user_id s, sr_last_active_ms s)) ss) tok"

locale session_store =
  fixes load :: "'r \<Rightarrow> SessionRow list"
    and ins :: "string \<Rightarrow> user_id \<Rightarrow> i64 \<Rightarrow> 'r \<Rightarrow> 'r"
    and del :: "string \<Rightarrow> 'r \<Rightarrow> 'r"
    and wf :: "'r \<Rightarrow> bool"
  assumes load_ins: "row_of (load (ins tok uid ts r)) = (row_of (load r))(tok \<mapsto> (uid, ts))"
    and load_del: "row_of (load (del tok r)) = (row_of (load r))(tok := None)"
    and load_distinct: "wf r \<Longrightarrow> distinct (map sr_token (load r))"
    and wf_ins: "wf r \<Longrightarrow> wf (ins tok uid ts r)"
    and wf_del: "wf r \<Longrightarrow> wf (del tok r)"

text \<open>The membership table, as the room cache uses it.\<close>

locale membership_store =
  fixes members :: "room_id \<Rightarrow> 'r \<Rightarrow> user_id list"
    and join :: "room_id \<Rightarrow> user_id \<Rightarrow> 'r \<Rightarrow> bool \<times> 'r"
    and leave :: "room_id \<Rightarrow> user_id \<Rightarrow> 'r \<Rightarrow> bool \<times> 'r"
  assumes members_join: "set (members rm' (snd (join rm u r))) =
      (if rm' = rm \<and> fst (join rm u r) then insert u (set (members rm r)) else set (members rm' r))"
    and members_leave: "set (members rm' (snd (leave rm u r))) =
      (if rm' = rm then set (members rm r) - {u} else set (members rm' r))"

lemma row_of_insert: "row_of (insert_session_row tok uid ts ss) = (row_of ss)(tok \<mapsto> (uid, ts))"
  by (induction ss) (auto simp: row_of_def fun_eq_iff)

lemma row_of_delete: "row_of (filter (\<lambda>s. sr_token s \<noteq> tok) ss) = (row_of ss)(tok := None)"
  by (induction ss) (auto simp: row_of_def fun_eq_iff)

interpretation memory_sessions: session_store load_all_sessions insert_session delete_session repos_inv
  by unfold_locales
    (simp_all add: load_all_sessions_def insert_session_def delete_session_def row_of_insert row_of_delete
      inv_insert_session [unfolded insert_session_def] inv_delete_session [unfolded delete_session_def],
     simp add: repos_inv_def)

interpretation memory_members: membership_store list_room_members join_room leave_room
  by unfold_locales
    (auto simp: list_room_members_def join_room_def leave_room_def slot_def map_of_update_iff split: option.splits)

section \<open>Runs of the store\<close>

text \<open>The calls that change the store, with the arguments a caller gives them.\<close>

datatype repo_op =
    CreateUser i64 string string
  | UpdateLastSeen user_id i64
  | InsertSession string user_id i64
  | DeleteSession string
  | CreateRoom i64 string
  | JoinRoom room_id user_id
  | LeaveRoom room_id user_id
  | InsertDm user_id user_id string i64
  | InsertRoomMsg user_id room_id string i64
  | UpdateMessageStatus msg_id u8
  | EnqueueUndelivered msg_id user_id
  | DrainUndelivered user_id

fun repo_apply :: "repo_op \<Rightarrow> Repositories \<Rightarrow> Repositories" where
  "repo_apply (CreateUser now n h) r = snd (create_user now n h r)"
| "repo_apply (UpdateLastSeen i ts) r = update_last_seen i ts r"
| "repo_apply (InsertSession tok uid ts) r = insert_session tok uid ts r"
| "repo_apply (DeleteSession tok) r = delete_session tok r"
| "repo_apply (CreateRoom now n) r = snd (create_room now n r)"
| "repo_apply (JoinRoom rm u) r = snd (join_room rm u r)"
| "repo_apply (LeaveRoom rm u) r = snd (leave_room rm u r)"
| "repo_apply (InsertDm s rcv c ts) r = snd (insert_dm s rcv c ts r)"
| "repo_apply (InsertRoomMsg s rm c ts) r = snd (insert_room_msg s rm c ts r)"
| "repo_apply (UpdateMessageStatus i st) r = update_message_status i st r"
| "repo_apply (EnqueueUndelivered mid uid) r = enqueue_undelivered mid uid r"
| "repo_apply (DrainUndelivered uid) r = snd (drain_undelivered uid r)"

text \<open>The largest of the three counters: each call moves it by at most one.\<close>

definition ids_used :: "Repositories \<Rightarrow> nat" where
  "ids_used r = max (unat (next_user_id r)) (max (unat (next_room_id r)) (unat (next_msg_id r)))"

lemma no_wrap: "unat w < 2 ^ 64 - 1 \<Longrightarrow> w + 1 \<noteq> 0" for w :: u64
proof
  assume "unat w < 2 ^ 64 - 1" and "w + 1 = 0"
  then have "w = - 1" by (simp add: eq_neg_iff_add_eq_0)
  with \<open>unat w < 2 ^ 64 - 1\<close> show False by (simp add: unsigned_minus_1_eq_mask mask_eq_exp_minus_1)
qed

lemma ids_used_room:
  assumes "ids_used r < 2 ^ 64 - 1"
  shows "next_user_id r + 1 \<noteq> 0" "next_room_id r + 1 \<noteq> 0" "next_msg_id r + 1 \<noteq> 0"
  using assms no_wrap [of "next_user_id r"] no_wrap [of "next_room_id r"] no_wrap [of "next_msg_id r"]
  by (simp_all add: ids_used_def)

lemma unat_plus1_le: "unat (w + 1) \<le> Suc (unat w)" for w :: u64
  by (metis add.commute le_SucI order_refl unatSuc unat_0 zero_le)

lemma repo_apply_counters:
  "next_user_id (repo_apply x r) \<in> {next_user_id r, next_user_id r + 1}"
  "next_room_id (repo_apply x r) \<in> {next_room_id r, next_room_id r + 1}"
  "next_msg_id (repo_apply x r) \<in> {next_msg_id r, next_msg_id r + 1}"
  by (cases x; simp add: create_user_def create_room_def update_last_seen_def insert_session_def delete_session_def
      join_room_def leave_room_def insert_dm_def insert_room_msg_def update_message_status_def enqueue_undelivered_def
      drain_undelivered_def Let_def split: option.split)+

lemma ids_used_apply: "ids_used (repo_apply x r) \<le> Suc (ids_used r)"
  using repo_apply_counters [of x r] unat_plus1_le [of "next_user_id r"] unat_plus1_le [of "next_room_id r"]
    unat_plus1_le [of "next_msg_id r"]
  unfolding ids_used_def by (auto simp: max_def)

lemma repo_apply_inv: "repos_inv r \<Longrightarrow> ids_used r < 2 ^ 64 - 1 \<Longrightarrow> repos_inv (repo_apply x r)"
  by (cases x) (simp_all only: repo_apply.simps repos_inv_ops ids_used_room not_False_eq_True)

lemma run_inv:
  assumes "repos_inv r" and "ids_used r + length ops < 2 ^ 64 - 1"
  shows "repos_inv (fold repo_apply ops r)"
  using assms
proof (induction ops arbitrary: r)
  case (Cons x ops)
  from Cons.prems have "repos_inv (repo_apply x r)" by (simp add: repo_apply_inv)
  moreover have "ids_used (repo_apply x r) + length ops < 2 ^ 64 - 1" using Cons.prems(2) ids_used_apply [of x r] by simp
  ultimately show ?case using Cons.IH by simp
qed simp

section \<open>Properties\<close>

text \<open>
  C14. The store stays consistent: after any run of its operations, shorter than the range of
  the 64-bit identifiers, every row is under its own identifier, names and message
  identifiers are unique, and memberships name existing rooms.
\<close>

theorem store_invariant:
  assumes "length ops < 2 ^ 64 - 2"
  shows "repos_inv (fold repo_apply ops Repositories_init)"
proof (rule run_inv [OF repos_inv_init])
  show "ids_used Repositories_init + length ops < 2 ^ 64 - 1"
    using assms by (simp add: ids_used_def Repositories_init_def)
qed

theorem store_invariant_witness:
  "repos_inv (fold repo_apply [CreateUser 5 ''ann'' ''h'', CreateRoom 6 ''den'', JoinRoom 1 1, InsertRoomMsg 1 1 ''hi'' 7]
     Repositories_init)"
  by (rule store_invariant) simp

text \<open>
  Registration: \<open>create_user\<close> fails exactly when the name is taken and then changes
  nothing; otherwise the new identifier was unused, both lookups find the new row,
  and every other name and identifier is found as before.
\<close>

theorem create_user_correct:
  assumes "repos_inv r" and "next_user_id r + 1 \<noteq> 0" and "create_user now n h r = (res, r')"
  shows "case res of
      None \<Rightarrow> r' = r \<and> (\<exists>u. find_user_by_username n r = Inr (Some u))
    | Some i \<Rightarrow> find_user_by_username n r = Inr None \<and> find_user_by_id i r = None \<and> i \<noteq> 0 \<and>
        (let u = \<lparr>u_id = i, u_username = n, u_password_hash = h, u_created_at_ms = now, u_last_seen_ms = 0\<rparr> in
         (\<forall>n'. find_user_by_username n' r' = (if n' = n then Inr (Some u) else find_user_by_username n' r)) \<and>
         (\<forall>i'. find_user_by_id i' r' = (if i' = i then Some u else find_user_by_id i' r)))"
proof (cases "map_of (username_idx r) n = None")
  case False
  with assms(3) username_taken_iff [OF assms(1), of n] show ?thesis by (auto simp: create_user_def)
next
  case True
  let ?i = "next_user_id r"
  let ?u = "\<lparr>u_id = ?i, u_username = n, u_password_hash = h, u_created_at_ms = now, u_last_seen_ms = 0\<rparr>"
  from assms(1) have T: "table_ok ?i (users r) (username_idx r) u_id u_username" by (simp add: repos_inv_def)
  have free: "map_of (users r) ?i = None" using table_okD(4) [OF T, of ?i] by (cases "map_of (users r) ?i") auto
  have r': "res = Some ?i" "users r' = AList.update ?i ?u (users r)" "username_idx r' = AList.update n ?i (username_idx r)"
    using assms(3) True by (auto simp: create_user_def Let_def)
  have inv': "repos_inv r'" using inv_create_user [OF assms(1,2), of now n h] assms(3) by simp
  have "find_user_by_username n' r' = (if n' = n then Inr (Some ?u) else find_user_by_username n' r)" for n'
    using free table_okD(5) [OF T, of n'] unfolding find_user_by_username_ok [OF inv'] find_user_by_username_ok [OF assms(1)] r'
    by (auto simp: map_of_update_iff split: option.split)
  moreover have "find_user_by_id i' r' = (if i' = ?i then Some ?u else find_user_by_id i' r)" for i'
    by (simp add: find_user_by_id_def r' map_of_update_iff)
  ultimately show ?thesis
    using True free table_okD(1) [OF T]
    by (simp add: r'(1) Let_def find_user_by_username_ok [OF assms(1)] find_user_by_id_def word_gt_0)
qed

theorem create_user_correct_witness:
  "find_user_by_username ''ann'' (snd (create_user 5 ''ann'' ''h'' Repositories_init)) =
     Inr (Some \<lparr>u_id = 1, u_username = ''ann'', u_password_hash = ''h'', u_created_at_ms = 5, u_last_seen_ms = 0\<rparr>)"
proof -
  have "create_user 5 ''ann'' ''h'' Repositories_init = (Some 1, snd (create_user 5 ''ann'' ''h'' Repositories_init))"
    by (simp add: create_user_def Repositories_init_def Let_def)
  from create_user_correct [OF repos_inv_init _ this] show ?thesis
    by (simp add: Repositories_init_def Let_def)
qed

text \<open>
  Direct message history: \<open>history_dm\<close> returns the newest \<open>lim\<close> messages between the two
  users with an identifier below \<open>before\<close> (any identifier when \<open>before\<close> is 0), oldest first;
  it does not depend on the order of the two users, and a page never exceeds \<open>lim\<close>.
\<close>

theorem history_dm_correct:
  "history_dm a b before lim r =
     last_n (unat lim) (filter (\<lambda>m. (before = 0 \<or> m_id m < before) \<and> dm_between a b m) (messages r)) \<and>
   history_dm a b before lim r = history_dm b a before lim r \<and>
   length (history_dm a b before lim r) \<le> unat lim"
proof -
  have "dm_between a b = dm_between b a" by (auto simp: dm_between_def fun_eq_iff split: option.split)
  then show ?thesis unfolding history_dm_def history_eq by (simp add: last_n_def)
qed

text \<open>
  Room history: the newest \<open>lim\<close> messages of the room below \<open>before\<close>, oldest first; and
  asking for the page before the oldest message of a page returns the messages
  that precede it, so that paging visits every message of the room.
\<close>

theorem history_room_correct:
  assumes "repos_inv r" and "history_room rm before lim r = m # ms"
  shows "history_room rm before lim r =
      last_n (unat lim) (filter (\<lambda>x. (before = 0 \<or> m_id x < before) \<and> m_room_id x = Some rm) (messages r)) \<and>
    (\<exists>older. filter (\<lambda>x. (before = 0 \<or> m_id x < before) \<and> m_room_id x = Some rm) (messages r) = older @ m # ms \<and>
      history_room rm (m_id m) lim r = last_n (unat lim) older)"
proof -
  define P where "P = (\<lambda>x :: Message. (before = 0 \<or> m_id x < before) \<and> m_room_id x = Some rm)"
  have h: "history_room rm before lim r = last_n (unat lim) (filter P (messages r))"
    by (simp add: history_room_def history_eq P_def)
  define older where "older = take (length (filter P (messages r)) - unat lim) (filter P (messages r))"
  have all: "filter P (messages r) = older @ m # ms"
    using h assms(2) by (simp add: older_def last_n_def)
  have srt: "sorted_wrt (<) (map m_id (messages r))" and pos: "\<forall>x\<in>set (messages r). 0 < m_id x"
    using assms(1) by (auto simp: repos_inv_def)
  have srtP: "sorted_wrt (<) (map m_id (filter P (messages r)))"
    using srt by (induction "messages r" arbitrary: r) (auto simp: sorted_wrt_map sorted_wrt_filter)
  have "m \<in> set (filter P (messages r))" by (simp add: all)
  then have m: "m \<in> set (messages r)" "P m" by simp_all
  then have id: "m_id m \<noteq> 0" "before = 0 \<or> m_id m < before" using pos by (auto simp: P_def)
  have "filter (\<lambda>x. m_id x < m_id m \<and> m_room_id x = Some rm) (messages r) =
      filter (\<lambda>x. m_id x < m_id m) (filter P (messages r))"
    using id(2) by (auto simp: P_def intro!: filter_cong)
  also have "\<dots> = older"
    using srtP unfolding all by (auto simp: sorted_wrt_append filter_empty_conv intro!: filter_True)
  finally have "history_room rm (m_id m) lim r = last_n (unat lim) older"
    using id(1) by (simp add: history_room_def history_eq)
  with h all show ?thesis by (auto simp: P_def)
qed

theorem history_room_correct_witness:
  "\<exists>r m ms. repos_inv r \<and> history_room 1 0 2 r = m # ms \<and> history_room 1 (m_id m) 2 r \<noteq> []"
proof -
  let ?r = "fold repo_apply [CreateRoom 6 ''den'', InsertRoomMsg 1 1 ''a'' 7, InsertRoomMsg 2 1 ''b'' 8, InsertRoomMsg 1 1 ''c'' 9]
    Repositories_init"
  let ?m = "\<lambda>i s c ts. \<lparr>m_id = i, m_sender_id = s, m_receiver_id = None, m_room_id = Some 1, m_content = c,
    m_status = 0, m_created_at_ms = ts\<rparr>"
  have ms: "messages ?r = [?m 1 1 ''a'' 7, ?m 2 2 ''b'' 8, ?m 3 1 ''c'' 9]"
    by (simp add: create_room_def insert_room_msg_def Repositories_init_def Let_def)
  have inv: "repos_inv ?r"
    by (rule run_inv [OF repos_inv_init]) (simp add: ids_used_def Repositories_init_def)
  have page: "history_room 1 0 2 ?r = ?m 2 2 ''b'' 8 # [?m 3 1 ''c'' 9]"
    unfolding history_room_def ms by simp
  obtain older where "filter (\<lambda>x. m_room_id x = Some 1) (messages ?r) = older @ [?m 2 2 ''b'' 8, ?m 3 1 ''c'' 9]"
    "history_room 1 2 2 ?r = last_n 2 older"
    using history_room_correct [OF inv page] by auto
  moreover from this(1) [unfolded ms] have "older = [?m 1 1 ''a'' 7]" by (simp add: Cons_eq_append_conv)
  ultimately have "history_room 1 2 2 ?r \<noteq> []" by (simp add: last_n_def)
  with inv page show ?thesis by (intro exI [of _ ?r] exI [of _ "?m 2 2 ''b'' 8"] exI [of _ "[?m 3 1 ''c'' 9]"]) simp
qed

text \<open>
  The offline queue: what \<open>drain_undelivered\<close> returns for a user are the messages queued
  for that user since the last drain, each once and in the order they were queued;
  a second drain returns nothing, and the queues of other users are untouched.
\<close>

theorem offline_queue_fifo:
  assumes "repos_inv r" and "slot (undelivered r) u = []" and "set ms \<subseteq> set (messages r)"
    and "r' = fold (\<lambda>m. enqueue_undelivered (m_id m) u) ms r"
  shows "fst (drain_undelivered u r') = ms \<and> fst (drain_undelivered u (snd (drain_undelivered u r'))) = [] \<and>
    (\<forall>u'. u' \<noteq> u \<longrightarrow> fst (drain_undelivered u' (snd (drain_undelivered u r'))) = fst (drain_undelivered u' r))"
  using assms(2,3) queued_messages_eq [OF distinct_ids [OF assms(1)]]
  by (simp add: drain_eq enqueue_all assms(4))

theorem offline_queue_fifo_witness:
  "fst (drain_undelivered 2 (enqueue_undelivered 2 2 (enqueue_undelivered 1 2
     (fold repo_apply [InsertDm 1 2 ''a'' 7, InsertDm 1 2 ''b'' 8] Repositories_init)))) =
   messages (fold repo_apply [InsertDm 1 2 ''a'' 7, InsertDm 1 2 ''b'' 8] Repositories_init)"
proof -
  let ?r = "fold repo_apply [InsertDm 1 2 ''a'' 7, InsertDm 1 2 ''b'' 8] Repositories_init"
  have inv: "repos_inv ?r" by (rule run_inv [OF repos_inv_init]) (simp add: ids_used_def Repositories_init_def)
  have "slot (undelivered ?r) 2 = []" by (simp add: insert_dm_def Repositories_init_def Let_def slot_def)
  moreover have "fold (\<lambda>m. enqueue_undelivered (m_id m) 2) (messages ?r) ?r = enqueue_undelivered 2 2 (enqueue_undelivered 1 2 ?r)"
    by (simp add: insert_dm_def Repositories_init_def Let_def)
  ultimately show ?thesis
    using offline_queue_fifo [OF inv _ subset_refl refl, of 2] by (simp add: drain_eq)
qed

end
