(* ===== verification/Util.thy ===== *)
theory Util
  imports Cxx_Std
begin

text \<open>
  \<open>src/src/common/util.cpp\<close>: trimming, splitting, case folding, and the hexadecimal and
  base64 codecs. The loops are kept as loops over the indices and accumulators of the
  source. The lemmas relate them to what they are for: \<open>trim\<close> strips the white space at
  both ends and nothing else, \<open>split\<close> cuts at every delimiter, and both codecs decode what
  they encode.
\<close>

section \<open>Strings\<close>

function trim_front :: "string \<Rightarrow> nat \<Rightarrow> nat \<Rightarrow> nat" where
  "trim_front s a b = (if a < b \<and> isspace (s ! a) then trim_front s (Suc a) b else a)"
  by pat_completeness auto
termination
  by (relation "measure (\<lambda>(s, a, b). b - a)") auto

fun trim_back :: "string \<Rightarrow> nat \<Rightarrow> nat \<Rightarrow> nat" where
  "trim_back s a b = (if a < b \<and> isspace (s ! (b - 1)) then trim_back s a (b - 1) else b)"

declare trim_front.simps [simp del] trim_back.simps [simp del]

definition trim :: "string \<Rightarrow> string" where
  "trim s =
     (let a = trim_front s 0 (length s);
          b = trim_back s a (length s)
      in take (b - a) (drop a s))"

fun split_loop :: "char \<Rightarrow> string \<Rightarrow> string list \<Rightarrow> string \<Rightarrow> string list" where
  "split_loop d [] out cur = out @ [cur]"
| "split_loop d (c # s) out cur =
     (if c = d then split_loop d s (out @ [cur]) [] else split_loop d s out (cur @ [c]))"

definition split :: "string \<Rightarrow> char \<Rightarrow> string list" where
  "split s d = split_loop d s [] []"

definition to_lower :: "string \<Rightarrow> string" where
  "to_lower s = map tolower s"

definition to_upper :: "string \<Rightarrow> string" where
  "to_upper s = map toupper s"

section \<open>Hexadecimal\<close>

definition kHex :: string where
  "kHex = ''0123456789abcdef''"

definition hex_encode :: "u8 list \<Rightarrow> string" where
  "hex_encode data =
     concat (map (\<lambda>b. [kHex ! unat (drop_bit 4 b AND 0xF), kHex ! unat (b AND 0xF)]) data)"

definition hex_val :: "char \<Rightarrow> int" where
  "hex_val c =
     (let n = of_char c :: int in
      if 48 \<le> n \<and> n \<le> 57 then n - 48
      else if 97 \<le> n \<and> n \<le> 102 then 10 + (n - 97)
      else if 65 \<le> n \<and> n \<le> 70 then 10 + (n - 65)
      else -1)"

fun hex_decode_loop :: "string \<Rightarrow> u8 list \<Rightarrow> u8 list" where
  "hex_decode_loop (c # c' # s) out =
     (let hi = hex_val c; lo = hex_val c' in
      if hi < 0 \<or> lo < 0 then []
      else hex_decode_loop s (out @ [word_of_int (push_bit 4 hi OR lo)]))"
| "hex_decode_loop s out = out"

definition hex_decode :: "string \<Rightarrow> u8 list" where
  "hex_decode s = (if length s mod 2 \<noteq> 0 then [] else hex_decode_loop s [])"

section \<open>Base64\<close>

definition kB64 :: string where
  "kB64 = ''ABCDEFGHIJKLMNOPQRSTUVWXYZabcdefghijklmnopqrstuvwxyz0123456789+/''"

definition b64_char :: "u32 \<Rightarrow> char" where
  "b64_char x = kB64 ! unat (x AND 0x3F)"

fun base64_encode :: "u8 list \<Rightarrow> string" where
  "base64_encode (a # b # c # data) =
     (let v = push_bit 16 (ucast a) OR push_bit 8 (ucast b) OR ucast c :: u32
      in b64_char (drop_bit 18 v) # b64_char (drop_bit 12 v) # b64_char (drop_bit 6 v) #
         b64_char v # base64_encode data)"
| "base64_encode [a, b] =
     (let v = push_bit 16 (ucast a) OR push_bit 8 (ucast b) :: u32
      in [b64_char (drop_bit 18 v), b64_char (drop_bit 12 v), b64_char (drop_bit 6 v), CHR ''=''])"
| "base64_encode [a] =
     (let v = push_bit 16 (ucast a) :: u32
      in [b64_char (drop_bit 18 v), b64_char (drop_bit 12 v), CHR ''='', CHR ''=''])"
| "base64_encode [] = []"

text \<open>The table \<open>T\<close> of the decoder: minus one, except at the alphabet.\<close>

definition b64_T :: "char \<Rightarrow> int" where
  "b64_T = fold (\<lambda>i T. T(kB64 ! i := int i)) [0..<64] (\<lambda>_. -1)"

fun base64_decode_loop :: "string \<Rightarrow> u32 \<Rightarrow> nat \<Rightarrow> u8 list \<Rightarrow> u8 list" where
  "base64_decode_loop [] v bits out = out"
| "base64_decode_loop (c # s) v bits out =
     (if c = CHR ''='' \<or> c = CHR 0x0A \<or> c = CHR 0x0D \<or> c = CHR '' ''
      then base64_decode_loop s v bits out
      else if b64_T c < 0 then []
      else
        (let v' = push_bit 6 v OR word_of_int (b64_T c); bits' = bits + 6 in
         if 8 \<le> bits'
         then base64_decode_loop s v' (bits' - 8) (out @ [ucast (drop_bit (bits' - 8) v' AND 0xFF)])
         else base64_decode_loop s v' bits' out))"

definition base64_decode :: "string \<Rightarrow> u8 list" where
  "base64_decode s = base64_decode_loop s 0 0 []"

section \<open>Trimming and splitting\<close>

lemma trim_front_step: "a < b \<Longrightarrow> isspace (s ! a) \<Longrightarrow> trim_front s a b = trim_front s (Suc a) b"
  and trim_front_stop: "\<not> (a < b \<and> isspace (s ! a)) \<Longrightarrow> trim_front s a b = a"
  by (auto simp: trim_front.simps [of s a b])

lemma trim_back_step: "a < b \<Longrightarrow> isspace (s ! (b - 1)) \<Longrightarrow> trim_back s a b = trim_back s a (b - 1)"
  and trim_back_stop: "\<not> (a < b \<and> isspace (s ! (b - 1))) \<Longrightarrow> trim_back s a b = b"
  by (auto simp: trim_back.simps [of s a b])

lemma trim_front_eq:
  "a \<le> b \<Longrightarrow> b \<le> length s \<Longrightarrow>
   a \<le> trim_front s a b \<and> trim_front s a b \<le> b \<and>
   take (b - trim_front s a b) (drop (trim_front s a b) s) =
   dropWhile isspace (take (b - a) (drop a s))"
proof (induction s a b rule: trim_front.induct)
  case (1 s a b)
  show ?case
  proof (cases "a < b")
    case True
    then have dr: "take (b - a) (drop a s) = s ! a # take (b - Suc a) (drop (Suc a) s)"
      using "1.prems" by (simp add: Cons_nth_drop_Suc [symmetric] take_Cons' Suc_diff_Suc)
    show ?thesis
    proof (cases "isspace (s ! a)")
      case True
      have "Suc a \<le> trim_front s (Suc a) b \<and> trim_front s (Suc a) b \<le> b \<and>
        take (b - trim_front s (Suc a) b) (drop (trim_front s (Suc a) b) s) =
        dropWhile isspace (take (b - Suc a) (drop (Suc a) s))"
        using 1 True \<open>a < b\<close> by simp
      then show ?thesis using True \<open>a < b\<close> dr by (simp add: trim_front_step [of a b s])
    next
      case False
      then show ?thesis using \<open>a < b\<close> dr by (simp add: trim_front_stop [of a b s])
    qed
  next
    case False
    then show ?thesis using "1.prems" by (simp add: trim_front_stop)
  qed
qed

lemma trim_back_eq:
  "a \<le> b \<Longrightarrow> b \<le> length s \<Longrightarrow>
   a \<le> trim_back s a b \<and> trim_back s a b \<le> b \<and>
   take (trim_back s a b - a) (drop a s) =
   rev (dropWhile isspace (rev (take (b - a) (drop a s))))"
proof (induction s a b rule: trim_back.induct)
  case (1 s a b)
  show ?case
  proof (cases "a < b")
    case True
    then have "take (Suc (b - 1 - a)) (drop a s) = take (b - 1 - a) (drop a s) @ [drop a s ! (b - 1 - a)]"
      using "1.prems" by (intro take_Suc_conv_app_nth) simp
    then have tk: "take (b - a) (drop a s) = take (b - 1 - a) (drop a s) @ [s ! (b - 1)]"
      using "1.prems" True by (simp add: Suc_diff_Suc)
    show ?thesis
    proof (cases "isspace (s ! (b - 1))")
      case True
      have "a \<le> trim_back s a (b - 1) \<and> trim_back s a (b - 1) \<le> b - 1 \<and>
        take (trim_back s a (b - 1) - a) (drop a s) =
        rev (dropWhile isspace (rev (take (b - 1 - a) (drop a s))))"
        using 1 True \<open>a < b\<close> by simp
      then show ?thesis using True \<open>a < b\<close> tk by (auto simp: trim_back_step [of a b s])
    next
      case False
      then show ?thesis using \<open>a < b\<close> tk by (simp add: trim_back_stop [of a b s])
    qed
  next
    case False
    then show ?thesis using "1.prems" by (simp add: trim_back_stop)
  qed
qed

text \<open>The two index loops of \<open>trim\<close> compute the reference definition by \<^const>\<open>dropWhile\<close>.\<close>

lemma trim_eq: "trim s = rev (dropWhile isspace (rev (dropWhile isspace s)))"
proof -
  let ?a = "trim_front s 0 (length s)"
  have a: "?a \<le> length s" "drop ?a s = dropWhile isspace s"
    using trim_front_eq [of 0 "length s" s] by simp_all
  then have "length (dropWhile isspace s) = length s - ?a" by (metis length_drop)
  then show ?thesis
    using trim_back_eq [of ?a "length s" s] a by (simp add: trim_def Let_def)
qed

fun join :: "char \<Rightarrow> string list \<Rightarrow> string" where
  "join d [] = []"
| "join d [x] = x"
| "join d (x # y # xs) = x @ d # join d (y # xs)"

lemma join_snoc: "xs \<noteq> [] \<Longrightarrow> join d (xs @ [y]) = join d xs @ d # y"
  by (induction d xs rule: join.induct) auto

lemma split_loop_join: "join d (split_loop d s out cur) = join d (out @ [cur @ s])"
proof (induction d s out cur rule: split_loop.induct)
  case (2 d c s out cur)
  have "join d ((out @ [cur]) @ [s]) = join d (out @ [cur @ d # s])"
    by (cases "out = []") (simp_all add: join_snoc del: append_assoc)
  with 2 show ?case by simp
qed simp

lemma split_loop_no_delim:
  "\<forall>x\<in>set out. d \<notin> set x \<Longrightarrow> d \<notin> set cur \<Longrightarrow> \<forall>x\<in>set (split_loop d s out cur). d \<notin> set x"
  by (induction d s out cur rule: split_loop.induct) auto

lemma split_correct: "join d (split s d) = s \<and> (\<forall>x\<in>set (split s d). d \<notin> set x)"
  using split_loop_join [of d s "[]" "[]"] split_loop_no_delim [of "[]" d "[]" s]
  by (simp add: split_def)

section \<open>Hexadecimal round trip\<close>

lemma length_hex_encode [simp]: "length (hex_encode bs) = 2 * length bs"
  by (induction bs) (simp_all add: hex_encode_def)

lemma hex_val_kHex: "i < 16 \<Longrightarrow> hex_val (kHex ! i) = int i"
proof -
  have "\<forall>i\<in>set [0..<16]. hex_val (kHex ! i) = int i" by code_simp
  then show "i < 16 \<Longrightarrow> hex_val (kHex ! i) = int i" by simp
qed

lemma nibble_less: "unat (b AND 0xF :: u8) < 16"
  using word_and_le1 [of b "0xF"] by (simp add: word_le_nat_alt)

lemma nibbles_join:
  "word_of_int (push_bit 4 (int (unat (drop_bit 4 b AND 0xF))) OR int (unat (b AND 0xF))) = (b :: u8)"
proof -
  have e: "x AND 0xF = take_bit 4 (x::u8)" for x by (simp add: take_bit_eq_mask mask_eq_exp_minus_1)
  show ?thesis
    unfolding e by (rule bit_word_eqI) (auto simp: bit_simps not_less)
qed
lemma hex_decode_loop_encode: "hex_decode_loop (hex_encode bs) out = out @ bs"
proof (induction bs arbitrary: out)
  case (Cons b bs)
  have "hex_decode_loop (hex_encode (b # bs)) out = hex_decode_loop (hex_encode bs) (out @ [b])"
    using nibbles_join [of b]
    by (simp add: hex_encode_def hex_val_kHex nibble_less Let_def)
  then show ?case by (simp add: Cons.IH)
qed (simp add: hex_encode_def)

lemma hex_roundtrip: "hex_decode (hex_encode bs) = bs"
  by (simp add: hex_decode_def hex_decode_loop_encode)

lemma kHex_alphabet: "i < 16 \<Longrightarrow> kHex ! i \<in> set kHex"
  by (rule nth_mem) (simp add: kHex_def)

lemma hex_encode_alphabet: "set (hex_encode bs) \<subseteq> set kHex"
  by (auto simp: hex_encode_def intro!: kHex_alphabet nibble_less)

section \<open>Base64 round trip\<close>

lemma b64_T_kB64: "i < 64 \<Longrightarrow> b64_T (kB64 ! i) = int i"
proof -
  have "\<forall>i\<in>set [0..<64]. b64_T (kB64 ! i) = int i" by code_simp
  then show "i < 64 \<Longrightarrow> b64_T (kB64 ! i) = int i" by simp
qed
lemma kB64_plain: "i < 64 \<Longrightarrow> kB64 ! i \<notin> {CHR ''='', CHR 0x0A, CHR 0x0D, CHR '' '', CHR ''$''}"
proof -
  have "\<forall>i\<in>set [0..<64]. kB64 ! i \<notin> {CHR ''='', CHR 0x0A, CHR 0x0D, CHR '' '', CHR ''$''}" by code_simp
  then show "i < 64 \<Longrightarrow> kB64 ! i \<notin> {CHR ''='', CHR 0x0A, CHR 0x0D, CHR '' '', CHR ''$''}" by simp
qed

lemma and_3F: "(x AND 0x3F :: u32) = take_bit 6 x"
  by (simp add: take_bit_eq_mask mask_eq_exp_minus_1)

lemma unat_sextet_less: "unat (x AND 0x3F :: u32) < 64"
  using word_and_le1 [of x "0x3F"] by (simp add: word_le_nat_alt)

lemma b64_char_decode [simp]:
  "b64_T (b64_char x) = int (unat (x AND 0x3F))"
  "b64_char x \<noteq> CHR ''=''" "b64_char x \<noteq> CHR 0x0A" "b64_char x \<noteq> CHR 0x0D"
  "b64_char x \<noteq> CHR '' ''" "b64_char x \<noteq> CHR ''$''"
  using b64_T_kB64 [OF unat_sextet_less [of x]] kB64_plain [OF unat_sextet_less [of x]]
  by (simp_all add: b64_char_def)


text \<open>The accumulator after one more character of the alphabet.\<close>

definition b64_acc :: "u32 \<Rightarrow> u32 \<Rightarrow> u32" where
  "b64_acc v x = push_bit 6 v OR (x AND 0x3F)"

lemma b64_decode_char:
  "base64_decode_loop (b64_char x # s) v bits out =
     (if bits < 2 then base64_decode_loop s (b64_acc v x) (bits + 6) out
      else base64_decode_loop s (b64_acc v x) (bits - 2)
             (out @ [ucast (drop_bit (bits - 2) (b64_acc v x) AND 0xFF)]))"
  by (auto simp: Let_def b64_acc_def)

lemma b64_decode_acc_bytes:
  "ucast (drop_bit 4 (b64_acc (b64_acc v (drop_bit 18 w)) (drop_bit 12 w)) AND 0xFF) = (ucast (drop_bit 16 w) :: u8)"
  "ucast (drop_bit 2 (b64_acc (b64_acc v (drop_bit 12 w)) (drop_bit 6 w)) AND 0xFF) = (ucast (drop_bit 8 w) :: u8)"
  "ucast (b64_acc (b64_acc v (drop_bit 6 w)) w AND 0xFF) = (ucast w :: u8)"
  for v w :: u32
  unfolding b64_acc_def and_3F and_FF
  by (rule bit_word_eqI, auto simp: bit_simps)+

lemma b64_decode_triple:
  "base64_decode_loop (b64_char (drop_bit 18 w) # b64_char (drop_bit 12 w) # b64_char (drop_bit 6 w) # s) v 0 out =
   base64_decode_loop s (b64_acc (b64_acc (b64_acc v (drop_bit 18 w)) (drop_bit 12 w)) (drop_bit 6 w)) 2 
     (out @ [ucast (drop_bit 16 w), ucast (drop_bit 8 w)])"
  by (simp add: b64_decode_char b64_decode_acc_bytes del: base64_decode_loop.simps)

lemma b64_decode_pair:
  "base64_decode_loop (b64_char (drop_bit 18 w) # b64_char (drop_bit 12 w) # s) v 0 out =
   base64_decode_loop s (b64_acc (b64_acc v (drop_bit 18 w)) (drop_bit 12 w)) 4
     (out @ [ucast (drop_bit 16 w)])"
  by (simp add: b64_decode_char b64_decode_acc_bytes del: base64_decode_loop.simps)

lemma b64_decode_last:
  "base64_decode_loop (b64_char w # s) (b64_acc v (drop_bit 6 w)) 2 out =
   base64_decode_loop s (b64_acc (b64_acc v (drop_bit 6 w)) w) 0 (out @ [ucast w])"
  by (simp add: b64_decode_char b64_decode_acc_bytes del: base64_decode_loop.simps)

lemma pack_bytes:
  "(ucast (drop_bit 16 (push_bit 16 (ucast a) OR push_bit 8 (ucast b) OR ucast c :: u32)) :: u8) = a"
  "(ucast (drop_bit 8 (push_bit 16 (ucast a) OR push_bit 8 (ucast b) OR ucast c :: u32)) :: u8) = b"
  "(ucast (push_bit 16 (ucast a) OR push_bit 8 (ucast b) OR ucast c :: u32) :: u8) = c"
  "(ucast (drop_bit 16 (push_bit 16 (ucast a) OR push_bit 8 (ucast b) :: u32)) :: u8) = a"
  "(ucast (drop_bit 8 (push_bit 16 (ucast a) OR push_bit 8 (ucast b) :: u32)) :: u8) = b"
  "(ucast (drop_bit 16 (push_bit 16 (ucast a) :: u32)) :: u8) = a"
  for a b c :: u8
  by (rule bit_word_eqI, auto simp: bit_simps)+

lemma base64_decode_loop_encode: "base64_decode_loop (base64_encode bs) v 0 out = out @ bs"
proof (induction bs arbitrary: v out rule: base64_encode.induct)
  case (1 a b c data)
  show ?case
    by (simp only: base64_encode.simps Let_def b64_decode_triple b64_decode_last pack_bytes "1.IH") simp
next
  case (2 a b)
  show ?case by (simp only: base64_encode.simps Let_def b64_decode_triple pack_bytes) simp
next
  case (3 a)
  show ?case by (simp only: base64_encode.simps Let_def b64_decode_pair pack_bytes) simp
qed simp
lemma base64_roundtrip: "base64_decode (base64_encode bs) = bs"
  by (simp add: base64_decode_def base64_decode_loop_encode)

lemma length_base64_encode: "length (base64_encode bs) = 4 * ((length bs + 2) div 3)"
proof (induction bs rule: base64_encode.induct)
  case (1 a b c data)
  have "(length data + 2 + 3) div 3 = (length data + 2) div 3 + 1" by simp
  with 1 show ?case by (simp add: Let_def add.commute)
qed (simp_all add: Let_def)

lemma base64_no_dollar: "CHR ''$'' \<notin> set (base64_encode bs)"
proof (induction bs rule: base64_encode.induct)
  case (1 a b c data)
  then show ?case by (simp add: Let_def b64_char_decode(6) [symmetric])
qed (simp_all add: Let_def b64_char_decode(6) [symmetric])

text \<open>Padding, line breaks and blanks are skipped wherever they stand.\<close>

abbreviation b64_skip :: "char \<Rightarrow> bool" where
  "b64_skip c \<equiv> c = CHR ''='' \<or> c = CHR 0x0A \<or> c = CHR 0x0D \<or> c = CHR '' ''"

lemma base64_decode_loop_skip:
  "base64_decode_loop (filter (\<lambda>c. \<not> b64_skip c) s) v bits out = base64_decode_loop s v bits out"
  by (induction s v bits out rule: base64_decode_loop.induct) (auto simp: Let_def)

section \<open>Properties\<close>

text \<open>
  The hexadecimal codec that prints session tokens: decoding an encoded byte string
  gives the bytes back, the text has two characters per byte, all from the lower-case
  alphabet.
\<close>

theorem hex_codec:
  "hex_decode (hex_encode bs) = bs \<and> length (hex_encode bs) = 2 * length bs \<and>
   set (hex_encode bs) \<subseteq> set kHex"
  by (simp add: hex_roundtrip hex_encode_alphabet)

text \<open>
  The base64 codec that stores salts and hashes: decoding an encoded byte string gives
  the bytes back, the text has four characters per started group of three bytes, and the
  decoder gives the same result on a text with padding, line breaks and blanks put in or
  left out.
\<close>

theorem base64_codec:
  "base64_decode (base64_encode bs) = bs \<and>
   length (base64_encode bs) = 4 * ((length bs + 2) div 3) \<and>
   base64_decode (filter (\<lambda>c. \<not> b64_skip c) s) = base64_decode s"
  using base64_roundtrip [of bs] length_base64_encode [of bs] base64_decode_loop_skip [of s 0 0 "[]"]
  unfolding base64_decode_def by blast

text \<open>
  \<open>trim\<close>, written with two index loops, computes the string without its leading and
  trailing white space, and \<open>split\<close> cuts a string at every delimiter: joining the pieces
  gives the string back, and no piece holds a delimiter.
\<close>

theorem trim_split_correct:
  "trim s = rev (dropWhile isspace (rev (dropWhile isspace s))) \<and>
   join d (split s d) = s \<and> list_all (\<lambda>x. d \<notin> set x) (split s d)"
  using trim_eq [of s] split_correct [of d s] by (simp add: list_all_iff)

end
