(* ===== verification/Crypto.thy ===== *)
theory Crypto
  imports Util
begin

text \<open>
  \<open>src/src/auth/crypto.cpp\<close>: SHA-256 with its streaming state, HMAC, PBKDF2, the password
  hash format and the session token. Bytes and words keep their width, additions wrap.
  Random bytes are what \<open>random_bytes\<close> of \<open>src/src/common/util.cpp\<close> reads from the
  system, and are arguments here.
\<close>

section \<open>The code: SHA-256\<close>

definition K :: "u32 list" where
  "K = concat [
     [0x428a2f98, 0x71374491, 0xb5c0fbcf, 0xe9b5dba5, 0x3956c25b, 0x59f111f1, 0x923f82a4, 0xab1c5ed5],
     [0xd807aa98, 0x12835b01, 0x243185be, 0x550c7dc3, 0x72be5d74, 0x80deb1fe, 0x9bdc06a7, 0xc19bf174],
     [0xe49b69c1, 0xefbe4786, 0x0fc19dc6, 0x240ca1cc, 0x2de92c6f, 0x4a7484aa, 0x5cb0a9dc, 0x76f988da],
     [0x983e5152, 0xa831c66d, 0xb00327c8, 0xbf597fc7, 0xc6e00bf3, 0xd5a79147, 0x06ca6351, 0x14292967],
     [0x27b70a85, 0x2e1b2138, 0x4d2c6dfc, 0x53380d13, 0x650a7354, 0x766a0abb, 0x81c2c92e, 0x92722c85],
     [0xa2bfe8a1, 0xa81a664b, 0xc24b8b70, 0xc76c51a3, 0xd192e819, 0xd6990624, 0xf40e3585, 0x106aa070],
     [0x19a4c116, 0x1e376c08, 0x2748774c, 0x34b0bcb5, 0x391c0cb3, 0x4ed8aa4a, 0x5b9cca4f, 0x682e6ff3],
     [0x748f82ee, 0x78a5636f, 0x84c87814, 0x8cc70208, 0x90befffa, 0xa4506ceb, 0xbef9a3f7, 0xc67178f2]]"

definition ror :: "u32 \<Rightarrow> nat \<Rightarrow> u32" where
  "ror x n = drop_bit n x OR push_bit (32 - n) x"

record Sha256 =
  st :: "u32 list"
  sbuf :: "u8 list"
  bits :: u64
  blen :: nat

definition Sha256_H0 :: "u32 list" where
  "Sha256_H0 = [0x6a09e667, 0xbb67ae85, 0x3c6ef372, 0xa54ff53a,
                0x510e527f, 0x9b05688c, 0x1f83d9ab, 0x5be0cd19]"

text \<open>
  The constructor. The array \<open>buf_\<close> is not initialised by the code; its bytes are zero
  here, and no byte is read before it is written (\<open>absorbed_garbage\<close> below).
\<close>

definition Sha256_new :: Sha256 where
  "Sha256_new = \<lparr>st = Sha256_H0, sbuf = replicate 64 0, bits = 0, blen = 0\<rparr>"

definition block_word :: "u8 list \<Rightarrow> nat \<Rightarrow> u32" where
  "block_word block i =
     load_be32 (block ! (i * 4)) (block ! (i * 4 + 1)) (block ! (i * 4 + 2)) (block ! (i * 4 + 3))"

text \<open>The loop that extends \<open>W\<close> from 16 to 64 words.\<close>

definition schedule_word :: "u32 list \<Rightarrow> u32" where
  "schedule_word W =
     (let i = length W;
          s0 = ror (W ! (i - 15)) 7 XOR ror (W ! (i - 15)) 18 XOR drop_bit 3 (W ! (i - 15));
          s1 = ror (W ! (i - 2)) 17 XOR ror (W ! (i - 2)) 19 XOR drop_bit 10 (W ! (i - 2))
      in W ! (i - 16) + s0 + W ! (i - 7) + s1)"

primrec schedule :: "nat \<Rightarrow> u32 list \<Rightarrow> u32 list" where
  "schedule 0 W = W"
| "schedule (Suc n) W = schedule n (W @ [schedule_word W])"

type_synonym regs = "u32 \<times> u32 \<times> u32 \<times> u32 \<times> u32 \<times> u32 \<times> u32 \<times> u32"

fun sha_round :: "u32 \<times> u32 \<Rightarrow> regs \<Rightarrow> regs" where
  "sha_round (k, w) (a, b, c, d, e, f, g, h) =
     (let S1 = ror e 6 XOR ror e 11 XOR ror e 25;
          ch = (e AND f) XOR (NOT e AND g);
          t1 = h + S1 + ch + k + w;
          S0 = ror a 2 XOR ror a 13 XOR ror a 22;
          mj = (a AND b) XOR (a AND c) XOR (b AND c);
          t2 = S0 + mj
      in (t1 + t2, a, b, c, d + t1, e, f, g))"

definition compress :: "u32 list \<Rightarrow> u8 list \<Rightarrow> u32 list" where
  "compress s block =
     (let W = schedule 48 (map (block_word block) [0..<16]);
          (a, b, c, d, e, f, g, h) =
            fold sha_round (zip K W) (s ! 0, s ! 1, s ! 2, s ! 3, s ! 4, s ! 5, s ! 6, s ! 7)
      in [s ! 0 + a, s ! 1 + b, s ! 2 + c, s ! 3 + d, s ! 4 + e, s ! 5 + f, s ! 6 + g, s ! 7 + h])"

definition memcpy :: "'a list \<Rightarrow> nat \<Rightarrow> 'a list \<Rightarrow> 'a list" where
  "memcpy dst off src = take off dst @ src @ drop (off + length src) dst"

text \<open>
  The \<open>while (n)\<close> loop of \<open>update\<close>. The fill \<open>blen_\<close> is below 64 whenever the loop
  is entered (\<open>sha_inv\<close> below), so the second stop never applies.
\<close>

function update_loop :: "Sha256 \<Rightarrow> u8 list \<Rightarrow> Sha256" where
  "update_loop s data =
     (if data = [] \<or> 64 \<le> blen s then s
      else
        (let n = min (64 - blen s) (length data);
             s1 = s\<lparr>sbuf := memcpy (sbuf s) (blen s) (take n data), blen := blen s + n\<rparr>;
             s2 = (if blen s1 = 64 then s1\<lparr>st := compress (st s1) (sbuf s1), blen := 0\<rparr> else s1)
         in update_loop s2 (drop n data)))"
  by pat_completeness auto
termination
  by (relation "measure (\<lambda>(s, data). length data)") auto

declare update_loop.simps [simp del]

definition Sha256_update :: "Sha256 \<Rightarrow> u8 list \<Rightarrow> Sha256" where
  "Sha256_update s data = update_loop (s\<lparr>bits := bits s + word_of_nat (length data) * 8\<rparr>) data"

definition Sha256_finish :: "Sha256 \<Rightarrow> u8 list" where
  "Sha256_finish s =
     (let s1 = s\<lparr>sbuf := (sbuf s)[blen s := 0x80], blen := blen s + 1\<rparr>;
          s2 = (if 56 < blen s1
                then s1\<lparr>st := compress (st s1) (memcpy (sbuf s1) (blen s1) (replicate (64 - blen s1) 0)),
                        sbuf := memcpy (sbuf s1) (blen s1) (replicate (64 - blen s1) 0),
                        blen := 0\<rparr>
                else s1);
          b3 = memcpy (sbuf s2) (blen s2) (replicate (56 - blen s2) 0);
          b4 = memcpy b3 56 (map (\<lambda>i. ucast (drop_bit (56 - 8 * i) (bits s2))) [0..<8])
      in concat (map store_be32 (compress (st s2) b4)))"

definition Sha256_hash :: "u8 list \<Rightarrow> u8 list" where
  "Sha256_hash data = Sha256_finish (Sha256_update Sha256_new data)"

section \<open>The code: HMAC, PBKDF2, password hashes, session tokens\<close>

definition hmac_sha256 :: "u8 list \<Rightarrow> u8 list \<Rightarrow> u8 list" where
  "hmac_sha256 key msg =
     (let k = memcpy (replicate 64 0) 0
                (if 64 < length key then take 32 (Sha256_hash key) else key);
          ipad = map (\<lambda>b. b XOR 0x36) k;
          opad = map (\<lambda>b. b XOR 0x5c) k;
          inner_h = Sha256_finish (Sha256_update (Sha256_update Sha256_new ipad) msg)
      in Sha256_finish (Sha256_update (Sha256_update Sha256_new opad) inner_h))"

text \<open>The inner loop, \<open>for (i = 1; i < iterations; ++i)\<close>, with the turns counted down.\<close>

primrec pbkdf2_iterate :: "nat \<Rightarrow> u8 list \<Rightarrow> u8 list \<Rightarrow> u8 list \<Rightarrow> u8 list" where
  "pbkdf2_iterate 0 password u t = t"
| "pbkdf2_iterate (Suc n) password u t =
     (let u' = hmac_sha256 password u
      in pbkdf2_iterate n password u' (map2 (\<lambda>x y. x XOR y) t u'))"

definition pbkdf2_block :: "u8 list \<Rightarrow> u8 list \<Rightarrow> u32 \<Rightarrow> u32 \<Rightarrow> u8 list" where
  "pbkdf2_block password salt iterations block =
     (let block_be = [ucast (drop_bit 24 block AND 0xFF), ucast (drop_bit 16 block AND 0xFF),
                      ucast (drop_bit 8 block AND 0xFF), ucast (block AND 0xFF)];
          u = hmac_sha256 password (salt @ block_be)
      in pbkdf2_iterate (unat iterations - 1) password u u)"

text \<open>The outer loop; \<open>out\<close> is the part of the output vector written so far.\<close>

function pbkdf2_loop :: "u8 list \<Rightarrow> u8 list \<Rightarrow> u32 \<Rightarrow> nat \<Rightarrow> nat \<Rightarrow> u32 \<Rightarrow> u8 list \<Rightarrow> u8 list" where
  "pbkdf2_loop password salt iterations out_len pos block out =
     (if pos < out_len then
        (let t = pbkdf2_block password salt iterations block;
             n = min 32 (out_len - pos)
         in pbkdf2_loop password salt iterations out_len (pos + n) (block + 1) (out @ take n t))
      else out)"
  by pat_completeness auto
termination
  by (relation "measure (\<lambda>(p, s, i, out_len, pos, b, out). out_len - pos)") auto

declare pbkdf2_loop.simps [simp del]

definition pbkdf2_hmac_sha256 :: "string \<Rightarrow> u8 list \<Rightarrow> u32 \<Rightarrow> nat \<Rightarrow> u8 list" where
  "pbkdf2_hmac_sha256 password salt iterations out_len =
     pbkdf2_loop (bytes_of password) salt iterations out_len 0 1 []"

text \<open>\<open>salt\<close> is what \<open>random_bytes (salt, 16)\<close> wrote.\<close>

definition make_password_hash :: "u8 list \<Rightarrow> string \<Rightarrow> u32 \<Rightarrow> string" where
  "make_password_hash salt password iter =
     (let dk = pbkdf2_hmac_sha256 password salt iter 32
      in show_nat (unat iter) @ ''$'' @ base64_encode salt @ ''$'' @ base64_encode dk)"

definition verify_password_hash :: "string \<Rightarrow> string \<Rightarrow> bool" where
  "verify_password_hash password stored =
     (case str_find stored (CHR ''$'') 0 of
        None \<Rightarrow> False
      | Some p1 \<Rightarrow>
        (case str_find stored (CHR ''$'') (p1 + 1) of
           None \<Rightarrow> False
         | Some p2 \<Rightarrow>
           (case stoul (take p1 stored) of
              None \<Rightarrow> False
            | Some n \<Rightarrow>
              (let iter = ucast n :: u32;
                   salt = base64_decode (take (p2 - p1 - 1) (drop (p1 + 1) stored));
                   want = base64_decode (drop (p2 + 1) stored)
               in if salt = [] \<or> want = [] then False
                  else
                    (let got = pbkdf2_hmac_sha256 password salt iter (length want)
                     in if length got \<noteq> length want then False
                        else foldl (OR) (0 :: u8) (map2 (\<lambda>x y. x XOR y) got want) = 0)))))"

text \<open>\<open>buf\<close> is what \<open>random_bytes (buf, 32)\<close> wrote.\<close>

definition make_session_token :: "u8 list \<Rightarrow> string" where
  "make_session_token buf = hex_encode buf"

section \<open>Streaming hashing\<close>

text \<open>
  What HMAC uses of a hash with a streaming state: \<open>update\<close> composes by appending, so the
  digest depends only on the bytes given in total.
\<close>

locale stream_hash =
  fixes new :: 's and update :: "'s \<Rightarrow> u8 list \<Rightarrow> 's" and finish :: "'s \<Rightarrow> u8 list"
    and absorbed :: "'s \<Rightarrow> u8 list \<Rightarrow> bool" and digest :: "u8 list \<Rightarrow> u8 list"
  assumes absorbed_new: "absorbed new []"
    and absorbed_update: "absorbed s m \<Longrightarrow> absorbed (update s m') (m @ m')"
    and finish_digest: "absorbed s m \<Longrightarrow> finish s = digest m"
begin

lemma hash_two: "finish (update (update new a) b) = digest (a @ b)"
  using absorbed_update [OF absorbed_update [OF absorbed_new, of a], of b] by (simp add: finish_digest)

lemma hash_one: "finish (update new a) = digest a"
  using absorbed_update [OF absorbed_new, of a] by (simp add: finish_digest)

lemma absorbed_pieces: "absorbed s m \<Longrightarrow> absorbed (foldl update s ps) (m @ concat ps)"
proof (induction ps arbitrary: s m)
  case (Cons p ps)
  from Cons.IH [OF absorbed_update [OF Cons.prems, of p]] show ?case by simp
qed simp

lemma hash_pieces: "absorbed s [] \<Longrightarrow> finish (foldl update s ps) = digest (concat ps)"
  using absorbed_pieces [of s "[]" ps] by (simp add: finish_digest)

end

section \<open>SHA-256 as in FIPS 180-4\<close>

text \<open>
  The reference: a message is padded with a one bit, zeros and its length in bits as 64 bits,
  so that it splits into blocks of 64 bytes, and the compression function is folded over
  the blocks.
\<close>

function blocks :: "u8 list \<Rightarrow> u8 list list" where
  "blocks bs = (if length bs < 64 then [] else take 64 bs # blocks (drop 64 bs))"
  by pat_completeness auto
termination
  by (relation "measure length") auto

declare blocks.simps [simp del]

definition tail_block :: "u8 list \<Rightarrow> u8 list" where
  "tail_block bs = drop (64 * (length bs div 64)) bs"

definition be64 :: "u64 \<Rightarrow> u8 list" where
  "be64 n = map (\<lambda>i. ucast (drop_bit (56 - 8 * i) n)) [0..<8]"

definition pad_zeros :: "nat \<Rightarrow> nat" where
  "pad_zeros n = (let r = n mod 64 in if r \<le> 55 then 55 - r else 119 - r)"

definition sha256_pad :: "u8 list \<Rightarrow> u8 list" where
  "sha256_pad m = m @ 0x80 # replicate (pad_zeros (length m)) 0 @ be64 (word_of_nat (8 * length m))"

definition sha256_spec :: "u8 list \<Rightarrow> u8 list" where
  "sha256_spec m = concat (map store_be32 (foldl compress Sha256_H0 (blocks (sha256_pad m))))"

lemma blocks_short [simp]: "length bs < 64 \<Longrightarrow> blocks bs = []"
  by (simp add: blocks.simps)

lemma blocks_full [simp]: "length b = 64 \<Longrightarrow> blocks (b @ c) = b # blocks c"
  by (simp add: blocks.simps [of "b @ c"])

lemma tail_block_short [simp]: "length bs < 64 \<Longrightarrow> tail_block bs = bs"
  by (simp add: tail_block_def)

lemma tail_block_full [simp]: "length b = 64 \<Longrightarrow> tail_block (b @ c) = tail_block c"
proof -
  have "(64 + length c) div 64 = length c div 64 + 1" by (rule div_add_self1) simp
  then show "length b = 64 \<Longrightarrow> ?thesis" by (simp add: tail_block_def)
qed

lemma length_tail_block: "length (tail_block bs) = length bs mod 64"
  by (simp add: tail_block_def minus_div_mult_eq_mod [symmetric] mult.commute)

lemma split_full: "64 \<le> length bs \<Longrightarrow> \<exists>b c. bs = b @ c \<and> length b = 64"
  by (rule exI [of _ "take 64 bs"], rule exI [of _ "drop 64 bs"]) simp

lemma blocks_append: "blocks (xs @ ys) = blocks xs @ blocks (tail_block xs @ ys)"
proof (induction "length xs" arbitrary: xs rule: less_induct)
  case less
  show ?case
  proof (cases "length xs < 64")
    case False
    then obtain b c where "xs = b @ c" "length b = 64" using split_full [of xs] by auto
    with less show ?thesis by simp
  qed simp
qed

lemma tail_block_append: "tail_block (tail_block xs @ ys) = tail_block (xs @ ys)"
proof (induction "length xs" arbitrary: xs rule: less_induct)
  case less
  show ?case
  proof (cases "length xs < 64")
    case False
    then obtain b c where "xs = b @ c" "length b = 64" using split_full [of xs] by auto
    with less show ?thesis by simp
  qed simp
qed

lemma length_memcpy: "off + length src \<le> length dst \<Longrightarrow> length (memcpy dst off src) = length dst"
  by (simp add: memcpy_def)

lemma memcpy_append: "length p = off \<Longrightarrow> memcpy (p @ r) off src = p @ src @ drop (length src) r"
  by (simp add: memcpy_def)

section \<open>The streaming code computes SHA-256\<close>

definition sha_inv :: "Sha256 \<Rightarrow> bool" where
  "sha_inv s \<longleftrightarrow> length (sbuf s) = 64 \<and> blen s < 64"

abbreviation held :: "Sha256 \<Rightarrow> u8 list" where
  "held s \<equiv> take (blen s) (sbuf s)"

lemma update_loop_held:
  "sha_inv s \<Longrightarrow> sha_inv (update_loop s data) \<and>
   st (update_loop s data) = foldl compress (st s) (blocks (held s @ data)) \<and>
   held (update_loop s data) = tail_block (held s @ data) \<and>
   bits (update_loop s data) = bits s"
proof (induction s data rule: update_loop.induct)
  case (1 s data)
  let ?n = "min (64 - blen s) (length data)"
  let ?buf = "memcpy (sbuf s) (blen s) (take ?n data)"
  let ?s1 = "s\<lparr>sbuf := ?buf, blen := blen s + ?n\<rparr>"
  let ?s2 = "if blen ?s1 = 64 then ?s1\<lparr>st := compress (st ?s1) (sbuf ?s1), blen := 0\<rparr> else ?s1"
  from "1.prems" have len: "length (sbuf s) = 64" "blen s < 64" "length (held s) = blen s"
    by (simp_all add: sha_inv_def)
  show ?case
  proof (cases "data = []")
    case True
    with "1.prems" len show ?thesis by (simp add: update_loop.simps)
  next
    case False
    have step: "update_loop s data = update_loop ?s2 (drop ?n data)"
      using False len by (subst update_loop.simps) (simp add: Let_def)
    have buf: "length ?buf = 64" "take (blen s + ?n) ?buf = held s @ take ?n data"
      using len by (auto simp: memcpy_def)
    have inv2: "sha_inv ?s2" using len buf by (auto simp: sha_inv_def)
    note IH = "1.IH" [of ?n ?s1 ?s2, OF _ refl refl refl inv2]
    show ?thesis
    proof (cases "64 - blen s \<le> length data")
      case True
      then have full: "?n = 64 - blen s" "?buf = held s @ take ?n data"
        using len buf by (simp_all add: memcpy_def)
      have "held s @ data = (held s @ take ?n data) @ drop ?n data" by simp
      then have "blocks (held s @ data) = ?buf # blocks (drop ?n data)"
        "tail_block (held s @ data) = tail_block (drop ?n data)"
        using buf(1) full(2) by (metis blocks_full, metis tail_block_full)
      then show ?thesis using IH False len full(1) step by simp
    next
      case fits: False
      then have "length (held s @ data) < 64" "?n = length data" "blen s + length data \<noteq> 64"
        using len by auto
      then show ?thesis
        using IH False len step buf by (simp add: update_loop.simps)
    qed
  qed
qed

lemma length_be64 [simp]: "length (be64 n) = 8"
  by (simp add: be64_def)

lemma finish_held:
  assumes "sha_inv s"
  shows "Sha256_finish s = concat (map store_be32 (foldl compress (st s)
    (blocks (held s @ 0x80 # replicate (pad_zeros (blen s)) 0 @ be64 (bits s)))))"
proof -
  let ?l = "held s"
  from assms have len: "length (sbuf s) = 64" "blen s < 64" "length ?l = blen s"
    by (simp_all add: sha_inv_def)
  have b1: "take (Suc (blen s)) ((sbuf s)[blen s := 0x80]) = ?l @ [0x80]"
    using len by (simp add: take_Suc_conv_app_nth)
  show ?thesis
  proof (cases "blen s \<le> 55")
    case True
    then have z: "pad_zeros (blen s) = 55 - blen s" by (simp add: pad_zeros_def)
    let ?b3 = "memcpy ((sbuf s)[blen s := 0x80]) (Suc (blen s)) (replicate (55 - blen s) 0)"
    let ?p = "?l @ 0x80 # replicate (55 - blen s) 0"
    have "?b3 = ?p @ drop 56 (sbuf s)" "length ?p = 56"
      using True len b1 by (simp_all add: memcpy_def)
    then have "memcpy ?b3 56 (be64 (bits s)) = ?l @ 0x80 # replicate (55 - blen s) 0 @ be64 (bits s)"
      using len memcpy_append [of ?p 56 "drop 56 (sbuf s)" "be64 (bits s)"] by simp
    then show ?thesis
      using True len z blocks_full [of "?l @ 0x80 # replicate (55 - blen s) 0 @ be64 (bits s)" "[]"]
      by (simp add: Sha256_finish_def Let_def be64_def [symmetric])
  next
    case False
    then have z: "pad_zeros (blen s) = (63 - blen s) + 56" using len by (simp add: pad_zeros_def)
    let ?b2 = "memcpy ((sbuf s)[blen s := 0x80]) (Suc (blen s)) (replicate (63 - blen s) 0)"
    let ?b1 = "?l @ 0x80 # replicate (63 - blen s) 0"
    have b2: "?b2 = ?b1" "length ?b2 = 64"
      using False len b1 by (simp_all add: memcpy_def)
    have b4: "memcpy (memcpy ?b1 0 (replicate 56 0)) 56 (be64 (bits s)) = replicate 56 0 @ be64 (bits s)"
      using len by (simp add: memcpy_def)
    have "blocks (?b1 @ replicate 56 0 @ be64 (bits s)) = [?b1, replicate 56 0 @ be64 (bits s)]"
      using b2 blocks_full [of "replicate 56 0 @ be64 (bits s)" "[]"]
        blocks_full [of ?b1 "replicate 56 0 @ be64 (bits s)"] by simp
    then have "blocks (?l @ 0x80 # replicate (pad_zeros (blen s)) 0 @ be64 (bits s)) =
        [?b1, replicate 56 0 @ be64 (bits s)]"
      by (simp add: z replicate_add)
    then show ?thesis
      using False b4 b2(1) by (simp add: Sha256_finish_def Let_def be64_def [symmetric])
  qed
qed

definition sha_absorbed :: "Sha256 \<Rightarrow> u8 list \<Rightarrow> bool" where
  "sha_absorbed s m \<longleftrightarrow> sha_inv s \<and> st s = foldl compress Sha256_H0 (blocks m) \<and>
     held s = tail_block m \<and> bits s = word_of_nat (8 * length m)"

lemma finish_absorbed:
  assumes "sha_absorbed s m"
  shows "Sha256_finish s = sha256_spec m"
proof -
  from assms have "sha_inv s" by (simp add: sha_absorbed_def)
  then have "length (held s) = blen s" by (simp add: sha_inv_def)
  moreover have "held s = tail_block m" using assms by (simp add: sha_absorbed_def)
  ultimately have "blen s = length m mod 64" by (simp add: length_tail_block)
  then have "pad_zeros (blen s) = pad_zeros (length m)" by (simp add: pad_zeros_def)
  then show ?thesis
    using assms finish_held [of s]
    by (simp add: sha_absorbed_def sha256_spec_def sha256_pad_def blocks_append [of m])
qed

lemma update_absorbed: "sha_absorbed s m \<Longrightarrow> sha_absorbed (Sha256_update s m') (m @ m')"
proof -
  assume a: "sha_absorbed s m"
  let ?s = "s\<lparr>bits := bits s + word_of_nat (length m') * 8\<rparr>"
  from a have "sha_inv ?s" by (simp add: sha_absorbed_def sha_inv_def)
  note u = update_loop_held [OF this, of m']
  show ?thesis
    using u a unfolding sha_absorbed_def Sha256_update_def
    by (simp add: tail_block_append blocks_append [of m] algebra_simps)
qed

lemma absorbed_garbage: "length g = 64 \<Longrightarrow> sha_absorbed (Sha256_new\<lparr>sbuf := g\<rparr>) []"
  by (simp add: sha_absorbed_def sha_inv_def Sha256_new_def tail_block_def)

interpretation sha: stream_hash Sha256_new Sha256_update Sha256_finish sha_absorbed sha256_spec
proof
  show "sha_absorbed Sha256_new []"
    by (simp add: sha_absorbed_def sha_inv_def Sha256_new_def tail_block_def)
qed (simp_all add: update_absorbed finish_absorbed)

lemma length_compress [simp]: "length (compress s b) = 8"
  by (simp add: compress_def Let_def split: prod.split)

lemma length_sha256_spec [simp]: "length (sha256_spec m) = 32"
proof -
  have "length (foldl compress Sha256_H0 bs) = 8" for bs
    by (cases bs rule: rev_cases) (simp_all add: Sha256_H0_def)
  moreover have "length (concat (map store_be32 ws)) = 4 * length ws" for ws
    by (induction ws) simp_all
  ultimately show ?thesis by (simp add: sha256_spec_def)
qed

section \<open>HMAC as in RFC 2104\<close>

definition hmac_key :: "(u8 list \<Rightarrow> u8 list) \<Rightarrow> u8 list \<Rightarrow> u8 list" where
  "hmac_key H key = (let k = (if 64 < length key then H key else key) in k @ replicate (64 - length k) 0)"

definition hmac_spec :: "(u8 list \<Rightarrow> u8 list) \<Rightarrow> u8 list \<Rightarrow> u8 list \<Rightarrow> u8 list" where
  "hmac_spec H key msg =
     H (map (\<lambda>b. b XOR 0x5c) (hmac_key H key) @ H (map (\<lambda>b. b XOR 0x36) (hmac_key H key) @ msg))"

lemma hash_is_spec: "Sha256_hash m = sha256_spec m"
  by (simp add: Sha256_hash_def sha.hash_one)

lemma hmac_is_spec: "hmac_sha256 key msg = hmac_spec sha256_spec key msg"
  by (simp add: hmac_sha256_def hmac_spec_def hmac_key_def Let_def sha.hash_two hash_is_spec memcpy_def)

lemma length_hmac [simp]: "length (hmac_sha256 key msg) = 32"
  by (simp add: hmac_is_spec hmac_spec_def)

section \<open>PBKDF2 as in RFC 8018\<close>

abbreviation xor_bytes :: "u8 list \<Rightarrow> u8 list \<Rightarrow> u8 list" where
  "xor_bytes \<equiv> map2 (\<lambda>x y. x XOR y)"

primrec pbkdf2_U :: "(u8 list \<Rightarrow> u8 list \<Rightarrow> u8 list) \<Rightarrow> u8 list \<Rightarrow> u8 list \<Rightarrow> u32 \<Rightarrow> nat \<Rightarrow> u8 list" where
  "pbkdf2_U mac P S i 0 = mac P (S @ store_be32 i)"
| "pbkdf2_U mac P S i (Suc n) = mac P (pbkdf2_U mac P S i n)"

definition pbkdf2_F :: "(u8 list \<Rightarrow> u8 list \<Rightarrow> u8 list) \<Rightarrow> u8 list \<Rightarrow> u8 list \<Rightarrow> nat \<Rightarrow> u32 \<Rightarrow> u8 list" where
  "pbkdf2_F mac P S c i = foldl xor_bytes (pbkdf2_U mac P S i 0) (map (pbkdf2_U mac P S i) [1..<c])"

definition pbkdf2_spec :: "(u8 list \<Rightarrow> u8 list \<Rightarrow> u8 list) \<Rightarrow> u8 list \<Rightarrow> u8 list \<Rightarrow> nat \<Rightarrow> nat \<Rightarrow> u8 list" where
  "pbkdf2_spec mac P S c dk_len =
     take dk_len (concat (map (\<lambda>i. pbkdf2_F mac P S c (word_of_nat (Suc i))) [0..<(dk_len + 31) div 32]))"

locale pseudo_random_function =
  fixes mac :: "u8 list \<Rightarrow> u8 list \<Rightarrow> u8 list"
  assumes length_mac: "length (mac k m) = 32"
begin

lemma length_U [simp]: "length (pbkdf2_U mac P S i n) = 32"
  by (cases n) (simp_all add: length_mac)

lemma length_F [simp]: "length (pbkdf2_F mac P S c i) = 32"
proof -
  have "length (foldl xor_bytes t (map (pbkdf2_U mac P S i) ns)) = 32" if "length t = 32" for t ns
    using that by (induction ns arbitrary: t) simp_all
  from this [OF length_mac] show ?thesis by (simp add: pbkdf2_F_def)
qed

lemma length_blocks: "length (concat (map (\<lambda>i. pbkdf2_F mac P S c (f i)) ns)) = 32 * length ns"
  by (induction ns) simp_all

lemma length_pbkdf2_spec: "length (pbkdf2_spec mac P S c dk_len) = dk_len"
proof -
  have "dk_len \<le> 32 * ((dk_len + 31) div 32)" by presburger
  then show ?thesis by (simp add: pbkdf2_spec_def length_blocks)
qed

end

interpretation hmac: pseudo_random_function hmac_sha256
  by unfold_locales simp

lemma iterate_is_foldl:
  "pbkdf2_iterate n P (pbkdf2_U hmac_sha256 P S i k) t =
   foldl xor_bytes t (map (pbkdf2_U hmac_sha256 P S i) [Suc k..<Suc k + n])"
proof (induction n arbitrary: k t)
  case (Suc n)
  have "[Suc k..<Suc k + Suc n] = Suc k # [Suc (Suc k)..<Suc (Suc k) + n]"
    by (simp add: upt_conv_Cons del: upt_Suc)
  then show ?case using Suc [of "Suc k"] by (simp del: upt_Suc)
qed simp

lemma block_is_F: "pbkdf2_block P S c i = pbkdf2_F hmac_sha256 P S (unat c) i"
proof -
  have "[Suc 0..<Suc 0 + (unat c - 1)] = [1..<unat c]" by (cases "unat c") (simp_all del: upt_Suc)
  then show ?thesis
    using iterate_is_foldl [of "unat c - 1" P S i 0]
    by (simp add: pbkdf2_block_def pbkdf2_F_def Let_def store_be32_def byte_simps del: upt_Suc)
qed

lemma ceil32_step: "0 < r \<Longrightarrow> (r + 31) div 32 = Suc ((r - 32 + 31) div 32)" for r :: nat
proof (cases "32 \<le> r")
  case True
  then have "r + 31 = 32 + (r - 32 + 31)" by simp
  then show ?thesis by (simp only: div_add_self1)
next
  case False
  moreover assume "0 < r"
  ultimately have "(r + 31) div 32 = 1" by (intro div_nat_eqI) simp_all
  with False show ?thesis by simp
qed

lemma loop_is_spec:
  "pbkdf2_loop P S c out_len pos block out =
   out @ take (out_len - pos) (concat (map (\<lambda>i. pbkdf2_block P S c (block + word_of_nat i))
     [0..<(out_len - pos + 31) div 32]))"
proof (induction "out_len - pos" arbitrary: pos block out rule: less_induct)
  case less
  let ?f = "\<lambda>b i. pbkdf2_block P S c (b + word_of_nat i)"
  show ?case
  proof (cases "pos < out_len")
    case True
    let ?n = "min 32 (out_len - pos)" and ?m = "(out_len - pos - 32 + 31) div 32"
    have rem: "out_len - (pos + ?n) = out_len - pos - 32" by simp
    have "pbkdf2_loop P S c out_len (pos + ?n) (block + 1) (out @ take ?n (?f block 0)) =
      (out @ take ?n (?f block 0)) @ take (out_len - (pos + ?n))
        (concat (map (?f (block + 1)) [0..<(out_len - (pos + ?n) + 31) div 32]))"
      by (rule less) (use True in auto)
    then have IH: "pbkdf2_loop P S c out_len pos block out =
      out @ take ?n (?f block 0) @ take (out_len - pos - 32) (concat (map (?f (block + 1)) [0..<?m]))"
      using True by (simp add: rem pbkdf2_loop.simps [of P S c out_len pos] Let_def)
    have m: "(out_len - pos + 31) div 32 = Suc ?m" using True by (intro ceil32_step) simp
    have "map (?f block) [0..<Suc ?m] = ?f block 0 # map (?f (block + 1)) [0..<?m]"
      by (simp add: map_upt_Suc algebra_simps del: upt_Suc)
    moreover have "length (?f block 0) = 32" by (simp add: block_is_F)
    then have "take (out_len - pos) (?f block 0) = take ?n (?f block 0)"
      by (cases "32 \<le> out_len - pos") simp_all
    ultimately show ?thesis
      unfolding m IH by (simp add: block_is_F del: upt_Suc)
  next
    case False
    then show ?thesis by (simp add: pbkdf2_loop.simps)
  qed
qed

lemma pbkdf2_is_spec:
  "pbkdf2_hmac_sha256 password salt c n = pbkdf2_spec hmac_sha256 (bytes_of password) salt (unat c) n"
  by (simp add: pbkdf2_hmac_sha256_def loop_is_spec pbkdf2_spec_def block_is_F algebra_simps)

lemma length_pbkdf2 [simp]: "length (pbkdf2_hmac_sha256 password salt c n) = n"
  by (simp add: pbkdf2_is_spec hmac.length_pbkdf2_spec)

section \<open>Password hashes\<close>

lemma diff_zero_iff:
  "length xs = length ys \<Longrightarrow> foldl (OR) (0 :: u8) (xor_bytes xs ys) = 0 \<longleftrightarrow> xs = ys"
proof -
  have acc: "foldl (OR) d zs = 0 \<longleftrightarrow> d = 0 \<and> (\<forall>z\<in>set zs. z = 0)" for d :: u8 and zs
    by (induction zs arbitrary: d) (auto simp: or_eq_0_iff)
  have xor: "x XOR y = 0 \<longleftrightarrow> x = y" for x y :: u8
    by (metis xor_self_eq xor.assoc xor.right_neutral xor.left_neutral)
  show "length xs = length ys \<Longrightarrow> ?thesis"
    by (induction xs ys rule: list_induct2) (auto simp: acc xor)
qed

text \<open>
  When \<open>verify_password_hash\<close> accepts: the record has two dollar signs, a number before the
  first, and the bytes after the second are the key derived from the bytes between them.
\<close>

definition accepts :: "string \<Rightarrow> string \<Rightarrow> string \<Rightarrow> string \<Rightarrow> bool" where
  "accepts p a b c =
     (case stoul a of
        None \<Rightarrow> False
      | Some n \<Rightarrow> base64_decode b \<noteq> [] \<and> base64_decode c \<noteq> [] \<and>
          pbkdf2_hmac_sha256 p (base64_decode b) (ucast n) (length (base64_decode c)) = base64_decode c)"

lemma accepts_iff:
  "accepts p a b c \<longleftrightarrow>
   (\<exists>n. stoul a = Some n \<and> base64_decode b \<noteq> [] \<and> base64_decode c \<noteq> [] \<and>
      pbkdf2_hmac_sha256 p (base64_decode b) (ucast n) (length (base64_decode c)) = base64_decode c)"
  by (simp add: accepts_def split: option.split)

lemma verify_record:
  assumes "CHR ''$'' \<notin> set a" and "CHR ''$'' \<notin> set b"
  shows "verify_password_hash p (a @ ''$'' @ b @ ''$'' @ c) = accepts p a b c"
proof -
  let ?s = "a @ ''$'' @ b @ ''$'' @ c"
  have p1: "str_find ?s (CHR ''$'') 0 = Some (length a)"
    using str_find_append [of "[]" 0 "CHR ''$''" a] assms by simp
  have p2: "str_find ?s (CHR ''$'') (length a + 1) = Some (length a + 1 + length b)"
    using str_find_append [of "a @ ''$''" "length a + 1" "CHR ''$''" b c] assms by simp
  show ?thesis
    by (auto simp: verify_password_hash_def accepts_def p1 [simplified] p2 [simplified] Let_def
        diff_zero_iff split: option.split)
qed

lemma verify_iff:
  "verify_password_hash p s \<longleftrightarrow>
   (\<exists>a b c. s = a @ ''$'' @ b @ ''$'' @ c \<and> CHR ''$'' \<notin> set a \<and> CHR ''$'' \<notin> set b \<and> accepts p a b c)"
  (is "_ = ?R")
proof
  assume v: "verify_password_hash p s"
  then obtain p1 p2 where f: "str_find s (CHR ''$'') 0 = Some p1" "str_find s (CHR ''$'') (p1 + 1) = Some p2"
    by (auto simp: verify_password_hash_def split: option.splits)
  from str_find_SomeD [OF f(1)] obtain a r where ar: "s = a @ ''$'' @ r" "CHR ''$'' \<notin> set a" "length a = p1"
    by auto
  from str_find_SomeD [OF f(2)] ar obtain b c where bc: "r = b @ ''$'' @ c" "CHR ''$'' \<notin> set b"
    by auto
  show ?R using v ar bc verify_record [of a b p c] by auto
next
  assume ?R
  then show "verify_password_hash p s" using verify_record by blast
qed

lemma accepts_record:
  assumes "salt \<noteq> []" and "want \<noteq> []"
  shows "accepts p (show_nat (unat (iter :: u32))) (base64_encode salt) (base64_encode want) \<longleftrightarrow>
   pbkdf2_hmac_sha256 p salt iter (length want) = want"
proof -
  have "unat iter < 2 ^ 64"
    using unsigned_less [of iter, where ?'a = nat] by (rule less_trans) simp
  then have it: "stoul (show_nat (unat iter)) = Some (ucast iter)"
    using stoul_show_nat [of "unat iter" "[]"] by simp
  have uc: "ucast (ucast iter :: u64) = iter"
    by (rule bit_word_eqI) (auto simp: bit_simps)
  show ?thesis
    using assms by (simp add: accepts_def it uc base64_roundtrip)
qed

lemma verify_made:
  assumes "length salt = 16"
  shows "verify_password_hash q (make_password_hash salt p iter) \<longleftrightarrow>
    pbkdf2_hmac_sha256 q salt iter 32 = pbkdf2_hmac_sha256 p salt iter 32"
proof -
  let ?dk = "pbkdf2_hmac_sha256 p salt iter 32"
  have ne: "salt \<noteq> []" "?dk \<noteq> []"
    using assms length_pbkdf2 [of p salt iter 32] by (auto simp del: length_pbkdf2)
  have nd: "CHR ''$'' \<notin> set (show_nat (unat iter))"
    using show_nat_digits [of "unat iter"] by (auto simp: isdigit_def Let_def)
  show ?thesis
    using accepts_record [OF ne, of q iter] verify_record [OF nd base64_no_dollar [of salt]]
    by (simp add: make_password_hash_def Let_def)
qed

section \<open>Properties\<close>



text \<open>
  The digest of the message \<open>abc\<close> is the published answer of FIPS 180-4, so that the
  constants and the rounds, and not only the padding and the chaining, are those of SHA-256.
\<close>

theorem sha256_known_answer:
  "hex_encode (Sha256_hash (bytes_of ''abc'')) =
   ''ba7816bf8f01cfea414140de5dae2223b00361a396177a9cb410ff61f20015ad''"
  by code_simp

text \<open>
  C29. HMAC and PBKDF2 are those of RFC 2104 and RFC 8018: \<open>hmac_sha256\<close> is the nested hash
  of the padded key, and \<open>pbkdf2_hmac_sha256\<close> the concatenation of the blocks
  \<open>F (P, S, c, i)\<close>, cut to the length asked for.
\<close>

theorem pbkdf2_hmac_correct:
  "hmac_sha256 key msg = hmac_spec sha256_spec key msg \<and>
   pbkdf2_hmac_sha256 password salt c n =
     pbkdf2_spec (hmac_spec sha256_spec) (bytes_of password) salt (unat c) n \<and>
   length (pbkdf2_hmac_sha256 password salt c n) = n"
proof -
  have "hmac_sha256 = hmac_spec sha256_spec" by (intro ext) (rule hmac_is_spec)
  then show ?thesis
    using pbkdf2_is_spec [of password salt c n] hmac.length_pbkdf2_spec [of "bytes_of password" salt "unat c" n]
    by simp
qed

text \<open>
  Password hashes round-trip: the record that \<open>make_password_hash\<close> writes is accepted by
  \<open>verify_password_hash\<close> for a password exactly when that password derives the same key as
  the original one under the stored salt and iteration count; so the original password is
  always accepted.
\<close>

theorem password_roundtrip:
  assumes "length salt = 16"
  shows "verify_password_hash p (make_password_hash salt p iter) \<and>
   (verify_password_hash p' (make_password_hash salt p iter) \<longleftrightarrow>
      pbkdf2_hmac_sha256 p' salt iter 32 = pbkdf2_hmac_sha256 p salt iter 32)"
  using verify_made [OF assms] by blast

theorem password_roundtrip_witness:
  "verify_password_hash ''hunter2'' (make_password_hash (replicate 16 7) ''hunter2'' 100000)"
  using password_roundtrip [of "replicate 16 7" "''hunter2''" 100000 "''hunter2''"] by simp

text \<open>
  Exactly the well-formed records are accepted: \<open>verify_password_hash\<close> answers true if
  and only if the record has the shape \<open>iterations $ salt $ hash\<close>, with a number that
  \<open>stoul\<close> reads, a non-empty salt and a non-empty hash, and the hash is the PBKDF2 key of the
  given password. Every other record is refused, for every password.
\<close>

theorem verify_password_exact:
  "verify_password_hash p s \<longleftrightarrow>
   (\<exists>a b c n. s = a @ ''$'' @ b @ ''$'' @ c \<and> CHR ''$'' \<notin> set a \<and> CHR ''$'' \<notin> set b \<and>
      stoul a = Some n \<and> base64_decode b \<noteq> [] \<and> base64_decode c \<noteq> [] \<and>
      pbkdf2_hmac_sha256 p (base64_decode b) (ucast n) (length (base64_decode c)) = base64_decode c)"
  unfolding verify_iff accepts_iff by blast

end
