(* ===== verification/Session.thy ===== *)
theory Session
  imports Repositories Crypto
begin

text \<open>
  \<open>SessionManager\<close> of \<open>src/include/auth/session.h\<close> and \<open>src/src/auth/session.cpp\<close>: a cache of
  sessions in front of the session table of the store. The store operations the manager
  calls are arguments, and the contract of the store is the locale \<open>session_store\<close>. The
  reading of the clock and the bytes of \<open>util::random_bytes\<close> are arguments too. The server
  always passes a store, so \<open>repos_\<close> is never null. The lifetimes are \<open>std::int64_t\<close>
  values, added and multiplied at that width and compared as signed numbers.

  The lemmas show that dropping expired entries on access is not observable, and that a
  manager warmed from the store after a restart accepts the tokens that the old one did.
\<close>

section \<open>The code\<close>

record SessionInfo =
  si_user_id :: user_id
  si_expires_at_ms :: i64

record SessionManager =
  ttl_seconds :: i64
  session_cache :: "(string \<times> SessionInfo) list"

definition SessionManager_new :: "i64 \<Rightarrow> SessionManager" where
  "SessionManager_new ttl = \<lparr>ttl_seconds = (if 0 < sint ttl then ttl else 86400), session_cache = []\<rparr>"

definition warm_row :: "i64 \<Rightarrow> SessionRow \<Rightarrow> SessionManager \<Rightarrow> SessionManager" where
  "warm_row now_ms row sm =
     (let exp = sr_last_active_ms row + ttl_seconds sm * 1000 in
      if sint exp \<le> sint now_ms then sm
      else sm\<lparr>session_cache := AList.update (sr_token row)
             \<lparr>si_user_id = sr_user_id row, si_expires_at_ms = exp\<rparr> (session_cache sm)\<rparr>)"

definition warm :: "('r \<Rightarrow> SessionRow list) \<Rightarrow> i64 \<Rightarrow> 'r \<Rightarrow> SessionManager \<Rightarrow> SessionManager" where
  "warm load now_ms r sm = fold (warm_row now_ms) (load r) sm"

definition create ::
  "(string \<Rightarrow> user_id \<Rightarrow> i64 \<Rightarrow> 'r \<Rightarrow> 'r) \<Rightarrow> u8 list \<Rightarrow> i64 \<Rightarrow> user_id \<Rightarrow> SessionManager \<times> 'r \<Rightarrow> string \<times> SessionManager \<times> 'r"
where
  "create ins buf now_ms uid sr =
     (let (sm, r) = sr;
          token = make_session_token buf;
          exp_ms = now_ms + ttl_seconds sm * 1000
      in (token,
          sm\<lparr>session_cache := AList.update token \<lparr>si_user_id = uid, si_expires_at_ms = exp_ms\<rparr> (session_cache sm)\<rparr>,
          ins token uid now_ms r))"

definition validate :: "i64 \<Rightarrow> string \<Rightarrow> SessionManager \<Rightarrow> SessionInfo option \<times> SessionManager" where
  "validate now_ms token sm =
     (case map_of (session_cache sm) token of
        None \<Rightarrow> (None, sm)
      | Some info \<Rightarrow>
          if sint (si_expires_at_ms info) \<le> sint now_ms
          then (None, sm\<lparr>session_cache := AList.delete token (session_cache sm)\<rparr>)
          else (Some info, sm))"

definition touch :: "i64 \<Rightarrow> string \<Rightarrow> SessionManager \<Rightarrow> SessionManager" where
  "touch now_ms token sm =
     (case map_of (session_cache sm) token of
        None \<Rightarrow> sm
      | Some info \<Rightarrow>
          sm\<lparr>session_cache := AList.update token
             (info\<lparr>si_expires_at_ms := now_ms + ttl_seconds sm * 1000\<rparr>) (session_cache sm)\<rparr>)"

definition revoke :: "(string \<Rightarrow> 'r \<Rightarrow> 'r) \<Rightarrow> string \<Rightarrow> SessionManager \<times> 'r \<Rightarrow> SessionManager \<times> 'r" where
  "revoke del token sr =
     (let (sm, r) = sr in (sm\<lparr>session_cache := AList.delete token (session_cache sm)\<rparr>, del token r))"

section \<open>Sessions that are in force\<close>

text \<open>The user a token stands for at a time, as the cache has it and as the table has it.\<close>

definition valid_at :: "SessionManager \<Rightarrow> i64 \<Rightarrow> string \<Rightarrow> user_id option" where
  "valid_at sm t tok =
     (case map_of (session_cache sm) tok of
        None \<Rightarrow> None
      | Some info \<Rightarrow> if sint t < sint (si_expires_at_ms info) then Some (si_user_id info) else None)"

definition row_valid_at :: "i64 \<Rightarrow> SessionRow list \<Rightarrow> i64 \<Rightarrow> string \<Rightarrow> user_id option" where
  "row_valid_at ttl ss t tok =
     (case row_of ss tok of
        None \<Rightarrow> None
      | Some (uid, ts) \<Rightarrow> if sint t < sint (ts + ttl * 1000) then Some uid else None)"

lemma row_of_Nil: "row_of [] = Map.empty"
  by (simp add: row_of_def fun_eq_iff)

lemma validate_result: "map_option si_user_id (fst (validate now tok sm)) = valid_at sm now tok"
  by (simp add: validate_def valid_at_def split: option.split)

lemma validate_same_user: "fst (validate now tok sm) = Some info \<Longrightarrow> valid_at sm now tok = Some (si_user_id info)"
  using validate_result [of now tok sm] by simp

lemma validate_later:
  "sint now \<le> sint t \<Longrightarrow> valid_at (snd (validate now tok sm)) t tok' = valid_at sm t tok'"
  by (auto simp: validate_def valid_at_def map_of_delete_iff split: option.split)

lemma ttl_ops [simp]:
  "ttl_seconds (snd (validate now tok sm)) = ttl_seconds sm"
  "ttl_seconds (touch now tok sm) = ttl_seconds sm"
  "ttl_seconds (fst (snd (create ins buf now uid sr))) = ttl_seconds (fst sr)"
  "ttl_seconds (fst (revoke del tok sr)) = ttl_seconds (fst sr)"
  by (auto simp: validate_def touch_def create_def revoke_def split_beta Let_def split: option.split)

lemma warm_row_ttl [simp]: "ttl_seconds (warm_row now row sm) = ttl_seconds sm"
  by (simp add: warm_row_def Let_def)

lemma valid_at_warm_row:
  "sint now \<le> sint t \<Longrightarrow> valid_at (warm_row now row sm) t tok =
     (if tok = sr_token row \<and> sint t < sint (sr_last_active_ms row + ttl_seconds sm * 1000) then Some (sr_user_id row)
      else if tok = sr_token row \<and> sint now < sint (sr_last_active_ms row + ttl_seconds sm * 1000) then None
      else valid_at sm t tok)"
  by (auto simp: warm_row_def valid_at_def Let_def map_of_update_iff split: option.split)

lemma valid_at_warm_rows:
  assumes "distinct (map sr_token ss)" and "sint now \<le> sint t" and "\<forall>row\<in>set ss. map_of (session_cache sm) (sr_token row) = None"
  shows "valid_at (fold (warm_row now) ss sm) t tok =
    (case row_valid_at (ttl_seconds sm) ss t tok of Some uid \<Rightarrow> Some uid | None \<Rightarrow> valid_at sm t tok)"
  using assms(1,3)
proof (induction ss arbitrary: sm)
  case (Cons row ss)
  have "\<forall>row'\<in>set ss. map_of (session_cache (warm_row now row sm)) (sr_token row') = None"
    using Cons.prems by (auto simp: warm_row_def Let_def map_of_update_iff image_iff)
  from Cons.IH [OF _ this] Cons.prems have IH: "valid_at (fold (warm_row now) (row # ss) sm) t tok =
      (case row_valid_at (ttl_seconds sm) ss t tok of Some uid \<Rightarrow> Some uid | None \<Rightarrow> valid_at (warm_row now row sm) t tok)"
    by simp
  show ?case
  proof (cases "tok = sr_token row")
    case True
    then have "row_of ss tok = None" using Cons.prems(1) by (auto simp: row_of_def map_of_eq_None_iff image_iff)
    then have "row_valid_at (ttl_seconds sm) ss t tok = None" by (simp add: row_valid_at_def)
    with IH True Cons.prems(2) show ?thesis
      using valid_at_warm_row [OF assms(2), of row sm tok] assms(2)
      by (auto simp: row_valid_at_def row_of_def valid_at_def split: option.splits)
  next
    case False
    then have "valid_at (warm_row now row sm) t tok = valid_at sm t tok"
      using valid_at_warm_row [OF assms(2), of row sm tok] by simp
    moreover have "row_valid_at (ttl_seconds sm) (row # ss) t tok = row_valid_at (ttl_seconds sm) ss t tok"
      using False by (simp add: row_valid_at_def row_of_def)
    ultimately show ?thesis unfolding IH by metis
  qed
qed (simp add: row_valid_at_def row_of_def)

section \<open>The cache and the table agree\<close>

text \<open>The calls on a manager and its store, each with the reading of the clock it makes.\<close>

datatype session_op =
    Create "u8 list" user_id
  | Validate string
  | Revoke string

fun session_apply ::
  "(string \<Rightarrow> user_id \<Rightarrow> i64 \<Rightarrow> 'r \<Rightarrow> 'r) \<Rightarrow> (string \<Rightarrow> 'r \<Rightarrow> 'r) \<Rightarrow> i64 \<times> session_op \<Rightarrow> SessionManager \<times> 'r \<Rightarrow> SessionManager \<times> 'r"
where
  "session_apply ins del (now, Create buf uid) sr = snd (create ins buf now uid sr)"
| "session_apply ins del (now, Validate tok) sr = (snd (validate now tok (fst sr)), snd sr)"
| "session_apply ins del (now, Revoke tok) sr = revoke del tok sr"

text \<open>
  The abstract sessions: a table of the user and the start of every token, where nothing is
  ever dropped but by \<open>revoke\<close>.
\<close>

fun session_spec :: "i64 \<times> session_op \<Rightarrow> (string \<Rightarrow> (user_id \<times> i64) option) \<Rightarrow> (string \<Rightarrow> (user_id \<times> i64) option)" where
  "session_spec (now, Create buf uid) T = T(make_session_token buf \<mapsto> (uid, now))"
| "session_spec (now, Validate tok) T = T"
| "session_spec (now, Revoke tok) T = T(tok := None)"

lemma ttl_apply [simp]: "ttl_seconds (fst (session_apply ins del x sr)) = ttl_seconds (fst sr)"
  by (cases "(ins, del, x, sr)" rule: session_apply.cases) auto

context session_store
begin

definition synced :: "i64 \<Rightarrow> SessionManager \<times> 'r \<Rightarrow> bool" where
  "synced now sr \<longleftrightarrow> wf (snd sr) \<and>
     (\<forall>t tok. sint now \<le> sint t \<longrightarrow>
        valid_at (fst sr) t tok = row_valid_at (ttl_seconds (fst sr)) (load (snd sr)) t tok)"

lemma synced_later: "synced now sr \<Longrightarrow> sint now \<le> sint now' \<Longrightarrow> synced now' sr"
  by (auto simp: synced_def)

lemma synced_create: "synced now sr \<Longrightarrow> synced now (snd (create ins buf now uid sr))"
  by (auto simp: synced_def create_def Let_def split_beta wf_ins row_valid_at_def load_ins valid_at_def
      map_of_update_iff split: option.splits)

lemma synced_validate: "synced now sr \<Longrightarrow> synced now (snd (validate now tok (fst sr)), snd sr)"
  by (auto simp: synced_def validate_later)

lemma synced_revoke: "synced now sr \<Longrightarrow> synced now (revoke del tok sr)"
  by (auto simp: synced_def revoke_def split_beta wf_del row_valid_at_def load_del valid_at_def
      map_of_delete_iff split: option.splits)

lemma synced_run:
  assumes "synced now sr" and "sorted (map (sint \<circ> fst) ((now, x) # ops))"
  shows "synced (fst (last ((now, x) # ops))) (fold (session_apply ins del) ops sr)"
  using assms
proof (induction ops arbitrary: now x sr)
  case (Cons y ops)
  obtain now' op where y: "y = (now', op)" by fastforce
  have "synced now' sr" using Cons.prems y by (auto intro: synced_later)
  then have "synced now' (session_apply ins del y sr)"
    using y by (cases op) (simp_all only: session_apply.simps synced_create synced_validate synced_revoke)
  from Cons.IH [OF this, of op] Cons.prems y show ?case by (simp add: comp_def)
qed simp

text \<open>The table records the last creation of every token that was not revoked since.\<close>

lemma rows_run:
  "row_of (load (snd (fold (session_apply ins del) ops sr))) = fold session_spec ops (row_of (load (snd sr)))"
proof (induction ops arbitrary: sr)
  case (Cons y ops)
  have "row_of (load (snd (session_apply ins del y sr))) = session_spec y (row_of (load (snd sr)))"
    by (cases "(y, row_of (load (snd sr)))" rule: session_spec.cases)
      (simp_all add: create_def revoke_def split_beta Let_def load_ins load_del)
  with Cons show ?case by simp
qed simp

lemma ttl_run: "ttl_seconds (fst (fold (session_apply ins del) ops sr)) = ttl_seconds (fst sr)"
  by (induction ops arbitrary: sr) auto

lemma warmed:
  assumes "synced now sr" and "sint now \<le> sint t" and "ttl_seconds sm' = ttl_seconds (fst sr)" and "session_cache sm' = []"
  shows "valid_at (warm load now (snd sr) sm') t tok = valid_at (fst sr) t tok"
proof -
  have "distinct (map sr_token (load (snd sr)))" using assms(1) by (simp add: synced_def load_distinct)
  from valid_at_warm_rows [OF this assms(2), of sm' tok] assms show ?thesis
    by (simp add: warm_def synced_def valid_at_def [of sm'] split: option.split)
qed

end

text \<open>The store starts without sessions, so a new manager agrees with it.\<close>

lemma synced_start: "repos_inv r \<Longrightarrow> sessions r = [] \<Longrightarrow> memory_sessions.synced now (SessionManager_new ttl, r)"
  by (simp add: memory_sessions.synced_def SessionManager_new_def valid_at_def row_valid_at_def row_of_def
      load_all_sessions_def)

definition session_run :: "i64 \<Rightarrow> (i64 \<times> session_op) list \<Rightarrow> Repositories \<Rightarrow> SessionManager \<times> Repositories" where
  "session_run ttl ops r = fold (session_apply insert_session delete_session) ops (SessionManager_new ttl, r)"

lemma synced_session_run:
  assumes "repos_inv r" and "sessions r = []" and "sorted (map (sint \<circ> fst) (ops @ [(now, x)]))"
  shows "memory_sessions.synced now (session_run ttl ops r)"
proof (cases ops)
  case Nil
  with synced_start [OF assms(1,2)] show ?thesis by (simp add: session_run_def)
next
  case (Cons y ys)
  have "memory_sessions.synced (fst (last ((fst y, snd y) # ops))) (session_run ttl ops r)"
    unfolding session_run_def
    by (rule memory_sessions.synced_run [OF synced_start [OF assms(1,2)]]) (use assms(3) Cons in \<open>simp add: sorted_append\<close>)
  moreover have "sint (fst (last ((fst y, snd y) # ops))) \<le> sint now"
    using assms(3) Cons last_in_set [of ops] by (auto simp: sorted_append)
  ultimately show ?thesis by (rule memory_sessions.synced_later)
qed

section \<open>Properties\<close>

text \<open>
  C15. A token is accepted exactly while its session is in force: after a run of logins, checks
  and revocations, with a clock that does not go back, \<open>validate\<close> answers with the user
  of the last creation of the token, provided that it was not revoked since and its lifetime
  has not passed, and with nothing otherwise. Dropping expired entries on access
  is not observable.
\<close>

theorem session_lifetime:
  assumes "repos_inv r" and "sessions r = []" and "sorted (map (sint \<circ> fst) (ops @ [(t, Validate tok)]))"
  shows "map_option si_user_id (fst (validate t tok (fst (session_run ttl ops r)))) =
    (case fold session_spec ops Map.empty tok of
       Some (uid, start) \<Rightarrow>
         if sint t < sint (start + (if 0 < sint ttl then ttl else 86400) * 1000) then Some uid else None
     | None \<Rightarrow> None)"
proof -
  note S = synced_session_run [OF assms, of ttl]
  have "row_of (load_all_sessions (snd (session_run ttl ops r))) = fold session_spec ops Map.empty"
    using memory_sessions.rows_run [of ops "(SessionManager_new ttl, r)"] assms(2)
    by (simp add: session_run_def load_all_sessions_def row_of_Nil)
  moreover have "ttl_seconds (fst (session_run ttl ops r)) = (if 0 < sint ttl then ttl else 86400)"
    using memory_sessions.ttl_run [of ops "(SessionManager_new ttl, r)"]
    by (simp add: session_run_def SessionManager_new_def)
  moreover have "valid_at (fst (session_run ttl ops r)) t tok = row_valid_at (ttl_seconds (fst (session_run ttl ops r)))
      (load_all_sessions (snd (session_run ttl ops r))) t tok"
    using S by (simp add: memory_sessions.synced_def)
  ultimately show ?thesis unfolding validate_result row_valid_at_def by (simp only:)
qed

theorem session_lifetime_witness:
  "map_option si_user_id (fst (validate 1999 ''0a'' (fst (session_run 1 [(1000, Create [0x0a] 7)] Repositories_init)))) = Some 7 \<and>
   map_option si_user_id (fst (validate 2000 ''0a'' (fst (session_run 1 [(1000, Create [0x0a] 7)] Repositories_init)))) = None"
proof -
  have tok: "make_session_token [0x0a] = ''0a''"
    by (simp add: make_session_token_def hex_encode_def kHex_def)
  show ?thesis
    using session_lifetime [of Repositories_init "[(1000, Create [0x0a] 7)]" 1999 "''0a''" 1]
      session_lifetime [of Repositories_init "[(1000, Create [0x0a] 7)]" 2000 "''0a''" 1]
    by (simp add: tok) (simp add: Repositories_init_def)
qed



end
