(* ===== verification/Presence.thy ===== *)
theory Presence
  imports Repositories
begin

text \<open>
  \<open>Presence\<close> of \<open>src/include/chat/presence.h\<close> and \<open>src/src/chat/presence.cpp\<close>: which users are
  online and on which connections. The map of a user holds shared pointers to connections
  under their identifiers; here it is the list of those identifiers, and the connections
  themselves are in the state of the server. \<open>bind\<close> and \<open>unbind\<close> are the parts under the lock;
  the call of the transition handler that follows is in the theory of the router, which
  the handler calls.

  The lemmas relate the map to the set of pairs of a user and a connection, and show that
  the transitions reported for a user alternate.
\<close>

section \<open>The code\<close>

type_synonym Presence = "(user_id \<times> conn_id list) list"

definition Presence_bind :: "user_id \<Rightarrow> conn_id \<Rightarrow> Presence \<Rightarrow> bool \<times> Presence" where
  "Presence_bind uid c p =
     (let s = slot p uid;
          transitioned = (s = [])
      in (transitioned, AList.update uid (List.insert c s) p))"

definition Presence_unbind :: "user_id \<Rightarrow> conn_id \<Rightarrow> Presence \<Rightarrow> bool \<times> Presence" where
  "Presence_unbind uid c p =
     (case map_of p uid of
        None \<Rightarrow> (False, p)
      | Some s \<Rightarrow>
          (let s' = removeAll c s in
           if s' = [] then (True, AList.delete uid p) else (False, AList.update uid s' p)))"

definition connections_of :: "user_id \<Rightarrow> Presence \<Rightarrow> conn_id list" where
  "connections_of uid p = (case map_of p uid of None \<Rightarrow> [] | Some s \<Rightarrow> s)"

definition is_online :: "user_id \<Rightarrow> Presence \<Rightarrow> bool" where
  "is_online uid p = (map_of p uid \<noteq> None)"

section \<open>The relation between users and connections\<close>

text \<open>The invariant: one slot per user, never empty, without repetition.\<close>

definition presence_inv :: "Presence \<Rightarrow> bool" where
  "presence_inv p = (distinct (map fst p) \<and> (\<forall>(u, s)\<in>set p. s \<noteq> [] \<and> distinct s))"

definition bound :: "Presence \<Rightarrow> (user_id \<times> conn_id) set" where
  "bound p = {(u, c). c \<in> set (connections_of u p)}"

lemma slot_connections: "slot p u = connections_of u p"
  by (simp add: slot_def connections_of_def)

lemma presence_slot:
  assumes "presence_inv p" and "map_of p u = Some s"
  shows "s \<noteq> [] \<and> distinct s"
  using assms map_of_SomeD [OF assms(2)] by (auto simp: presence_inv_def)

lemma presence_inv_update:
  assumes "presence_inv p" and "s \<noteq> []" and "distinct s"
  shows "presence_inv (AList.update u s p)"
proof -
  have "s' \<noteq> [] \<and> distinct s'" if "(u', s') \<in> set (AList.update u s p)" for u' s'
    using set_update_cases [OF that] assms unfolding presence_inv_def by fastforce
  moreover have "distinct (map fst (AList.update u s p))"
    using assms(1) by (intro distinct_update) (simp add: presence_inv_def)
  ultimately show ?thesis unfolding presence_inv_def by blast
qed

lemma distinct_connections: "presence_inv p \<Longrightarrow> distinct (connections_of u p)"
  by (cases "map_of p u") (auto simp: connections_of_def dest: presence_slot)

lemma presence_inv_bind: "presence_inv p \<Longrightarrow> presence_inv (snd (Presence_bind u c p))"
  unfolding Presence_bind_def slot_connections Let_def snd_conv
  by (rule presence_inv_update) (auto simp: distinct_connections List.insert_def)

lemma presence_inv_unbind: "presence_inv p \<Longrightarrow> presence_inv (snd (Presence_unbind u c p))"
proof (cases "map_of p u")
  case (Some s)
  assume p: "presence_inv p"
  then have "presence_inv (AList.delete u p)"
    by (auto simp: presence_inv_def AList.delete_eq distinct_map_filter)
  then show ?thesis
    using Some p presence_slot [OF p Some] presence_inv_update [OF p, of "removeAll c s" u]
    by (simp add: Presence_unbind_def Let_def distinct_removeAll)
qed (simp add: Presence_unbind_def)

lemma connections_bind [simp]:
  "connections_of u' (snd (Presence_bind u c p)) = (if u' = u then List.insert c (connections_of u p) else connections_of u' p)"
  by (simp add: Presence_bind_def slot_connections Let_def connections_of_def map_of_update_iff)

lemma connections_unbind [simp]:
  "connections_of u' (snd (Presence_unbind u c p)) = (if u' = u then removeAll c (connections_of u p) else connections_of u' p)"
  by (auto simp: Presence_unbind_def Let_def connections_of_def map_of_update_iff map_of_delete_iff split: option.split)

lemma bound_bind: "bound (snd (Presence_bind u c p)) = insert (u, c) (bound p)"
  by (auto simp: bound_def split: if_splits)

lemma bound_unbind: "bound (snd (Presence_unbind u c p)) = bound p - {(u, c)}"
  by (auto simp: bound_def split: if_splits)

lemma online_iff: "presence_inv p \<Longrightarrow> is_online u p \<longleftrightarrow> connections_of u p \<noteq> []"
  by (cases "map_of p u") (auto simp: is_online_def connections_of_def dest: presence_slot)

lemma online_bind: "is_online u' (snd (Presence_bind u c p)) \<longleftrightarrow> u' = u \<or> is_online u' p"
  by (simp add: Presence_bind_def slot_connections Let_def is_online_def map_of_update_iff)

lemma online_unbind:
  "is_online u' (snd (Presence_unbind u c p)) \<longleftrightarrow> is_online u' p \<and> (u' = u \<longrightarrow> \<not> fst (Presence_unbind u c p))"
  by (cases "map_of p u"; cases "u' = u")
    (simp_all add: Presence_unbind_def Let_def is_online_def map_of_update_iff map_of_delete_iff)

lemma transition_bind: "presence_inv p \<Longrightarrow> fst (Presence_bind u c p) \<longleftrightarrow> \<not> is_online u p"
  by (simp add: online_iff Presence_bind_def slot_connections Let_def)

lemma transition_unbind: "fst (Presence_unbind u c p) \<Longrightarrow> is_online u p"
  by (auto simp: Presence_unbind_def is_online_def split: option.splits)

section \<open>Runs\<close>

datatype presence_op = Bind user_id conn_id | Unbind user_id conn_id

text \<open>A run, with the calls of the transition handler it makes.\<close>

fun presence_run :: "presence_op list \<Rightarrow> Presence \<Rightarrow> (user_id \<times> bool) list \<times> Presence" where
  "presence_run [] p = ([], p)"
| "presence_run (Bind u c # ops) p =
     (let (tr, p') = Presence_bind u c p; (ev, p'') = presence_run ops p'
      in ((if tr then [(u, True)] else []) @ ev, p''))"
| "presence_run (Unbind u c # ops) p =
     (let (off, p') = Presence_unbind u c p; (ev, p'') = presence_run ops p'
      in ((if off then [(u, False)] else []) @ ev, p''))"

text \<open>The reports on one user alternate, and start with the opposite of the first state.\<close>

fun alternates :: "bool \<Rightarrow> bool list \<Rightarrow> bool \<Rightarrow> bool" where
  "alternates b [] b' = (b = b')"
| "alternates b (e # es) b' = (e = (\<not> b) \<and> alternates e es b')"

definition reports :: "user_id \<Rightarrow> (user_id \<times> bool) list \<Rightarrow> bool list" where
  "reports u ev = map snd (filter (\<lambda>(u', b). u' = u) ev)"

lemma presence_run_alternates:
  "presence_inv p \<Longrightarrow> presence_run ops p = (ev, p') \<Longrightarrow>
   presence_inv p' \<and> alternates (is_online u p) (reports u ev) (is_online u p')"
proof (induction ops p arbitrary: ev p' rule: presence_run.induct)
  case (2 u1 c ops p)
  obtain tr p1 where b: "Presence_bind u1 c p = (tr, p1)" by fastforce
  obtain ev1 where r: "presence_run ops p1 = (ev1, p')" and ev: "ev = (if tr then [(u1, True)] else []) @ ev1"
    using 2(3) b by (auto simp: Let_def split: prod.splits)
  have "presence_inv p1" using presence_inv_bind [OF 2(2), of u1 c] b by simp
  from 2(1) [OF b [symmetric] refl this r] ev show ?case
    using online_bind [of u u1 c p] transition_bind [OF 2(2), of u1 c] b
    by (auto simp: reports_def)
next
  case (3 u1 c ops p)
  obtain off p1 where b: "Presence_unbind u1 c p = (off, p1)" by fastforce
  obtain ev1 where r: "presence_run ops p1 = (ev1, p')" and ev: "ev = (if off then [(u1, False)] else []) @ ev1"
    using 3(3) b by (auto simp: Let_def split: prod.splits)
  have "presence_inv p1" using presence_inv_unbind [OF 3(2), of u1 c] b by simp
  from 3(1) [OF b [symmetric] refl this r] ev show ?case
    using online_unbind [of u u1 c p] transition_unbind [of u1 c p] b
    by (auto simp: reports_def)
qed (simp add: reports_def)

text \<open>The abstract presence: a set of pairs.\<close>

fun presence_spec :: "presence_op \<Rightarrow> (user_id \<times> conn_id) set \<Rightarrow> (user_id \<times> conn_id) set" where
  "presence_spec (Bind u c) B = insert (u, c) B"
| "presence_spec (Unbind u c) B = B - {(u, c)}"

lemma presence_run_bound: "bound (snd (presence_run ops p)) = fold presence_spec ops (bound p)"
proof (induction ops arbitrary: p)
  case (Cons x ops)
  then show ?case by (cases x) (simp_all add: split_beta Let_def bound_bind bound_unbind)
qed simp

section \<open>Properties\<close>

text \<open>
  C17. Presence implements a set of pairs of a user and a connection: after any run of \<open>bind\<close> and
  \<open>unbind\<close> the connections of a user are those bound and not unbound since, each once; a
  user is online exactly when there is one; and the transitions reported for a user
  alternate between online and offline, the last one being the present state.
\<close>

theorem presence_refines:
  assumes "presence_run ops [] = (ev, p)"
  shows "(\<forall>u c. c \<in> set (connections_of u p) \<longleftrightarrow> (u, c) \<in> fold presence_spec ops {}) \<and>
    (\<forall>u. distinct (connections_of u p) \<and> (is_online u p \<longleftrightarrow> (\<exists>c. (u, c) \<in> fold presence_spec ops {})) \<and>
       alternates False (reports u ev) (is_online u p))"
proof -
  have B: "bound p = fold presence_spec ops {}"
    using presence_run_bound [of ops "[]"] assms by (simp add: bound_def connections_of_def)
  have inv: "presence_inv p" and alt: "alternates False (reports u ev) (is_online u p)" for u
    using presence_run_alternates [OF _ assms, of u] by (auto simp: presence_inv_def is_online_def)
  have mem: "c \<in> set (connections_of u p) \<longleftrightarrow> (u, c) \<in> fold presence_spec ops {}" for u c
    by (simp add: B [symmetric] bound_def)
  then have "is_online u p \<longleftrightarrow> (\<exists>c. (u, c) \<in> fold presence_spec ops {})" for u
    using online_iff [OF inv, of u] by (metis list.set_intros(1) neq_Nil_conv empty_iff empty_set)
  with mem alt distinct_connections [OF inv] show ?thesis by blast
qed

theorem presence_refines_witness:
  "let (ev, p) = presence_run [Bind 1 10, Bind 1 11, Unbind 1 10, Unbind 1 11, Bind 1 12] [] in
     reports 1 ev = [True, False, True] \<and> alternates False (reports 1 ev) (is_online 1 p) \<and> connections_of 1 p = [12]"
proof -
  let ?ops = "[Bind 1 10, Bind 1 11, Unbind 1 10, Unbind 1 11, Bind 1 12]"
  have run: "presence_run ?ops [] = ([(1, True), (1, False), (1, True)], [(1, [12])])"
    by (simp add: Presence_bind_def slot_connections Presence_unbind_def connections_of_def List.insert_def)
  from presence_refines [OF run] have "alternates False (reports 1 [(1, True), (1, False), (1, True)]) (is_online 1 [(1, [12])])"
    by blast
  then show ?thesis unfolding run by (simp add: reports_def connections_of_def)
qed

end
