(* ===== verification/Room_Manager.thy ===== *)
theory Room_Manager
  imports Repositories
begin

text \<open>
  \<open>RoomManager\<close> of \<open>src/include/chat/room_manager.h\<close> and \<open>src/src/chat/room_manager.cpp\<close>: a
  cache of the members of rooms, filled from the store on the first use of a room. The
  store operation the manager calls, \<open>list_room_members\<close>, is an argument, already applied to
  the state of the store; the contract is the locale \<open>membership_store\<close>.

  The lemmas show that the cache agrees with the table when every change of the table is
  followed by the call of \<open>on_join\<close> or \<open>on_leave\<close>, as the handlers do, so that the members
  the manager reports are those of the store.
\<close>

section \<open>The code\<close>

record RoomManager =
  room_cache :: "(room_id \<times> user_id list) list"
  room_loaded :: "room_id list"

definition RoomManager_new :: RoomManager where
  "RoomManager_new = \<lparr>room_cache = [], room_loaded = []\<rparr>"

definition ensure_loaded :: "(room_id \<Rightarrow> user_id list) \<Rightarrow> room_id \<Rightarrow> RoomManager \<Rightarrow> RoomManager" where
  "ensure_loaded members rm g =
     (if rm \<in> set (room_loaded g) then g
      else g\<lparr>room_cache := AList.update rm (remdups (members rm)) (room_cache g),
             room_loaded := List.insert rm (room_loaded g)\<rparr>)"

definition members_of :: "(room_id \<Rightarrow> user_id list) \<Rightarrow> room_id \<Rightarrow> RoomManager \<Rightarrow> user_id list \<times> RoomManager" where
  "members_of members rm g =
     (let g' = ensure_loaded members rm g
      in (case map_of (room_cache g') rm of None \<Rightarrow> [] | Some us \<Rightarrow> us, g'))"

definition manager_is_member ::
  "(room_id \<Rightarrow> user_id list) \<Rightarrow> room_id \<Rightarrow> user_id \<Rightarrow> RoomManager \<Rightarrow> bool \<times> RoomManager" where
  "manager_is_member members rm u g =
     (let g' = ensure_loaded members rm g
      in (case map_of (room_cache g') rm of None \<Rightarrow> False | Some us \<Rightarrow> u \<in> set us, g'))"

definition on_join :: "(room_id \<Rightarrow> user_id list) \<Rightarrow> room_id \<Rightarrow> user_id \<Rightarrow> RoomManager \<Rightarrow> RoomManager" where
  "on_join members rm u g =
     (let g' = ensure_loaded members rm g
      in g'\<lparr>room_cache := AList.update rm (List.insert u (slot (room_cache g') rm)) (room_cache g')\<rparr>)"

definition on_leave :: "room_id \<Rightarrow> user_id \<Rightarrow> RoomManager \<Rightarrow> RoomManager" where
  "on_leave rm u g =
     (case map_of (room_cache g) rm of
        None \<Rightarrow> g
      | Some us \<Rightarrow> g\<lparr>room_cache := AList.update rm (removeAll u us) (room_cache g)\<rparr>)"

definition invalidate :: "room_id \<Rightarrow> RoomManager \<Rightarrow> RoomManager" where
  "invalidate rm g =
     g\<lparr>room_cache := AList.delete rm (room_cache g), room_loaded := removeAll rm (room_loaded g)\<rparr>"

section \<open>Coherence\<close>

text \<open>
  The cache against a table: a room has an entry exactly when it is marked as loaded, and
  the entry lists the members of the table, each once.
\<close>

definition coherent :: "(room_id \<Rightarrow> user_id list) \<Rightarrow> RoomManager \<Rightarrow> bool" where
  "coherent members g \<longleftrightarrow>
     (\<forall>rm. case map_of (room_cache g) rm of
        None \<Rightarrow> rm \<notin> set (room_loaded g)
      | Some us \<Rightarrow> rm \<in> set (room_loaded g) \<and> distinct us \<and> set us = set (members rm))"

lemma coherentD:
  "coherent members g \<Longrightarrow> map_of (room_cache g) rm = Some us \<Longrightarrow>
     rm \<in> set (room_loaded g) \<and> distinct us \<and> set us = set (members rm)"
  "coherent members g \<Longrightarrow> map_of (room_cache g) rm = None \<Longrightarrow> rm \<notin> set (room_loaded g)"
  unfolding coherent_def by (drule spec [of _ rm], simp)+

lemma coherentI:
  assumes "\<And>rm us. map_of (room_cache g) rm = Some us \<Longrightarrow> rm \<in> set (room_loaded g) \<and> distinct us \<and> set us = set (members rm)"
    and "\<And>rm. map_of (room_cache g) rm = None \<Longrightarrow> rm \<notin> set (room_loaded g)"
  shows "coherent members g"
  unfolding coherent_def
proof
  fix rm
  show "case map_of (room_cache g) rm of None \<Rightarrow> rm \<notin> set (room_loaded g)
      | Some us \<Rightarrow> rm \<in> set (room_loaded g) \<and> distinct us \<and> set us = set (members rm)"
    using assms(1) [of rm] assms(2) [of rm] by (cases "map_of (room_cache g) rm") simp_all
qed

lemma coherent_new [simp]: "coherent members RoomManager_new"
  by (simp add: coherent_def RoomManager_new_def)

lemma ensure_loaded_coherent:
  assumes "coherent members g"
  shows "coherent members (ensure_loaded members rm g)"
    and "\<exists>us. map_of (room_cache (ensure_loaded members rm g)) rm = Some us"
proof -
  show "coherent members (ensure_loaded members rm g)"
  proof (rule coherentI)
    fix rm' us
    assume "map_of (room_cache (ensure_loaded members rm g)) rm' = Some us"
    with coherentD(1) [OF assms, of rm' us] show "rm' \<in> set (room_loaded (ensure_loaded members rm g)) \<and>
        distinct us \<and> set us = set (members rm')"
      by (auto simp: ensure_loaded_def map_of_update_iff split: if_splits)
  next
    fix rm'
    assume "map_of (room_cache (ensure_loaded members rm g)) rm' = None"
    with coherentD(2) [OF assms, of rm'] show "rm' \<notin> set (room_loaded (ensure_loaded members rm g))"
      by (auto simp: ensure_loaded_def map_of_update_iff split: if_splits)
  qed
  show "\<exists>us. map_of (room_cache (ensure_loaded members rm g)) rm = Some us"
    using coherentD(2) [OF assms, of rm] by (cases "map_of (room_cache g) rm") (auto simp: ensure_loaded_def map_of_update_iff)
qed

lemma members_of_correct:
  assumes "coherent members g"
  shows "set (fst (members_of members rm g)) = set (members rm) \<and> distinct (fst (members_of members rm g)) \<and>
    coherent members (snd (members_of members rm g))"
proof -
  note C = ensure_loaded_coherent [OF assms, of rm]
  then obtain us where us: "map_of (room_cache (ensure_loaded members rm g)) rm = Some us" by blast
  from coherentD(1) [OF C(1) us] C(1) us show ?thesis by (simp add: members_of_def Let_def)
qed

lemma manager_is_member_correct:
  assumes "coherent members g"
  shows "fst (manager_is_member members rm u g) = (u \<in> set (members rm))"
    and "coherent members (snd (manager_is_member members rm u g))"
proof -
  note C = ensure_loaded_coherent [OF assms, of rm]
  then obtain us where us: "map_of (room_cache (ensure_loaded members rm g)) rm = Some us" by blast
  from coherentD(1) [OF C(1) us] C(1) us
  show "fst (manager_is_member members rm u g) = (u \<in> set (members rm))"
    and "coherent members (snd (manager_is_member members rm u g))" by (simp_all add: manager_is_member_def Let_def)
qed

text \<open>
  \<open>on_join\<close> comes after the change of the table: the entry is loaded from the table that
  already has the member, or the member is added to an entry that lacks it.
\<close>

lemma on_join_coherent:
  assumes "coherent members g" and "set (members' rm) = insert u (set (members rm))"
    and "\<And>rm'. rm' \<noteq> rm \<Longrightarrow> set (members' rm') = set (members rm')"
  shows "coherent members' (on_join members' rm u g)"
  unfolding coherent_def
proof
  fix rm'
  show "case map_of (room_cache (on_join members' rm u g)) rm' of
      None \<Rightarrow> rm' \<notin> set (room_loaded (on_join members' rm u g))
    | Some us \<Rightarrow> rm' \<in> set (room_loaded (on_join members' rm u g)) \<and> distinct us \<and> set us = set (members' rm')"
  proof (cases "map_of (room_cache g) rm'")
    case None
    from coherentD(2) [OF assms(1) None] None show ?thesis
      by (auto simp: on_join_def ensure_loaded_def Let_def slot_def map_of_update_iff assms(2))
  next
    case (Some us)
    from coherentD(1) [OF assms(1) Some] Some show ?thesis
      by (auto simp: on_join_def ensure_loaded_def Let_def slot_def map_of_update_iff assms(2,3))
  qed
qed

lemma on_leave_coherent:
  assumes "coherent members g" and "set (members' rm) = set (members rm) - {u}"
    and "\<And>rm'. rm' \<noteq> rm \<Longrightarrow> set (members' rm') = set (members rm')"
  shows "coherent members' (on_leave rm u g)"
  unfolding coherent_def
proof
  fix rm'
  show "case map_of (room_cache (on_leave rm u g)) rm' of
      None \<Rightarrow> rm' \<notin> set (room_loaded (on_leave rm u g))
    | Some us \<Rightarrow> rm' \<in> set (room_loaded (on_leave rm u g)) \<and> distinct us \<and> set us = set (members' rm')"
  proof (cases "map_of (room_cache g) rm'")
    case None
    from coherentD(2) [OF assms(1) None] None show ?thesis
      by (auto simp: on_leave_def map_of_update_iff split: option.split)
  next
    case (Some us)
    from coherentD(1) [OF assms(1) Some] Some show ?thesis
      by (cases "rm' = rm"; cases "map_of (room_cache g) rm")
        (simp_all add: on_leave_def map_of_update_iff distinct_removeAll assms(2,3))
  qed
qed

lemma coherent_same_members:
  "coherent members g \<Longrightarrow> (\<And>rm. set (members' rm) = set (members rm)) \<Longrightarrow> coherent members' g"
  by (rule coherentI) (auto dest: coherentD)

lemma invalidate_coherent: "coherent members g \<Longrightarrow> coherent members (invalidate rm g)"
  by (rule coherentI) (auto simp: invalidate_def map_of_delete_iff dest: coherentD split: if_splits)

section \<open>The cache beside a store\<close>

text \<open>The calls the handlers make: a change of the table followed by the change of the cache, and queries.\<close>

datatype room_op = Join room_id user_id | Leave room_id user_id | Query room_id | Invalidate room_id

fun room_apply ::
  "(room_id \<Rightarrow> 'r \<Rightarrow> user_id list) \<Rightarrow> (room_id \<Rightarrow> user_id \<Rightarrow> 'r \<Rightarrow> bool \<times> 'r) \<Rightarrow> (room_id \<Rightarrow> user_id \<Rightarrow> 'r \<Rightarrow> bool \<times> 'r) \<Rightarrow>
   room_op \<Rightarrow> RoomManager \<times> 'r \<Rightarrow> RoomManager \<times> 'r"
where
  "room_apply members join leave (Join rm u) (g, r) =
     (let (ok, r') = join rm u r in if ok then (on_join (\<lambda>x. members x r') rm u g, r') else (g, r'))"
| "room_apply members join leave (Leave rm u) (g, r) =
     (let (ok, r') = leave rm u r in (on_leave rm u g, r'))"
| "room_apply members join leave (Query rm) (g, r) = (snd (members_of (\<lambda>x. members x r) rm g), r)"
| "room_apply members join leave (Invalidate rm) (g, r) = (invalidate rm g, r)"

context membership_store
begin

lemma join_coherent:
  assumes "coherent (\<lambda>x. members x r) g" and "fst (join rm u r)"
  shows "coherent (\<lambda>x. members x (snd (join rm u r))) (on_join (\<lambda>x. members x (snd (join rm u r))) rm u g)"
  using on_join_coherent [OF assms(1), of "\<lambda>x. members x (snd (join rm u r))" rm u] assms(2) by (simp add: members_join)

lemma leave_coherent:
  assumes "coherent (\<lambda>x. members x r) g"
  shows "coherent (\<lambda>x. members x (snd (leave rm u r))) (on_leave rm u g)"
  using on_leave_coherent [OF assms(1), of "\<lambda>x. members x (snd (leave rm u r))" rm u] by (simp add: members_leave)

lemma apply_coherent:
  assumes "coherent (\<lambda>x. members x r) g" and "room_apply members join leave x (g, r) = (g', r')"
  shows "coherent (\<lambda>x. members x r') g'"
proof (cases x)
  case (Join rm u)
  show ?thesis
  proof (cases "fst (join rm u r)")
    case True
    with join_coherent [OF assms(1) True] assms(2) Join show ?thesis by (auto simp: split_beta)
  next
    case False
    with assms Join coherent_same_members [OF assms(1), of "\<lambda>x. members x r'"] show ?thesis
      by (auto simp: split_beta members_join)
  qed
next
  case (Leave rm u)
  with leave_coherent [OF assms(1), of rm u] assms(2) show ?thesis by (simp add: split_beta)
next
  case (Query rm)
  with members_of_correct [OF assms(1), of rm] assms(2) show ?thesis by auto
next
  case (Invalidate rm)
  with invalidate_coherent [OF assms(1), of rm] assms(2) show ?thesis by auto
qed

lemma run_coherent:
  "coherent (\<lambda>x. members x (snd gr)) (fst gr) \<Longrightarrow>
   coherent (\<lambda>x. members x (snd (fold (room_apply members join leave) ops gr))) (fst (fold (room_apply members join leave) ops gr))"
proof (induction ops arbitrary: gr)
  case (Cons x ops)
  obtain g r where gr: "gr = (g, r)" by fastforce
  with Cons.prems apply_coherent [of r g x "fst (room_apply members join leave x gr)" "snd (room_apply members join leave x gr)"]
  have "coherent (\<lambda>y. members y (snd (room_apply members join leave x gr))) (fst (room_apply members join leave x gr))" by simp
  from Cons.IH [OF this] show ?case by simp
qed simp

end

section \<open>Properties\<close>

text \<open>
  C18. The room cache is coherent with the store: after any run of joins, leaves, queries and
  invalidations, each change of the table followed by the update of the cache, the
  members that the manager reports for a room are those of the table, each once, and
  its membership test is that of the store.
\<close>

theorem room_cache_coherent:
  assumes "fold (room_apply list_room_members join_room leave_room) ops (RoomManager_new, r0) = (g, r)"
  shows "set (fst (members_of (\<lambda>x. list_room_members x r) rm g)) = set (list_room_members rm r) \<and>
    distinct (fst (members_of (\<lambda>x. list_room_members x r) rm g)) \<and>
    fst (manager_is_member (\<lambda>x. list_room_members x r) rm u g) = is_member rm u r"
proof -
  have "coherent (\<lambda>x. list_room_members x r) g"
    using memory_members.run_coherent [of "(RoomManager_new, r0)" ops] assms by simp
  then show ?thesis using members_of_correct manager_is_member_correct(1) by (simp add: is_member_slot)
qed

theorem room_cache_coherent_witness:
  "\<exists>g r. fold (room_apply list_room_members join_room leave_room) [Join 1 7, Query 1, Join 1 8, Leave 1 7]
       (RoomManager_new, snd (create_room 5 ''den'' Repositories_init)) = (g, r) \<and>
     set (fst (members_of (\<lambda>x. list_room_members x r) 1 g)) = {8}"
proof -
  let ?r0 = "snd (create_room 5 ''den'' Repositories_init)"
  let ?ops = "[Join 1 7, Query 1, Join 1 8, Leave 1 7]"
  obtain g r where run: "fold (room_apply list_room_members join_room leave_room) ?ops (RoomManager_new, ?r0) = (g, r)"
    by fastforce
  have "set (list_room_members 1 r) = {8}"
    using run by (auto simp: create_room_def Repositories_init_def join_room_def leave_room_def list_room_members_def slot_def)
  with room_cache_coherent [OF run, of 1] run show ?thesis by (intro exI [of _ g] exI [of _ r]) simp
qed

end
