(* ===== verification/Framing.thy ===== *)
theory Framing
  imports Cxx_Std
begin

text \<open>
  The wire format, \<open>src/src/protocol/framing.cpp\<close> and \<open>src/include/protocol/framing.h\<close>: a
  frame is a four-byte big-endian length and the payload. \<open>FrameDecoder_feed\<close> is the
  incremental decoder with its buffer, its two modes and its two exceptions; an exception
  leaves the decoder as it was when it was thrown.

  \<open>parse_frames\<close> is the specification: what a byte stream means as a sequence of frames,
  independent of how it was cut into pieces. The locale \<open>frame_stream\<close> states what a
  decoder owes to it; that any way of cutting a stream of frames into pieces gives back the
  payloads is proved once, from these laws, and holds for the client's decoder here and for
  the server's parser in \<open>Connection\<close>.
\<close>

section \<open>The code\<close>

definition frame :: "string \<Rightarrow> string" where
  "frame payload =
     (let len = word_of_nat (length payload) :: u32
      in map char_of_byte
           [ucast (drop_bit 24 len AND 0xFF), ucast (drop_bit 16 len AND 0xFF),
            ucast (drop_bit 8 len AND 0xFF), ucast (len AND 0xFF)] @ payload)"

record FrameDecoder =
  buf :: "u8 list"
  reading_len :: bool
  want :: u32
  max_frame_bytes :: u32

definition FrameDecoder_init :: FrameDecoder where
  "FrameDecoder_init = \<lparr>buf = [], reading_len = True, want = 4, max_frame_bytes = 65536\<rparr>"

datatype frame_error = ZeroLengthFrame | FrameExceedsMax

text \<open>The length field at the front of a buffer of at least four bytes.\<close>

definition header_len :: "u8 list \<Rightarrow> u32" where
  "header_len b = load_be32 (b ! 0) (b ! 1) (b ! 2) (b ! 3)"

text \<open>The first half of one turn of the loop; \<^const>\<open>None\<close> is its \<open>break\<close>.\<close>

definition decode_len :: "FrameDecoder \<Rightarrow> (frame_error + FrameDecoder) option" where
  "decode_len d =
     (if reading_len d then
        if length (buf d) < 4 then None
        else
          (let len = header_len (buf d) in
           if len = 0 then Some (Inl ZeroLengthFrame)
           else if max_frame_bytes d < len then Some (Inl FrameExceedsMax)
           else Some (Inr (d\<lparr>want := len, buf := drop 4 (buf d), reading_len := False\<rparr>)))
      else Some (Inr d))"

function decode_loop :: "FrameDecoder \<Rightarrow> string list \<Rightarrow> FrameDecoder \<times> (frame_error + string list)"
where
  "decode_loop d frames =
     (case decode_len d of
        None \<Rightarrow> (d, Inr frames)
      | Some (Inl e) \<Rightarrow> (d, Inl e)
      | Some (Inr d') \<Rightarrow>
          (if length (buf d') < unat (want d') then (d', Inr frames)
           else decode_loop
                  (d'\<lparr>buf := drop (unat (want d')) (buf d'), reading_len := True, want := 4\<rparr>)
                  (frames @ [string_of (take (unat (want d')) (buf d'))])))"
  by pat_completeness auto
termination
  by (relation "measure (\<lambda>(d, fs). 2 * length (buf d) + (if reading_len d then 0 else 1))")
    (auto simp: decode_len_def Let_def split: if_splits)

declare decode_loop.simps [simp del]

definition FrameDecoder_feed :: "FrameDecoder \<Rightarrow> u8 list \<Rightarrow> FrameDecoder \<times> (frame_error + string list)"
where
  "FrameDecoder_feed d data = decode_loop (d\<lparr>buf := buf d @ data\<rparr>) []"

section \<open>The specification of a frame stream\<close>

definition valid_payload :: "u32 \<Rightarrow> string \<Rightarrow> bool" where
  "valid_payload mx p \<longleftrightarrow> 0 < length p \<and> length p \<le> unat mx"

function parse_frames :: "u32 \<Rightarrow> u8 list \<Rightarrow> string list \<times> u8 list \<times> frame_error option" where
  "parse_frames mx bs =
     (if length bs < 4 then ([], bs, None)
      else
        (let len = header_len bs; r = drop 4 bs in
         if len = 0 then ([], bs, Some ZeroLengthFrame)
         else if mx < len then ([], bs, Some FrameExceedsMax)
         else if length r < unat len then ([], bs, None)
         else
           (let (fs, rest, e) = parse_frames mx (drop (unat len) r)
            in (string_of (take (unat len) r) # fs, rest, e))))"
  by pat_completeness auto
termination
  by (relation "measure (\<lambda>(mx, bs). length bs)") auto

declare parse_frames.simps [simp del]

primrec feed_all :: "('s \<Rightarrow> u8 list \<Rightarrow> 's \<times> string list option) \<Rightarrow> 's \<Rightarrow> u8 list list \<Rightarrow>
  's \<times> string list option" where
  "feed_all f s [] = (s, Some [])"
| "feed_all f s (c # cs) =
     (case f s c of
        (s', None) \<Rightarrow> (s', None)
      | (s', Some fs) \<Rightarrow> (case feed_all f s' cs of
            (s'', None) \<Rightarrow> (s'', None)
          | (s'', Some fs') \<Rightarrow> (s'', Some (fs @ fs'))))"

lemma frame_bytes: "bytes_of (frame p) = store_be32 (word_of_nat (length p)) @ bytes_of p"
  by (simp add: frame_def Let_def store_be32_def bytes_of_def byte_simps)

lemma length_frame [simp]: "length (frame p) = length p + 4"
  by (simp add: frame_def Let_def)

lemma header_len_store [simp]: "header_len (store_be32 v @ r) = v"
  by (simp add: header_len_def store_be32_def)

lemma header_split:
  assumes "4 \<le> length bs"
  obtains v r where "bs = store_be32 v @ r"
proof -
  obtain p0 p1 p2 p3 r where "bs = p0 # p1 # p2 # p3 # r"
    using assms by (auto simp: numeral_eq_Suc Suc_le_length_iff)
  then have "bs = store_be32 (load_be32 p0 p1 p2 p3) @ r" by simp
  then show thesis by (rule that)
qed

lemma parse_frames_short [simp]: "length bs < 4 \<Longrightarrow> parse_frames mx bs = ([], bs, None)"
  by (simp add: parse_frames.simps)

lemma parse_frames_header:
  "parse_frames mx (store_be32 v @ r) =
     (if v = 0 then ([], store_be32 v @ r, Some ZeroLengthFrame)
      else if mx < v then ([], store_be32 v @ r, Some FrameExceedsMax)
      else if length r < unat v then ([], store_be32 v @ r, None)
      else let (fs, rest, e) = parse_frames mx (drop (unat v) r)
           in (string_of (take (unat v) r) # fs, rest, e))"
  by (simp add: parse_frames.simps [of mx "store_be32 v @ r"] Let_def)

lemma valid_payload_word:
  assumes "valid_payload mx p"
  shows "unat (word_of_nat (length p) :: u32) = length p"
    and "(word_of_nat (length p) :: u32) \<noteq> 0" and "\<not> mx < word_of_nat (length p)"
proof -
  have "length p < 2 ^ 32"
    using assms unsigned_less [of mx, where ?'a = nat] by (simp add: valid_payload_def)
  then show u: "unat (word_of_nat (length p) :: u32) = length p" by (rule unat_of_nat_u32)
  show "(word_of_nat (length p) :: u32) \<noteq> 0"
    using u assms by (metis valid_payload_def not_less_zero unat_0 less_numeral_extra(3))
  show "\<not> mx < word_of_nat (length p)"
    using u assms by (simp add: valid_payload_def word_less_nat_alt)
qed

lemma parse_frames_frame:
  assumes "valid_payload mx p"
  shows "parse_frames mx (bytes_of (frame p) @ bs) =
    (let (fs, rest, e) = parse_frames mx bs in (p # fs, rest, e))"
  using valid_payload_word [OF assms] by (simp add: frame_bytes parse_frames_header)

lemma parse_frames_all:
  "\<forall>p\<in>set ps. valid_payload mx p \<Longrightarrow>
   parse_frames mx (concat (map (\<lambda>p. bytes_of (frame p)) ps)) = (ps, [], None)"
  by (induction ps) (simp_all add: parse_frames_frame)

text \<open>What is left over after some bytes is all that matters for the bytes that follow.\<close>

lemma parse_frames_append:
  "parse_frames mx bs = (fs, rest, None) \<Longrightarrow>
   parse_frames mx (bs @ cs) =
     (let (fs', rest', e) = parse_frames mx (rest @ cs) in (fs @ fs', rest', e))"
proof (induction "length bs" arbitrary: bs fs rule: less_induct)
  case less
  show ?case
  proof (cases "length bs < 4")
    case True
    with less.prems show ?thesis by simp
  next
    case False
    then obtain v r where bs: "bs = store_be32 v @ r" by (metis header_split not_less)
    show ?thesis
    proof (cases "length r < unat v")
      case True
      with less.prems bs have "fs = []" "rest = bs"
        by (auto simp: parse_frames_header split: if_splits)
      then show ?thesis by simp
    next
      case enough: False
      obtain fs1 rest1 e1 where p: "parse_frames mx (drop (unat v) r) = (fs1, rest1, e1)"
        by (metis prod_cases3)
      with less.prems bs enough have fs: "fs = string_of (take (unat v) r) # fs1" "rest1 = rest"
        "e1 = None" and v: "v \<noteq> 0" "\<not> mx < v"
        by (auto simp: parse_frames_header split: if_splits)
      have "parse_frames mx (drop (unat v) r @ cs) =
        (let (fs', rest', e) = parse_frames mx (rest @ cs) in (fs1 @ fs', rest', e))"
        by (rule less.hyps) (simp_all add: bs p fs)
      then show ?thesis
        using enough v by (simp add: bs parse_frames_header fs split: prod.splits)
    qed
  qed
qed

text \<open>The left-over is parsed to nothing: all its frames have been taken.\<close>

lemma parse_frames_rest:
  "parse_frames mx bs = (fs, rest, None) \<Longrightarrow> parse_frames mx rest = ([], rest, None)"
proof (induction "length bs" arbitrary: bs fs rule: less_induct)
  case less
  show ?case
  proof (cases "length bs < 4")
    case True
    with less.prems show ?thesis by auto
  next
    case False
    then obtain v r where bs: "bs = store_be32 v @ r" by (metis header_split not_less)
    with less.prems show ?thesis
      by (auto simp: parse_frames_header split: if_splits prod.splits intro: less.hyps [of "drop (unat v) r"])
  qed
qed

text \<open>A bad length field stays bad whatever follows it.\<close>

lemma parse_frames_bad_append:
  "parse_frames mx bs = (fs, rest, Some e) \<Longrightarrow>
   parse_frames mx (bs @ cs) = (fs, rest @ cs, Some e)"
proof (induction "length bs" arbitrary: bs fs rule: less_induct)
  case less
  then obtain v r where bs: "bs = store_be32 v @ r"
    by (metis header_split not_less parse_frames_short option.distinct(1) prod.inject)
  show ?case
  proof (cases "v = 0 \<or> mx < v \<or> length r < unat v")
    case True
    with less.prems show ?thesis
      by (auto simp: bs parse_frames_header split: if_splits)
  next
    case False
    obtain fs1 rest1 e1 where p: "parse_frames mx (drop (unat v) r) = (fs1, rest1, e1)"
      by (metis prod_cases3)
    with less.prems False have fs: "fs = string_of (take (unat v) r) # fs1" "rest1 = rest" "e1 = Some e"
      by (auto simp: bs parse_frames_header)
    have "parse_frames mx (drop (unat v) r @ cs) = (fs1, rest @ cs, Some e)"
      by (rule less.hyps) (simp_all add: bs p fs)
    with False show ?thesis by (simp add: bs parse_frames_header fs)
  qed
qed

locale frame_stream =
  fixes feed :: "'s \<Rightarrow> u8 list \<Rightarrow> 's \<times> string list option"
    and pending :: "'s \<Rightarrow> u8 list"
    and limit :: "'s \<Rightarrow> u32"
    and inv :: "'s \<Rightarrow> bool"
  assumes feed_ok: "inv s \<Longrightarrow> parse_frames (limit s) (pending s @ bs) = (fs, rest, None) \<Longrightarrow>
      \<exists>s'. feed s bs = (s', Some fs) \<and> pending s' = rest \<and> limit s' = limit s \<and> inv s'"
    and feed_bad: "inv s \<Longrightarrow> parse_frames (limit s) (pending s @ bs) = (fs, rest, Some e) \<Longrightarrow>
      snd (feed s bs) = None"
begin

lemma feed_all_ok:
  "inv s \<Longrightarrow> parse_frames (limit s) (pending s) = ([], pending s, None) \<Longrightarrow>
   parse_frames (limit s) (pending s @ concat cs) = (fs, rest, None) \<Longrightarrow>
   \<exists>s'. feed_all feed s cs = (s', Some fs) \<and> pending s' = rest \<and> inv s'"
proof (induction cs arbitrary: s fs)
  case Nil
  then show ?case by auto
next
  case (Cons c cs)
  obtain fs1 rest1 e1 where p1: "parse_frames (limit s) (pending s @ c) = (fs1, rest1, e1)"
    by (metis prod_cases3)
  with Cons.prems(3) parse_frames_bad_append [of "limit s" "pending s @ c"]
  have "e1 = None" by (cases e1) auto
  then have p1: "parse_frames (limit s) (pending s @ c) = (fs1, rest1, None)" using p1 by simp
  from feed_ok [OF Cons.prems(1) p1] obtain s1 where s1: "feed s c = (s1, Some fs1)"
    "pending s1 = rest1" "limit s1 = limit s" "inv s1" by blast
  obtain fs2 rest2 e2 where p2: "parse_frames (limit s) (rest1 @ concat cs) = (fs2, rest2, e2)"
    by (metis prod_cases3)
  from Cons.prems(3) parse_frames_append [OF p1, of "concat cs"] p2
  have fs: "fs = fs1 @ fs2" "rest2 = rest" "e2 = None" by simp_all
  from Cons.IH [of s1 fs2] s1 p2 fs parse_frames_rest [OF p1] obtain s2 where
    "feed_all feed s1 cs = (s2, Some fs2)" "pending s2 = rest" "inv s2" by auto
  then show ?case using s1 fs by auto
qed

text \<open>However a stream of frames is cut into pieces, the payloads come out, in order.\<close>

lemma feed_all_frames:
  assumes "inv s" and "pending s = []" and "\<forall>p\<in>set ps. valid_payload (limit s) p"
    and "concat cs = concat (map (\<lambda>p. bytes_of (frame p)) ps)"
  shows "\<exists>s'. feed_all feed s cs = (s', Some ps) \<and> pending s' = [] \<and> inv s'"
  using feed_all_ok [of s cs ps "[]"] assms parse_frames_all [of ps "limit s"] by simp

text \<open>A stream that holds a bad length field is refused at some piece.\<close>

lemma feed_all_bad:
  "inv s \<Longrightarrow> parse_frames (limit s) (pending s @ concat cs) = (fs, rest, Some e) \<Longrightarrow>
   parse_frames (limit s) (pending s) = ([], pending s, None) \<Longrightarrow>
   snd (feed_all feed s cs) = None"
proof (induction cs arbitrary: s fs)
  case Nil
  then show ?case by auto
next
  case (Cons c cs)
  obtain fs1 rest1 e1 where p1: "parse_frames (limit s) (pending s @ c) = (fs1, rest1, e1)"
    by (metis prod_cases3)
  show ?case
  proof (cases e1)
    case None
    with p1 have p1: "parse_frames (limit s) (pending s @ c) = (fs1, rest1, None)" by simp
    from feed_ok [OF Cons.prems(1) p1] obtain s1 where s1: "feed s c = (s1, Some fs1)"
      "pending s1 = rest1" "limit s1 = limit s" "inv s1" by blast
    obtain fs2 rest2 e2 where p2: "parse_frames (limit s) (rest1 @ concat cs) = (fs2, rest2, e2)"
      by (metis prod_cases3)
    from Cons.prems(2) parse_frames_append [OF p1, of "concat cs"] p2
    have "e2 = Some e" "rest2 = rest" by simp_all
    with Cons.IH [of s1] s1 p2 parse_frames_rest [OF p1] have "snd (feed_all feed s1 cs) = None"
      by auto
    then show ?thesis using s1 by (auto split: prod.splits option.splits)
  next
    case (Some x)
    with p1 feed_bad [OF Cons.prems(1), of c] have "snd (feed s c) = None" by simp
    then show ?thesis by (auto split: prod.splits)
  qed
qed

end

section \<open>The client's decoder implements the specification\<close>

text \<open>The bytes a decoder still holds, its length field put back in front.\<close>

definition decoder_pending :: "FrameDecoder \<Rightarrow> u8 list" where
  "decoder_pending d = (if reading_len d then buf d else store_be32 (want d) @ buf d)"

definition decoder_inv :: "FrameDecoder \<Rightarrow> bool" where
  "decoder_inv d \<longleftrightarrow> (if reading_len d then want d = 4 else want d \<noteq> 0 \<and> \<not> max_frame_bytes d < want d)"

definition outcome :: "string list \<Rightarrow> frame_error option \<Rightarrow> frame_error + string list" where
  "outcome fs e = (case e of None \<Rightarrow> Inr fs | Some x \<Rightarrow> Inl x)"

lemma outcome_simps [simp]: "outcome fs None = Inr fs" "outcome fs (Some x) = Inl x"
  by (simp_all add: outcome_def)

lemma decode_loop_short:
  "reading_len d \<Longrightarrow> length (buf d) < 4 \<Longrightarrow> decode_loop d frames = (d, Inr frames)"
  by (simp add: decode_loop.simps decode_len_def)

lemma decode_loop_body:
  "\<not> reading_len d \<Longrightarrow> decode_loop d frames =
     (if length (buf d) < unat (want d) then (d, Inr frames)
      else decode_loop (d\<lparr>buf := drop (unat (want d)) (buf d), reading_len := True, want := 4\<rparr>)
             (frames @ [string_of (take (unat (want d)) (buf d))]))"
  by (simp add: decode_loop.simps [of d] decode_len_def)

lemma decode_loop_header:
  "reading_len d \<Longrightarrow> buf d = store_be32 v @ r \<Longrightarrow> decode_loop d frames =
     (if v = 0 then (d, Inl ZeroLengthFrame)
      else if max_frame_bytes d < v then (d, Inl FrameExceedsMax)
      else decode_loop (d\<lparr>want := v, buf := r, reading_len := False\<rparr>) frames)"
  by (simp add: decode_loop.simps [of d] decode_len_def Let_def
      decode_loop.simps [of "d\<lparr>want := v, buf := r, reading_len := False\<rparr>"])

lemma decode_loop_parse:
  "decoder_inv d \<Longrightarrow> parse_frames (max_frame_bytes d) (decoder_pending d) = (fs, rest, e) \<Longrightarrow>
   \<exists>d'. decode_loop d frames = (d', outcome (frames @ fs) e) \<and>
     decoder_pending d' = rest \<and> max_frame_bytes d' = max_frame_bytes d \<and> decoder_inv d'"
proof (induction "2 * length (buf d) + (if reading_len d then 0 else 1 :: nat)"
    arbitrary: d frames fs rule: less_induct)
  case less
  consider (short) "reading_len d" "length (buf d) < 4"
    | (head) v r where "reading_len d" "buf d = store_be32 v @ r"
    | (body) "\<not> reading_len d"
    by (metis header_split not_less)
  then show ?case
  proof cases
    case short
    with less.prems show ?thesis by (auto simp: decode_loop_short decoder_pending_def)
  next
    case head
    let ?d = "d\<lparr>want := v, buf := r, reading_len := False\<rparr>"
    show ?thesis
    proof (cases "v = 0 \<or> max_frame_bytes d < v")
      case True
      with less.prems head show ?thesis
        by (auto simp: decode_loop_header decoder_pending_def parse_frames_header split: if_splits)
    next
      case False
      have "\<exists>d'. decode_loop ?d frames =
          (d', outcome (frames @ fs) e) \<and>
        decoder_pending d' = rest \<and> max_frame_bytes d' = max_frame_bytes ?d \<and> decoder_inv d'"
        by (rule less.hyps)
          (use less.prems head False in \<open>simp_all add: decoder_pending_def decoder_inv_def\<close>)
      with head False show ?thesis by (simp add: decode_loop_header)
    qed
  next
    case body
    let ?w = "unat (want d)"
    let ?d = "d\<lparr>buf := drop ?w (buf d), reading_len := True, want := 4\<rparr>"
    from body less.prems have v: "want d \<noteq> 0" "\<not> max_frame_bytes d < want d"
      by (simp_all add: decoder_inv_def)
    show ?thesis
    proof (cases "length (buf d) < ?w")
      case True
      with body v less.prems show ?thesis
        by (auto simp: decode_loop_body decoder_pending_def parse_frames_header)
    next
      case False
      obtain fs1 where fs1: "parse_frames (max_frame_bytes ?d) (decoder_pending ?d) = (fs1, rest, e)"
        and fs: "fs = string_of (take ?w (buf d)) # fs1"
        using less.prems(2) body v False
        by (auto simp: decoder_pending_def parse_frames_header split: prod.splits)
      have "\<exists>d'. decode_loop ?d (frames @ [string_of (take ?w (buf d))]) =
          (d', outcome ((frames @ [string_of (take ?w (buf d))]) @ fs1) e) \<and>
        decoder_pending d' = rest \<and> max_frame_bytes d' = max_frame_bytes ?d \<and> decoder_inv d'"
        by (rule less.hyps [OF _ _ fs1]) (use False body v in \<open>simp_all add: decoder_inv_def\<close>)
      with False body show ?thesis by (simp add: decode_loop_body fs)
    qed
  qed
qed

definition feed_client :: "FrameDecoder \<Rightarrow> u8 list \<Rightarrow> FrameDecoder \<times> string list option" where
  "feed_client d bs = (case FrameDecoder_feed d bs of
     (d', Inr fs) \<Rightarrow> (d', Some fs) | (d', Inl e) \<Rightarrow> (d', None))"

lemma feed_parse:
  assumes "decoder_inv d" and "parse_frames (max_frame_bytes d) (decoder_pending d @ bs) = (fs, rest, e)"
  shows "\<exists>d'. FrameDecoder_feed d bs = (d', outcome fs e) \<and>
    decoder_pending d' = rest \<and> max_frame_bytes d' = max_frame_bytes d \<and> decoder_inv d'"
proof -
  let ?d = "d\<lparr>buf := buf d @ bs\<rparr>"
  have "decoder_inv ?d" "decoder_pending ?d = decoder_pending d @ bs"
    using assms(1) by (simp_all add: decoder_inv_def decoder_pending_def)
  then show ?thesis
    using decode_loop_parse [of ?d fs rest e "[]"] assms(2) by (simp add: FrameDecoder_feed_def)
qed

interpretation client_decoder: frame_stream feed_client decoder_pending max_frame_bytes decoder_inv
proof
  fix d bs fs rest
  assume "decoder_inv d" "parse_frames (max_frame_bytes d) (decoder_pending d @ bs) = (fs, rest, None)"
  from feed_parse [OF this]
  show "\<exists>d'. feed_client d bs = (d', Some fs) \<and> decoder_pending d' = rest \<and>
    max_frame_bytes d' = max_frame_bytes d \<and> decoder_inv d'"
    by (auto simp: feed_client_def)
next
  fix d bs fs rest e
  assume "decoder_inv d" "parse_frames (max_frame_bytes d) (decoder_pending d @ bs) = (fs, rest, Some e)"
  from feed_parse [OF this] show "snd (feed_client d bs) = None"
    by (auto simp: feed_client_def)
qed

section \<open>Properties\<close>

lemma parse_frames_rest_bound:
  assumes "parse_frames mx bs = (fs, rest, None)"
  shows "length rest < 4 + unat mx"
proof (cases "length rest < 4")
  case False
  then obtain v r where rest: "rest = store_be32 v @ r" by (metis header_split not_less)
  with parse_frames_rest [OF assms] have "length r < unat v" "\<not> mx < v"
    by (auto simp: parse_frames_header split: if_splits prod.splits)
  then show ?thesis by (simp add: rest word_less_nat_alt)
qed simp

text \<open>
  C26. Framing round trip: however the bytes of a sequence of frames are cut into the pieces
  that \<open>recv\<close> returns, feeding the pieces to a fresh \<open>FrameDecoder\<close> raises nothing and
  yields the payloads, each once and in order, and no byte is left over.
\<close>

theorem frame_decoder_roundtrip:
  assumes "list_all (valid_payload (max_frame_bytes FrameDecoder_init)) ps"
    and "concat cs = concat (map (\<lambda>p. bytes_of (frame p)) ps)"
  shows "\<exists>d. feed_all feed_client FrameDecoder_init cs = (d, Some ps) \<and> decoder_pending d = []"
proof -
  have "decoder_inv FrameDecoder_init" "decoder_pending FrameDecoder_init = []"
    by (simp_all add: FrameDecoder_init_def decoder_inv_def decoder_pending_def)
  with client_decoder.feed_all_frames [of FrameDecoder_init ps cs] assms show ?thesis
    by (auto simp: list_all_iff)
qed

theorem frame_decoder_roundtrip_witness:
  "list_all (valid_payload (max_frame_bytes FrameDecoder_init)) [''hi'', ''x''] \<and>
   (\<exists>d. feed_all feed_client FrameDecoder_init [[0], [0, 0, 2, 104], [105, 0, 0, 0, 1, 120]] =
     (d, Some [''hi'', ''x'']) \<and> decoder_pending d = [])"
proof -
  have h: "list_all (valid_payload (max_frame_bytes FrameDecoder_init)) [''hi'', ''x'']"
    by (simp add: valid_payload_def FrameDecoder_init_def)
  have "concat [[0], [0, 0, 2, 104], [105, 0, 0, 0, 1, 120]] =
    concat (map (\<lambda>p. bytes_of (frame p)) [''hi'', ''x''])" by code_simp
  from frame_decoder_roundtrip [OF h this] h show ?thesis by blast
qed

text \<open>
  Malformed input is refused: when the bytes fed so far hold, after any number of good
  frames, a length field of zero or above the limit, some call of \<open>feed\<close> throws, however
  the bytes were cut.
\<close>

theorem frame_decoder_rejects:
  assumes "list_all (valid_payload (max_frame_bytes FrameDecoder_init)) ps"
    and "v = 0 \<or> max_frame_bytes FrameDecoder_init < v"
    and "concat cs = concat (map (\<lambda>p. bytes_of (frame p)) ps) @ store_be32 v @ junk"
  shows "snd (feed_all feed_client FrameDecoder_init cs) = None"
proof -
  let ?mx = "max_frame_bytes FrameDecoder_init"
  have init: "decoder_inv FrameDecoder_init" "decoder_pending FrameDecoder_init = []"
    by (simp_all add: FrameDecoder_init_def decoder_inv_def decoder_pending_def)
  have "\<exists>e. parse_frames ?mx (store_be32 v @ junk) = ([], store_be32 v @ junk, Some e)"
    using assms(2) by (cases "v = 0") (simp_all add: parse_frames_header)
  then obtain e where "parse_frames ?mx (store_be32 v @ junk) = ([], store_be32 v @ junk, Some e)" ..
  then have "parse_frames ?mx (concat cs) = (ps, store_be32 v @ junk, Some e)"
    using parse_frames_append [OF parse_frames_all, of ps ?mx "store_be32 v @ junk"] assms
    by (simp add: list_all_iff)
  then show ?thesis using client_decoder.feed_all_bad [of FrameDecoder_init cs] init by simp
qed

theorem frame_decoder_rejects_witness:
  "snd (feed_all feed_client FrameDecoder_init [[0, 0, 0, 1, 120, 0], [1, 0, 1, 7]]) = None"
proof -
  have h: "list_all (valid_payload (max_frame_bytes FrameDecoder_init)) [''x'']"
    and v: "(65537 :: u32) = 0 \<or> max_frame_bytes FrameDecoder_init < 65537"
    by (simp_all add: valid_payload_def FrameDecoder_init_def)
  have "concat [[0, 0, 0, 1, 120, 0], [1, 0, 1, 7]] =
    concat (map (\<lambda>p. bytes_of (frame p)) [''x'']) @ store_be32 65537 @ [7]" by code_simp
  from frame_decoder_rejects [OF h v this] show ?thesis .
qed

text \<open>
  C27. A decoder holds a bounded amount of input between calls, less than one length field
  and one largest payload, whatever it is fed.
\<close>

theorem frame_decoder_bounded:
  assumes "decoder_inv d" and "FrameDecoder_feed d bs = (d', Inr fs)"
  shows "length (decoder_pending d') < 4 + unat (max_frame_bytes d) \<and> decoder_inv d'"
proof -
  obtain fs1 rest e where p: "parse_frames (max_frame_bytes d) (decoder_pending d @ bs) = (fs1, rest, e)"
    by (metis prod_cases3)
  from feed_parse [OF assms(1) p] assms(2) have d': "outcome fs1 e = Inr fs" "decoder_pending d' = rest"
    "decoder_inv d'" by auto
  then have "e = None" by (cases e) auto
  with parse_frames_rest_bound p d' show ?thesis by simp
qed

theorem frame_decoder_bounded_witness:
  "\<exists>d' fs. FrameDecoder_feed FrameDecoder_init [0, 0, 0, 2, 104] = (d', Inr fs) \<and>
     length (decoder_pending d') < 4 + unat (max_frame_bytes FrameDecoder_init)"
proof -
  have i: "decoder_inv FrameDecoder_init" by (simp add: FrameDecoder_init_def decoder_inv_def)
  have "\<not> isl (snd (FrameDecoder_feed FrameDecoder_init [0, 0, 0, 2, 104]))" by code_simp
  then obtain d' fs where f: "FrameDecoder_feed FrameDecoder_init [0, 0, 0, 2, 104] = (d', Inr fs)"
    by (metis prod.collapse sum.collapse(2))
  from frame_decoder_bounded [OF i this] f show ?thesis by blast
qed

end
