(* ===== verification/Connection.thy ===== *)
theory Connection
  imports Framing
begin

text \<open>
  \<open>Connection\<close> of \<open>src/include/net/connection.h\<close> and \<open>src/src/net/connection.cpp\<close>. A connection is
  a record of the members of the class. What an operation does outside of the object is in
  the list of effects it returns, in the order of the calls: closures posted to the reactor,
  changes of the registration of the descriptor, bytes the kernel took, and the calls of
  the frame and close handlers. A posted closure captures only the connection, so it
  is named by the method it runs. The results of \<open>recv\<close> and \<open>send\<close> are a list given to the operation;
  when the list ends the call would block (\<open>EAGAIN\<close>). The loops end because the buffers or
  the lists get shorter.

  \<open>wbuf_\<close> and \<open>write_armed_\<close> are only used under \<open>mu_\<close>, the read state only on the reactor
  thread, and the flags are atomic, so an operation is one step, except \<open>send_frame\<close>, whose
  flush is a later step.
\<close>

section \<open>The code\<close>

type_synonym fd = int

datatype task = Flush conn_id | DeliverClose conn_id | ScheduleClose conn_id

datatype conn_effect =
    Post task
  | Modify fd bool
  | RemoveFd fd
  | CloseFd fd
  | Wrote "u8 list"
  | OnFrame string
  | OnClose

datatype errno = EAGAIN | EINTR | OtherErrno

text \<open>\<open>recv\<close>: the bytes read, none at the end of the stream. \<open>Took n\<close>: \<open>send\<close> returned \<open>n + 1\<close>.\<close>

datatype recv_result = Got "u8 list" | RecvErr errno
datatype send_result = Took nat | SendErr errno

record Connection =
  cn_id :: conn_id
  cn_fd :: fd
  cn_max_frame :: u32
  rbuf :: "u8 list"
  reading_length :: bool
  cn_want :: u32
  wbuf :: "u8 list"
  write_armed :: bool
  closing :: bool
  closed :: bool
  cn_user_id :: user_id
  cn_token :: string

definition Connection_make :: "conn_id \<Rightarrow> fd \<Rightarrow> u32 \<Rightarrow> Connection" where
  "Connection_make i s mx =
     \<lparr>cn_id = i, cn_fd = s, cn_max_frame = mx, rbuf = [], reading_length = True, cn_want = 4, wbuf = [],
      write_armed = False, closing = False, closed = False, cn_user_id = 0, cn_token = []\<rparr>"

definition set_user_id :: "user_id \<Rightarrow> Connection \<Rightarrow> Connection" where
  "set_user_id uid c = c\<lparr>cn_user_id := uid\<rparr>"

definition set_session_token :: "string \<Rightarrow> Connection \<Rightarrow> Connection" where
  "set_session_token t c = c\<lparr>cn_token := t\<rparr>"

subsection \<open>Closing\<close>

definition schedule_close :: "Connection \<Rightarrow> Connection \<times> conn_effect list" where
  "schedule_close c =
     (if closing c then (c, []) else (c\<lparr>closing := True\<rparr>, [Post (DeliverClose (cn_id c))]))"

definition deliver_close :: "Connection \<Rightarrow> Connection \<times> conn_effect list" where
  "deliver_close c =
     (if closed c then (c, [])
      else if 0 \<le> cn_fd c
      then (c\<lparr>closed := True, cn_fd := -1\<rparr>, [RemoveFd (cn_fd c), CloseFd (cn_fd c), OnClose])
      else (c\<lparr>closed := True\<rparr>, [RemoveFd (cn_fd c), OnClose]))"

subsection \<open>Reading\<close>

text \<open>The first half of one turn of the inner loop: \<^const>\<open>None\<close> is \<open>break\<close>, \<open>Some None\<close> a bad length.\<close>

definition parse_len :: "Connection \<Rightarrow> Connection option option" where
  "parse_len c =
     (if reading_length c then
        if length (rbuf c) < 4 then None
        else
          (let len = header_len (rbuf c) in
           if len = 0 \<or> cn_max_frame c < len then Some None
           else Some (Some (c\<lparr>cn_want := len, rbuf := drop 4 (rbuf c), reading_length := False\<rparr>)))
      else Some (Some c))"

text \<open>The inner loop; the flag is false when a bad length field was met.\<close>

function parse_loop :: "Connection \<Rightarrow> string list \<Rightarrow> bool \<times> Connection \<times> string list" where
  "parse_loop c frames =
     (case parse_len c of
        None \<Rightarrow> (True, c, frames)
      | Some None \<Rightarrow> (False, c, frames)
      | Some (Some c') \<Rightarrow>
          (if length (rbuf c') < unat (cn_want c') then (True, c', frames)
           else parse_loop
                  (c'\<lparr>rbuf := drop (unat (cn_want c')) (rbuf c'), reading_length := True, cn_want := 4\<rparr>)
                  (frames @ [string_of (take (unat (cn_want c')) (rbuf c'))])))"
  by pat_completeness auto
termination
  by (relation "measure (\<lambda>(c, fs). 2 * length (rbuf c) + (if reading_length c then 0 else 1))")
    (auto simp: parse_len_def Let_def split: if_splits)

declare parse_loop.simps [simp del]

fun on_readable :: "recv_result list \<Rightarrow> Connection \<Rightarrow> Connection \<times> conn_effect list" where
  "on_readable [] c = (c, [])"
| "on_readable (Got bs # rs) c =
     (if bs \<noteq> [] then
        (let (ok, c', frames) = parse_loop (c\<lparr>rbuf := rbuf c @ bs\<rparr>) [] in
         if ok then (let (c'', es) = on_readable rs c' in (c'', map OnFrame frames @ es))
         else (let (c'', es) = schedule_close c' in (c'', map OnFrame frames @ es)))
      else schedule_close c)"
| "on_readable (RecvErr e # rs) c =
     (case e of
        EAGAIN \<Rightarrow> (c, [])
      | EINTR \<Rightarrow> on_readable rs c
      | OtherErrno \<Rightarrow> schedule_close c)"

subsection \<open>Writing\<close>

definition send_frame :: "string \<Rightarrow> Connection \<Rightarrow> Connection \<times> conn_effect list" where
  "send_frame payload c =
     (if closing c \<or> closed c then (c, [])
      else if length payload > unat (cn_max_frame c) then (c, [])
      else
        (let len = word_of_nat (length payload) :: u32;
             hdr = [ucast (drop_bit 24 len AND 0xFF), ucast (drop_bit 16 len AND 0xFF),
                    ucast (drop_bit 8 len AND 0xFF), ucast (len AND 0xFF)] :: u8 list
         in (c\<lparr>wbuf := wbuf c @ hdr @ bytes_of payload\<rparr>, [Post (Flush (cn_id c))])))"

definition flush_done :: "Connection \<Rightarrow> Connection \<times> conn_effect list" where
  "flush_done c = (if write_armed c then (c\<lparr>write_armed := False\<rparr>, [Modify (cn_fd c) False]) else (c, []))"

definition flush_blocked :: "Connection \<Rightarrow> Connection \<times> conn_effect list" where
  "flush_blocked c = (if \<not> write_armed c then (c\<lparr>write_armed := True\<rparr>, [Modify (cn_fd c) True]) else (c, []))"

fun try_flush_locked :: "send_result list \<Rightarrow> Connection \<Rightarrow> Connection \<times> conn_effect list" where
  "try_flush_locked [] c = (if wbuf c = [] then flush_done c else flush_blocked c)"
| "try_flush_locked (Took n # rs) c =
     (if wbuf c = [] then flush_done c
      else
        (let k = min (Suc n) (length (wbuf c));
             (c', es) = try_flush_locked rs (c\<lparr>wbuf := drop k (wbuf c)\<rparr>)
         in (c', Wrote (take k (wbuf c)) # es)))"
| "try_flush_locked (SendErr e # rs) c =
     (if wbuf c = [] then flush_done c
      else
        (case e of
           EAGAIN \<Rightarrow> flush_blocked c
         | EINTR \<Rightarrow> try_flush_locked rs c
         | OtherErrno \<Rightarrow> (c, [Post (ScheduleClose (cn_id c))])))"

definition on_writable :: "send_result list \<Rightarrow> Connection \<Rightarrow> Connection \<times> conn_effect list" where
  "on_writable ss c = try_flush_locked ss c"

subsection \<open>Events and posted closures\<close>

text \<open>The mask of an event is two flags, readable and writable.\<close>

definition on_event :: "bool \<Rightarrow> bool \<Rightarrow> recv_result list \<Rightarrow> send_result list \<Rightarrow> Connection \<Rightarrow> Connection \<times> conn_effect list"
where
  "on_event rd wr rs ss c =
     (if closed c then (c, [])
      else
        (let (c1, es1) = (if rd then on_readable rs c else (c, [])) in
         if closed c1 then (c1, es1)
         else (let (c2, es2) = (if wr then on_writable ss c1 else (c1, [])) in (c2, es1 @ es2))))"

fun run_task :: "task \<Rightarrow> send_result list \<Rightarrow> Connection \<Rightarrow> Connection \<times> conn_effect list" where
  "run_task (Flush i) ss c = (if closed c then (c, []) else try_flush_locked ss c)"
| "run_task (DeliverClose i) ss c = deliver_close c"
| "run_task (ScheduleClose i) ss c = schedule_close c"

section \<open>The parser implements the specification of a frame stream\<close>

definition conn_pending :: "Connection \<Rightarrow> u8 list" where
  "conn_pending c = (if reading_length c then rbuf c else store_be32 (cn_want c) @ rbuf c)"

definition conn_inv :: "Connection \<Rightarrow> bool" where
  "conn_inv c \<longleftrightarrow> (if reading_length c then cn_want c = 4 else cn_want c \<noteq> 0 \<and> \<not> cn_max_frame c < cn_want c)"

text \<open>Reading leaves everything but the read state alone.\<close>

definition same_but_read :: "Connection \<Rightarrow> Connection \<Rightarrow> bool" where
  "same_but_read c c' \<longleftrightarrow>
     c' = c\<lparr>rbuf := rbuf c', reading_length := reading_length c', cn_want := cn_want c'\<rparr>"

lemma same_but_read_refl [simp]: "same_but_read c c"
  by (simp add: same_but_read_def)

lemma same_but_read_trans: "same_but_read c1 c2 \<Longrightarrow> same_but_read c2 c3 \<Longrightarrow> same_but_read c1 c3"
  by (cases c1; cases c2; cases c3) (simp add: same_but_read_def)

lemma same_but_read_fields:
  "same_but_read c c' \<Longrightarrow> cn_id c' = cn_id c \<and> cn_fd c' = cn_fd c \<and> cn_max_frame c' = cn_max_frame c \<and> wbuf c' = wbuf c \<and>
     write_armed c' = write_armed c \<and> closing c' = closing c \<and> closed c' = closed c \<and> cn_user_id c' = cn_user_id c \<and>
     cn_token c' = cn_token c"
  by (cases c; cases c') (simp add: same_but_read_def)

lemma same_but_read_update [simp]:
  "same_but_read (c\<lparr>rbuf := b\<rparr>) c' = same_but_read c c'"
  "same_but_read (c\<lparr>reading_length := l\<rparr>) c' = same_but_read c c'"
  "same_but_read (c\<lparr>cn_want := w\<rparr>) c' = same_but_read c c'"
  by (cases c; cases c'; simp add: same_but_read_def)+

lemma parse_loop_short:
  "reading_length c \<Longrightarrow> length (rbuf c) < 4 \<Longrightarrow> parse_loop c frames = (True, c, frames)"
  by (simp add: parse_loop.simps parse_len_def)

lemma parse_loop_body:
  "\<not> reading_length c \<Longrightarrow> parse_loop c frames =
     (if length (rbuf c) < unat (cn_want c) then (True, c, frames)
      else parse_loop (c\<lparr>rbuf := drop (unat (cn_want c)) (rbuf c), reading_length := True, cn_want := 4\<rparr>)
             (frames @ [string_of (take (unat (cn_want c)) (rbuf c))]))"
  by (simp add: parse_loop.simps [of c] parse_len_def)

lemma parse_loop_header:
  "reading_length c \<Longrightarrow> rbuf c = store_be32 v @ r \<Longrightarrow> parse_loop c frames =
     (if v = 0 \<or> cn_max_frame c < v then (False, c, frames)
      else parse_loop (c\<lparr>cn_want := v, rbuf := r, reading_length := False\<rparr>) frames)"
  by (simp add: parse_loop.simps [of c] parse_len_def Let_def
      parse_loop.simps [of "c\<lparr>cn_want := v, rbuf := r, reading_length := False\<rparr>"])

lemma parse_loop_parse:
  "conn_inv c \<Longrightarrow> parse_frames (cn_max_frame c) (conn_pending c) = (fs, rest, e) \<Longrightarrow>
   \<exists>c'. parse_loop c frames = (e = None, c', frames @ fs) \<and> conn_pending c' = rest \<and> conn_inv c' \<and> same_but_read c c'"
proof (induction "2 * length (rbuf c) + (if reading_length c then 0 else 1 :: nat)"
    arbitrary: c frames fs rule: less_induct)
  case less
  consider (short) "reading_length c" "length (rbuf c) < 4"
    | (head) v r where "reading_length c" "rbuf c = store_be32 v @ r"
    | (body) "\<not> reading_length c"
    by (metis header_split not_less)
  then show ?case
  proof cases
    case short
    with less.prems show ?thesis by (auto simp: parse_loop_short conn_pending_def)
  next
    case head
    let ?c = "c\<lparr>cn_want := v, rbuf := r, reading_length := False\<rparr>"
    show ?thesis
    proof (cases "v = 0 \<or> cn_max_frame c < v")
      case True
      with less.prems head show ?thesis
        by (auto simp: parse_loop_header conn_pending_def parse_frames_header split: if_splits)
    next
      case False
      have "\<exists>c'. parse_loop ?c frames = (e = None, c', frames @ fs) \<and> conn_pending c' = rest \<and> conn_inv c' \<and> same_but_read ?c c'"
        by (rule less.hyps) (use less.prems head False in \<open>simp_all add: conn_pending_def conn_inv_def\<close>)
      with head False show ?thesis
        by (auto simp: parse_loop_header)
    qed
  next
    case body
    let ?w = "unat (cn_want c)"
    let ?c = "c\<lparr>rbuf := drop ?w (rbuf c), reading_length := True, cn_want := 4\<rparr>"
    from body less.prems have v: "cn_want c \<noteq> 0" "\<not> cn_max_frame c < cn_want c" by (simp_all add: conn_inv_def)
    show ?thesis
    proof (cases "length (rbuf c) < ?w")
      case True
      with body v less.prems show ?thesis
        by (auto simp: parse_loop_body conn_pending_def parse_frames_header)
    next
      case False
      obtain fs1 where fs1: "parse_frames (cn_max_frame ?c) (conn_pending ?c) = (fs1, rest, e)"
        and fs: "fs = string_of (take ?w (rbuf c)) # fs1"
        using less.prems(2) body v False
        by (auto simp: conn_pending_def parse_frames_header split: prod.splits)
      have "\<exists>c'. parse_loop ?c (frames @ [string_of (take ?w (rbuf c))]) =
          (e = None, c', (frames @ [string_of (take ?w (rbuf c))]) @ fs1) \<and> conn_pending c' = rest \<and> conn_inv c' \<and> same_but_read ?c c'"
        by (rule less.hyps [OF _ _ fs1]) (use False body v in \<open>simp_all add: conn_inv_def\<close>)
      with False body show ?thesis
        by (auto simp: parse_loop_body fs)
    qed
  qed
qed

text \<open>One piece of input.\<close>

lemma parse_piece:
  assumes "conn_inv c" and "parse_frames (cn_max_frame c) (conn_pending c @ bs) = (fs, rest, e)"
  shows "\<exists>c'. parse_loop (c\<lparr>rbuf := rbuf c @ bs\<rparr>) [] = (e = None, c', fs) \<and>
    conn_pending c' = rest \<and> conn_inv c' \<and> same_but_read c c'"
proof -
  let ?c = "c\<lparr>rbuf := rbuf c @ bs\<rparr>"
  have "conn_inv ?c" "conn_pending ?c = conn_pending c @ bs"
    using assms(1) by (simp_all add: conn_inv_def conn_pending_def)
  with parse_loop_parse [of ?c fs rest e "[]"] assms(2) show ?thesis
    by (auto)
qed

definition feed_conn :: "Connection \<Rightarrow> u8 list \<Rightarrow> Connection \<times> string list option" where
  "feed_conn c bs = (case parse_loop (c\<lparr>rbuf := rbuf c @ bs\<rparr>) [] of
     (ok, c', fs) \<Rightarrow> (c', if ok then Some fs else None))"

interpretation server_parser: frame_stream feed_conn conn_pending cn_max_frame conn_inv
proof
  fix c bs fs rest
  assume "conn_inv c" "parse_frames (cn_max_frame c) (conn_pending c @ bs) = (fs, rest, None)"
  from parse_piece [OF this] show "\<exists>c'. feed_conn c bs = (c', Some fs) \<and> conn_pending c' = rest \<and>
      cn_max_frame c' = cn_max_frame c \<and> conn_inv c'"
    by (auto simp: feed_conn_def dest: same_but_read_fields)
next
  fix c bs fs rest e
  assume "conn_inv c" "parse_frames (cn_max_frame c) (conn_pending c @ bs) = (fs, rest, Some e)"
  from parse_piece [OF this] show "snd (feed_conn c bs) = None" by (auto simp: feed_conn_def)
qed

section \<open>A readable event\<close>

text \<open>What the results of \<open>recv\<close> amount to: the bytes read, and whether the connection is given up.\<close>

fun received :: "recv_result list \<Rightarrow> u8 list \<times> bool" where
  "received [] = ([], False)"
| "received (Got bs # rs) = (if bs = [] then ([], True) else (let (bs', stop) = received rs in (bs @ bs', stop)))"
| "received (RecvErr EAGAIN # rs) = ([], False)"
| "received (RecvErr EINTR # rs) = received rs"
| "received (RecvErr OtherErrno # rs) = ([], True)"

text \<open>No complete frame is waiting between two calls.\<close>

definition conn_idle :: "Connection \<Rightarrow> bool" where
  "conn_idle c \<longleftrightarrow> conn_inv c \<and> parse_frames (cn_max_frame c) (conn_pending c) = ([], conn_pending c, None)"

lemma schedule_close_read [simp]:
  "conn_pending (fst (schedule_close c)) = conn_pending c" "conn_inv (fst (schedule_close c)) = conn_inv c"
  by (simp_all add: schedule_close_def conn_pending_def conn_inv_def)

abbreviation give_up :: "Connection \<Rightarrow> bool \<Rightarrow> conn_effect list" where
  "give_up c b \<equiv> (if b \<and> \<not> closing c then [Post (DeliverClose (cn_id c))] else [])"

lemma on_readable_effects:
  assumes "conn_idle c" and "received rs = (bs, stop)" and "parse_frames (cn_max_frame c) (conn_pending c @ bs) = (fs, rest, e)"
  shows "snd (on_readable rs c) = map OnFrame fs @ give_up c (stop \<or> e \<noteq> None)"
  using assms
proof (induction rs c arbitrary: bs fs rule: on_readable.induct)
  case (1 c)
  then show ?case by (simp add: conn_idle_def)
next
  case (2 b rs c)
  show ?case
  proof (cases "b = []")
    case True
    with 2(2-) show ?thesis by (simp add: conn_idle_def schedule_close_def)
  next
    case False
    obtain bs1 where r: "received rs = (bs1, stop)" "bs = b @ bs1"
      using 2(3) False by (auto split: prod.splits)
    obtain fs1 rest1 e1 where p1: "parse_frames (cn_max_frame c) (conn_pending c @ b) = (fs1, rest1, e1)"
      by (metis prod_cases3)
    from parse_piece [OF _ p1] 2(2) obtain c1 where c1: "parse_loop (c\<lparr>rbuf := rbuf c @ b\<rparr>) [] = (e1 = None, c1, fs1)"
      "conn_pending c1 = rest1" "conn_inv c1" "same_but_read c c1" by (auto simp: conn_idle_def)
    note s = same_but_read_fields [OF c1(4)]
    show ?thesis
    proof (cases e1)
      case None
      note p1' = p1 [unfolded None]
      have idle: "conn_idle c1" using c1 s parse_frames_rest [OF p1'] by (simp add: conn_idle_def)
      obtain fs2 e2 rest2 where p2: "parse_frames (cn_max_frame c) (rest1 @ bs1) = (fs2, rest2, e2)" by (metis prod_cases3)
      from parse_frames_append [OF p1', of bs1] p2 2(4) r have fs: "fs = fs1 @ fs2" "rest2 = rest" "e2 = e" by simp_all
      have "snd (on_readable rs c1) = map OnFrame fs2 @ give_up c1 (stop \<or> e \<noteq> None)"
        by (rule 2(1) [OF False c1(1) [unfolded None, simplified, symmetric] refl refl TrueI idle r(1)]) (use p2 fs s c1 in simp)
      with False c1(1) None fs(1) s show ?thesis by (simp add: split_beta)
    next
      case (Some x)
      from parse_frames_bad_append [OF p1 [unfolded Some], of bs1] 2(4) r have "fs = fs1" "e = Some x" by simp_all
      with False c1(1) Some s show ?thesis by (simp add: split_beta schedule_close_def)
    qed
  qed
next
  case (3 e' rs c)
  then show ?case by (cases e') (auto simp: conn_idle_def schedule_close_def)
qed

section \<open>Writing\<close>

lemma send_frame_hdr:
  "send_frame p c =
     (if closing c \<or> closed c \<or> length p > unat (cn_max_frame c) then (c, [])
      else (c\<lparr>wbuf := wbuf c @ bytes_of (frame p)\<rparr>, [Post (Flush (cn_id c))]))"
  by (simp add: send_frame_def frame_bytes store_be32_def and_FF ucast_take_bit_8 Let_def)

lemma send_frame_fields [simp]:
  "cn_id (fst (send_frame p c)) = cn_id c" "cn_user_id (fst (send_frame p c)) = cn_user_id c"
  "cn_token (fst (send_frame p c)) = cn_token c" "closing (fst (send_frame p c)) = closing c"
  "closed (fst (send_frame p c)) = closed c" "cn_max_frame (fst (send_frame p c)) = cn_max_frame c"
  by (simp_all add: send_frame_hdr)

fun wrote :: "conn_effect list \<Rightarrow> u8 list" where
  "wrote [] = []"
| "wrote (Wrote bs # es) = bs @ wrote es"
| "wrote (e # es) = wrote es"

lemma wrote_append [simp]: "wrote (es @ es') = wrote es @ wrote es'"
  by (induction es rule: wrote.induct) auto

lemma flush_parts [simp]:
  "wrote (snd (flush_done c)) = []" "wbuf (fst (flush_done c)) = wbuf c"
  "wrote (snd (flush_blocked c)) = []" "wbuf (fst (flush_blocked c)) = wbuf c"
  "\<not> write_armed (fst (flush_done c))" "write_armed (fst (flush_blocked c))"
  by (auto simp: flush_done_def flush_blocked_def)

lemma flush_stream: "wrote (snd (try_flush_locked ss c)) @ wbuf (fst (try_flush_locked ss c)) = wbuf c"
  by (induction ss c rule: try_flush_locked.induct) (auto simp: split_beta Let_def split: errno.split)

lemma flush_progress:
  "wbuf (fst (try_flush_locked ss c)) \<noteq> [] \<Longrightarrow>
   write_armed (fst (try_flush_locked ss c)) \<or> (\<exists>i. Post (ScheduleClose i) \<in> set (snd (try_flush_locked ss c)))"
  by (induction ss c rule: try_flush_locked.induct) (auto simp: split_beta Let_def split: errno.splits if_splits)

lemma flush_disarms:
  "wbuf (fst (try_flush_locked ss c)) = [] \<Longrightarrow> \<not> write_armed (fst (try_flush_locked ss c))"
  by (induction ss c rule: try_flush_locked.induct) (auto simp: split_beta Let_def split: errno.splits if_splits)

text \<open>What a kernel that only takes bytes or is interrupted takes in all.\<close>

fun capacity :: "send_result list \<Rightarrow> nat option" where
  "capacity [] = Some 0"
| "capacity (Took n # ss) = map_option (\<lambda>k. Suc n + k) (capacity ss)"
| "capacity (SendErr EINTR # ss) = capacity ss"
| "capacity (SendErr e # ss) = None"

lemma flush_completes:
  "capacity ss = Some k \<Longrightarrow> length (wbuf c) \<le> k \<Longrightarrow>
   wbuf (fst (try_flush_locked ss c)) = [] \<and> wrote (snd (try_flush_locked ss c)) = wbuf c"
proof (induction ss arbitrary: c k)
  case (Cons s ss)
  show ?case
  proof (cases "wbuf c = []")
    case True
    then show ?thesis by (cases s) auto
  next
    case False
    show ?thesis
    proof (cases s)
      case (Took n)
      with Cons.prems obtain k' where k': "capacity ss = Some k'" "k = Suc n + k'" by auto
      from Cons.IH [OF k'(1), of "c\<lparr>wbuf := drop (min (Suc n) (length (wbuf c))) (wbuf c)\<rparr>"] Cons.prems(2) k'(2) False Took
      show ?thesis by (auto simp: split_beta Let_def)
    next
      case (SendErr e)
      with Cons False show ?thesis by (cases e) auto
    qed
  qed
qed simp

section \<open>Runs of a connection\<close>

datatype conn_op =
    DoSend string
  | DoEvent bool bool "recv_result list" "send_result list"
  | DoTask task "send_result list"
  | DoClose

fun conn_step :: "conn_op \<Rightarrow> Connection \<Rightarrow> Connection \<times> conn_effect list" where
  "conn_step (DoSend p) c = send_frame p c"
| "conn_step (DoEvent rd wr rs ss) c = on_event rd wr rs ss c"
| "conn_step (DoTask t ss) c = run_task t ss c"
| "conn_step DoClose c = schedule_close c"

fun conn_run :: "conn_op list \<Rightarrow> Connection \<Rightarrow> Connection \<times> conn_effect list" where
  "conn_run [] c = (c, [])"
| "conn_run (x # xs) c = (let (c', es) = conn_step x c; (c'', es') = conn_run xs c' in (c'', es @ es'))"

text \<open>The payloads that \<open>send_frame\<close> does not drop.\<close>

fun accepted :: "conn_op list \<Rightarrow> Connection \<Rightarrow> string list" where
  "accepted [] c = []"
| "accepted (DoSend p # xs) c =
     (if closing c \<or> closed c \<or> length p > unat (cn_max_frame c) then [] else [p]) @ accepted xs (fst (send_frame p c))"
| "accepted (x # xs) c = accepted xs (fst (conn_step x c))"

lemma schedule_close_fields [simp]:
  "wbuf (fst (schedule_close c)) = wbuf c" "wrote (snd (schedule_close c)) = []"
  "closed (fst (schedule_close c)) = closed c" "OnClose \<notin> set (snd (schedule_close c))"
  by (simp_all add: schedule_close_def)

lemma parse_loop_same: "same_but_read c (fst (snd (parse_loop c frames)))"
proof (induction c frames rule: parse_loop.induct)
  case (1 c frames)
  show ?case
  proof (cases "parse_len c")
    case (Some x)
    then show ?thesis
    proof (cases x)
      case (Some c')
      then have s: "same_but_read c c'" using \<open>parse_len c = Some x\<close>
        by (cases c) (auto simp: parse_len_def same_but_read_def Let_def split: if_splits)
      show ?thesis
      proof (cases "length (rbuf c') < unat (cn_want c')")
        case False
        from 1 [OF \<open>parse_len c = Some x\<close> Some False] s show ?thesis
          using \<open>parse_len c = Some x\<close> Some False
          by (auto simp: parse_loop.simps [of c] intro: same_but_read_trans)
      qed (use \<open>parse_len c = Some x\<close> Some s in \<open>simp add: parse_loop.simps [of c]\<close>)
    qed (simp add: parse_loop.simps [of c])
  qed (simp add: parse_loop.simps [of c])
qed

lemma wrote_frames [simp]: "wrote (map OnFrame fs) = []"
  by (induction fs) auto

lemma on_readable_write:
  "wbuf (fst (on_readable rs c)) = wbuf c \<and> wrote (snd (on_readable rs c)) = [] \<and>
   closed (fst (on_readable rs c)) = closed c \<and> OnClose \<notin> set (snd (on_readable rs c))"
proof (induction rs c rule: on_readable.induct)
  case (2 b rs c)
  obtain ok c1 fs where p: "parse_loop (c\<lparr>rbuf := rbuf c @ b\<rparr>) [] = (ok, c1, fs)" by (metis prod_cases3)
  have "same_but_read c c1" using parse_loop_same [of "c\<lparr>rbuf := rbuf c @ b\<rparr>" "[]"] p by simp
  note s = same_but_read_fields [OF this]
  show ?case
  proof (cases "b \<noteq> [] \<and> ok")
    case True
    with 2 [OF _ p [symmetric] refl refl] p s show ?thesis by (auto simp: split_beta)
  qed (use p s in \<open>auto simp: split_beta\<close>)
next
  case (3 e rs c)
  then show ?case by (cases e) auto
qed auto

lemma flush_closed:
  "closed (fst (try_flush_locked ss c)) = closed c \<and> OnClose \<notin> set (snd (try_flush_locked ss c))"
  by (induction ss c rule: try_flush_locked.induct)
    (auto simp: split_beta Let_def flush_done_def flush_blocked_def split: errno.splits)

lemma step_stream:
  "wrote (snd (conn_step x c)) @ wbuf (fst (conn_step x c)) =
   wbuf c @ concat (map (\<lambda>p. bytes_of (frame p)) (accepted [x] c))"
proof (cases x)
  case (DoEvent rd wr rs ss)
  have "wrote (snd (on_event rd wr rs ss c)) @ wbuf (fst (on_event rd wr rs ss c)) = wbuf c"
    using on_readable_write [of rs c] flush_stream [of ss c] flush_stream [of ss "fst (on_readable rs c)"]
    by (auto simp: on_event_def on_writable_def split_beta Let_def)
  with DoEvent show ?thesis by simp
next
  case (DoTask t ss)
  then show ?thesis using flush_stream [of ss c] by (cases t) (auto simp: deliver_close_def)
qed (simp_all add: send_frame_hdr)

lemma accepted_Cons: "accepted (x # xs) c = accepted [x] c @ accepted xs (fst (conn_step x c))"
  by (cases x) simp_all

lemma run_stream:
  "wrote (snd (conn_run xs c)) @ wbuf (fst (conn_run xs c)) =
   wbuf c @ concat (map (\<lambda>p. bytes_of (frame p)) (accepted xs c))"
proof (induction xs arbitrary: c)
  case (Cons x xs)
  from step_stream [of x c] Cons [of "fst (conn_step x c)"] show ?case
    unfolding accepted_Cons [of x xs] by (simp add: split_beta Let_def)
qed simp

lemma step_close:
  "count_list (snd (conn_step x c)) OnClose = (if closed (fst (conn_step x c)) \<and> \<not> closed c then 1 else 0) \<and>
   (closed c \<longrightarrow> closed (fst (conn_step x c)))"
proof (cases x)
  case (DoSend p)
  then show ?thesis by (simp add: send_frame_hdr)
next
  case (DoEvent rd wr rs ss)
  then show ?thesis
    using on_readable_write [of rs c] flush_closed [of ss c] flush_closed [of ss "fst (on_readable rs c)"]
    by (auto simp: on_event_def on_writable_def split_beta Let_def count_list_0_iff)
next
  case (DoTask t ss)
  then show ?thesis using flush_closed [of ss c]
    by (cases t) (auto simp: deliver_close_def count_list_0_iff schedule_close_def)
next
  case DoClose
  then show ?thesis by (auto simp: count_list_0_iff)
qed

lemma run_close:
  "count_list (snd (conn_run xs c)) OnClose = (if closed (fst (conn_run xs c)) \<and> \<not> closed c then 1 else 0) \<and>
   (closed c \<longrightarrow> closed (fst (conn_run xs c)))"
proof (induction xs arbitrary: c)
  case (Cons x xs)
  from step_close [of x c] Cons [of "fst (conn_step x c)"] show ?case
    by (cases "closed c"; cases "closed (fst (conn_step x c))") (simp_all add: split_beta Let_def)
qed simp

lemma step_after_close: "closed c \<Longrightarrow> wrote (snd (conn_step x c)) = [] \<and> (\<forall>p. OnFrame p \<notin> set (snd (conn_step x c)))"
proof (cases x)
  case (DoTask t ss)
  assume "closed c"
  with DoTask show ?thesis by (cases t) (auto simp: deliver_close_def schedule_close_def)
qed (auto simp: send_frame_hdr on_event_def schedule_close_def)

lemma run_after_close: "closed c \<Longrightarrow> wrote (snd (conn_run xs c)) = [] \<and> (\<forall>p. OnFrame p \<notin> set (snd (conn_run xs c)))"
proof (induction xs arbitrary: c)
  case (Cons x xs)
  from step_after_close [OF Cons.prems, of x] step_close [of x c] Cons.IH [of "fst (conn_step x c)"] Cons.prems
  show ?case by (simp add: split_beta Let_def)
qed simp

lemma flush_same: "cn_max_frame (fst (try_flush_locked ss c)) = cn_max_frame c"
  by (induction ss c rule: try_flush_locked.induct)
    (auto simp: split_beta Let_def flush_done_def flush_blocked_def split: errno.splits)

lemma on_readable_same: "cn_max_frame (fst (on_readable rs c)) = cn_max_frame c"
proof (induction rs c rule: on_readable.induct)
  case (2 b rs c)
  obtain ok c1 fs where p: "parse_loop (c\<lparr>rbuf := rbuf c @ b\<rparr>) [] = (ok, c1, fs)" by (metis prod_cases3)
  have "same_but_read c c1" using parse_loop_same [of "c\<lparr>rbuf := rbuf c @ b\<rparr>" "[]"] p by simp
  with 2 [OF _ p [symmetric] refl refl] p show ?case
    by (auto simp: split_beta schedule_close_def dest: same_but_read_fields)
next
  case (3 e rs c)
  then show ?case by (cases e) (auto simp: schedule_close_def)
qed auto

lemma step_max_frame: "cn_max_frame (fst (conn_step x c)) = cn_max_frame c"
proof (cases x)
  case (DoEvent rd wr rs ss)
  then show ?thesis
    by (auto simp: on_event_def on_writable_def split_beta Let_def on_readable_same flush_same)
next
  case (DoTask t ss)
  then show ?thesis by (cases t) (auto simp: deliver_close_def schedule_close_def flush_same)
qed (auto simp: schedule_close_def)

lemma accepted_length: "p \<in> set (accepted xs c) \<Longrightarrow> length p \<le> unat (cn_max_frame c)"
proof (induction xs arbitrary: c)
  case (Cons x xs)
  have "p \<in> set (accepted [x] c) \<Longrightarrow> length p \<le> unat (cn_max_frame c)" by (cases x) (auto split: if_splits)
  with Cons.prems Cons.IH [of "fst (conn_step x c)"] step_max_frame [of x c] show ?case
    unfolding accepted_Cons [of x xs] by auto
qed simp

section \<open>Properties\<close>

lemma make_idle: "conn_idle (Connection_make i s mx)" "conn_pending (Connection_make i s mx) = []"
  by (simp_all add: conn_idle_def conn_inv_def conn_pending_def Connection_make_def)



text \<open>
  C20. From the server to the client: whatever mixture of sends, reads, flushes and events a
  connection goes through, and however the kernel cuts the output, once the buffer is empty
  the client's decoder yields exactly the payloads that \<open>send_frame\<close> accepted, in the order
  of the calls, provided that none of them is empty and that the limit of the server is
  not above that of the client.
\<close>

theorem server_to_client:
  assumes "conn_run xs (Connection_make i s mx) = (c, es)" and "wbuf c = []"
    and "mx \<le> max_frame_bytes FrameDecoder_init" and "[] \<notin> set (accepted xs (Connection_make i s mx))" and "concat cs = wrote es"
  shows "\<exists>d. feed_all feed_client FrameDecoder_init cs = (d, Some (accepted xs (Connection_make i s mx))) \<and> decoder_pending d = []"
proof -
  let ?c0 = "Connection_make i s mx"
  have "wrote es = concat (map (\<lambda>p. bytes_of (frame p)) (accepted xs ?c0))"
    using run_stream [of xs ?c0] assms(1,2) by (simp add: Connection_make_def)
  moreover have "valid_payload (max_frame_bytes FrameDecoder_init) p" if "p \<in> set (accepted xs ?c0)" for p
  proof -
    have "length p \<le> unat mx" using accepted_length [OF that] by (simp add: Connection_make_def)
    moreover have "unat mx \<le> unat (max_frame_bytes FrameDecoder_init)" using assms(3) by (simp only: word_le_nat_alt)
    moreover have "p \<noteq> []" using that assms(4) by blast
    ultimately show ?thesis by (simp add: valid_payload_def)
  qed
  moreover have "decoder_inv FrameDecoder_init" "decoder_pending FrameDecoder_init = []"
    by (simp_all add: FrameDecoder_init_def decoder_inv_def decoder_pending_def)
  ultimately show ?thesis
    using client_decoder.feed_all_frames [of FrameDecoder_init "accepted xs ?c0" cs] assms(5) by auto
qed

theorem server_to_client_witness:
  "\<exists>d. feed_all feed_client FrameDecoder_init [[0, 0, 0, 2], [104], [105]] = (d, Some [''hi'']) \<and> decoder_pending d = []"
proof -
  let ?xs = "[DoSend ''hi'', DoTask (Flush 5) [Took 3, SendErr EAGAIN], DoEvent False True [] [Took 9]]"
  have f: "bytes_of (frame ''hi'') = [0, 0, 0, 2, 104, 105]" by code_simp
  obtain c es where run: "conn_run ?xs (Connection_make 5 9 65536) = (c, es)" by fastforce
  then have es: "wbuf c = []" "wrote es = [0, 0, 0, 2, 104, 105]"
    by (auto simp: send_frame_hdr f Connection_make_def flush_blocked_def flush_done_def on_event_def on_writable_def split_beta Let_def)
  have acc: "accepted ?xs (Connection_make 5 9 65536) = [''hi'']" by (simp add: Connection_make_def)
  have mx: "(65536 :: u32) \<le> max_frame_bytes FrameDecoder_init" by (simp add: FrameDecoder_init_def)
  have "concat [[0, 0, 0, 2], [104], [105]] = wrote es" by (simp add: es(2))
  then show ?thesis by (rule server_to_client [OF run es(1) mx, unfolded acc, rotated]) simp
qed



text \<open>
  C22. A connection is closed once: in any run of a connection the close handler is called
  once if it ends closed and never if not, and after the close no byte is written and no
  frame handed over.
\<close>

theorem close_delivered_once:
  assumes "conn_run xs (Connection_make i s mx) = (c, es)"
  shows "count_list es OnClose = (if closed c then 1 else 0) \<and>
    (closed c \<longrightarrow> (\<forall>ys. wrote (snd (conn_run ys c)) = [] \<and> (\<forall>p. OnFrame p \<notin> set (snd (conn_run ys c)))))"
  using run_close [of xs "Connection_make i s mx"] run_after_close [of c] assms
  by (simp add: Connection_make_def)

theorem close_delivered_once_witness:
  "count_list (snd (conn_run [DoClose, DoEvent True False [Got []] [], DoTask (DeliverClose 5) [], DoTask (DeliverClose 5) []]
     (Connection_make 5 9 65536))) OnClose = 1"
proof -
  let ?xs = "[DoClose, DoEvent True False [Got []] [], DoTask (DeliverClose 5) [], DoTask (DeliverClose 5) []]"
  obtain c es where r: "conn_run ?xs (Connection_make 5 9 65536) = (c, es)" by fastforce
  then have "closed c"
    by (auto simp: Connection_make_def on_event_def schedule_close_def deliver_close_def split_beta Let_def)
  with close_delivered_once [OF r] r show ?thesis by simp
qed

end
