(* ===== verification/Chat_State.thy ===== *)
theory Chat_State
  imports Messages Session Presence Room_Manager Connection
begin

text \<open>
  The state a request works on, and the calls that read and change it.

  \<open>ChatServer\<close> (\<open>src/include/chat/chat_server.h\<close>) owns the store, the session manager, presence
  and the room manager; connections are objects shared by pointers. Here they are one
  record: a shared pointer to a connection is its identifier, and the connection is looked up
  in \<open>srv_conns\<close>. Closures posted to the reactor are appended to \<open>srv_posts\<close>. Readings
  of the clock and random bytes come from two streams, consumed from the front, so that
  every call sees its own; \<open>srv_ub\<close> and \<open>srv_to_chars\<close> are the two parameters of the JSON layer.

  A computation takes a state and returns a result or an exception, with the state at that
  point; \<open>seq\<close> runs one after the other. The rules for \<open>runs\<close> carry the proofs about
  the handlers: a computation that starts in a good state returns, without exception, in
  a good state.
\<close>

section \<open>State\<close>

record server =
  srv_repos :: Repositories
  srv_sessions :: SessionManager
  srv_presence :: Presence
  srv_rooms :: RoomManager
  srv_conns :: "(conn_id \<times> Connection) list"
  srv_posts :: "task list"
  srv_clock :: "nat \<Rightarrow> i64"
  srv_ticks :: nat
  srv_entropy :: "nat \<Rightarrow> u8"
  srv_drawn :: nat
  srv_ub :: "double \<Rightarrow> i64"
  srv_to_chars :: "double \<Rightarrow> string"
  srv_max_message :: u32
  srv_pbkdf2_iter :: u32

type_synonym 'a comp = "server \<Rightarrow> (exn + 'a) \<times> server"

section \<open>Computations\<close>

definition ret :: "'a \<Rightarrow> 'a comp" where
  "ret x s = (Inr x, s)"

definition throw :: "exn \<Rightarrow> 'a comp" where
  "throw e s = (Inl e, s)"

definition seq :: "'a comp \<Rightarrow> ('a \<Rightarrow> 'b comp) \<Rightarrow> 'b comp" where
  "seq m f s = (case m s of (Inl e, s') \<Rightarrow> (Inl e, s') | (Inr x, s') \<Rightarrow> f x s')"

definition get :: "(server \<Rightarrow> 'a) \<Rightarrow> 'a comp" where
  "get f s = (Inr (f s), s)"

definition modify :: "(server \<Rightarrow> server) \<Rightarrow> unit comp" where
  "modify f s = (Inr (), f s)"

text \<open>\<open>try { m } catch (const std::exception& e) { h }\<close>.\<close>

definition try_catch :: "'a comp \<Rightarrow> (exn \<Rightarrow> 'a comp) \<Rightarrow> 'a comp" where
  "try_catch m h s = (case m s of (Inl e, s') \<Rightarrow> h e s' | (Inr x, s') \<Rightarrow> (Inr x, s'))"

section \<open>Calls on the parts\<close>

definition now_unix_ms :: "i64 comp" where
  "now_unix_ms s = (Inr (srv_clock s (srv_ticks s)), s\<lparr>srv_ticks := Suc (srv_ticks s)\<rparr>)"

definition random_bytes :: "nat \<Rightarrow> u8 list comp" where
  "random_bytes n s =
     (Inr (map (srv_entropy s) [srv_drawn s ..< srv_drawn s + n]), s\<lparr>srv_drawn := srv_drawn s + n\<rparr>)"

text \<open>A call of the store that returns a value, that may throw, that changes it, and that does both.\<close>

definition repos_get :: "(Repositories \<Rightarrow> 'a) \<Rightarrow> 'a comp" where
  "repos_get f s = (Inr (f (srv_repos s)), s)"

definition repos_try :: "(Repositories \<Rightarrow> exn + 'a) \<Rightarrow> 'a comp" where
  "repos_try f s = (f (srv_repos s), s)"

definition repos_do :: "(Repositories \<Rightarrow> Repositories) \<Rightarrow> unit comp" where
  "repos_do f s = (Inr (), s\<lparr>srv_repos := f (srv_repos s)\<rparr>)"

definition repos_call :: "(Repositories \<Rightarrow> 'a \<times> Repositories) \<Rightarrow> 'a comp" where
  "repos_call f s = (let (x, r) = f (srv_repos s) in (Inr x, s\<lparr>srv_repos := r\<rparr>))"

text \<open>A call on a connection: its effects are closures posted to the reactor.\<close>

definition post_effects :: "conn_effect list \<Rightarrow> task list" where
  "post_effects es = concat (map (\<lambda>e. case e of Post t \<Rightarrow> [t] | _ \<Rightarrow> []) es)"

definition conn_call :: "conn_id \<Rightarrow> (Connection \<Rightarrow> Connection \<times> conn_effect list) \<Rightarrow> unit comp" where
  "conn_call i f s =
     (case map_of (srv_conns s) i of
        None \<Rightarrow> (Inr (), s)
      | Some c \<Rightarrow>
          (let (c', es) = f c
           in (Inr (), s\<lparr>srv_conns := AList.update i c' (srv_conns s), srv_posts := srv_posts s @ post_effects es\<rparr>)))"

definition conn_field :: "(Connection \<Rightarrow> 'a) \<Rightarrow> 'a \<Rightarrow> conn_id \<Rightarrow> 'a comp" where
  "conn_field f d i s = (Inr (case map_of (srv_conns s) i of Some c \<Rightarrow> f c | None \<Rightarrow> d), s)"

abbreviation conn_user_id :: "conn_id \<Rightarrow> user_id comp" where
  "conn_user_id \<equiv> conn_field cn_user_id 0"

abbreviation conn_session_token :: "conn_id \<Rightarrow> string comp" where
  "conn_session_token \<equiv> conn_field cn_token []"

definition conn_set :: "conn_id \<Rightarrow> (Connection \<Rightarrow> Connection) \<Rightarrow> unit comp" where
  "conn_set i f = conn_call i (\<lambda>c. (f c, []))"

text \<open>\<open>j.dump ()\<close> and \<open>serialize (j)\<close>.\<close>

definition dump_json :: "json \<Rightarrow> string comp" where
  "dump_json j s = (case serialize (srv_to_chars s) j of Some p \<Rightarrow> (Inr p, s) | None \<Rightarrow> (Inl TypeError, s))"

text \<open>\<open>for (auto& c : conns) c->send_frame (p)\<close>.\<close>

fun send_each :: "conn_id list \<Rightarrow> string \<Rightarrow> unit comp" where
  "send_each [] p = ret ()"
| "send_each (i # is) p = seq (conn_call i (send_frame p)) (\<lambda>_. send_each is p)"

text \<open>\<open>create\<close>, \<open>validate\<close> and \<open>revoke\<close> of the session manager, on its store.\<close>

definition sessions_create :: "user_id \<Rightarrow> string comp" where
  "sessions_create uid =
     seq (random_bytes 32) (\<lambda>buf.
     seq now_unix_ms (\<lambda>now.
       (\<lambda>s. let (tok, sm, r) = create insert_session buf now uid (srv_sessions s, srv_repos s)
            in (Inr tok, s\<lparr>srv_sessions := sm, srv_repos := r\<rparr>))))"

text \<open>The clock is only read when the token is in the cache.\<close>

definition sessions_validate :: "string \<Rightarrow> SessionInfo option comp" where
  "sessions_validate tok =
     (\<lambda>s. if map_of (session_cache (srv_sessions s)) tok = None then (Inr None, s)
          else seq now_unix_ms (\<lambda>now s. let (info, sm) = validate now tok (srv_sessions s)
                                         in (Inr info, s\<lparr>srv_sessions := sm\<rparr>)) s)"

definition sessions_revoke :: "string \<Rightarrow> unit comp" where
  "sessions_revoke tok s =
     (let (sm, r) = revoke delete_session tok (srv_sessions s, srv_repos s)
      in (Inr (), s\<lparr>srv_sessions := sm, srv_repos := r\<rparr>))"

text \<open>\<open>is_member\<close>, \<open>members_of\<close>, \<open>on_join\<close> and \<open>on_leave\<close> of the room manager, on its store.\<close>

definition rooms_call :: "((room_id \<Rightarrow> user_id list) \<Rightarrow> RoomManager \<Rightarrow> 'a \<times> RoomManager) \<Rightarrow> 'a comp" where
  "rooms_call f s =
     (let (x, g) = f (\<lambda>rm. list_room_members rm (srv_repos s)) (srv_rooms s) in (Inr x, s\<lparr>srv_rooms := g\<rparr>))"

definition rooms_is_member :: "room_id \<Rightarrow> user_id \<Rightarrow> bool comp" where
  "rooms_is_member rm u = rooms_call (\<lambda>members. manager_is_member members rm u)"

definition rooms_members_of :: "room_id \<Rightarrow> user_id list comp" where
  "rooms_members_of rm = rooms_call (\<lambda>members. members_of members rm)"

definition rooms_on_join :: "room_id \<Rightarrow> user_id \<Rightarrow> unit comp" where
  "rooms_on_join rm u = rooms_call (\<lambda>members g. ((), on_join members rm u g))"

definition rooms_on_leave :: "room_id \<Rightarrow> user_id \<Rightarrow> unit comp" where
  "rooms_on_leave rm u = rooms_call (\<lambda>members g. ((), on_leave rm u g))"

section \<open>Start\<close>

text \<open>
  The members that \<open>ChatServer::init\<close> builds from the configuration, over a store \<open>r\<close>. Warming the
  sessions reads the clock once.
\<close>

definition ChatServer_init ::
  "i64 \<Rightarrow> u32 \<Rightarrow> u32 \<Rightarrow> (nat \<Rightarrow> i64) \<Rightarrow> (nat \<Rightarrow> u8) \<Rightarrow> (double \<Rightarrow> i64) \<Rightarrow> (double \<Rightarrow> string) \<Rightarrow> Repositories \<Rightarrow> server"
where
  "ChatServer_init ttl max_message pbkdf2_iter clock entropy ub to_chars r =
     \<lparr>srv_repos = r, srv_sessions = warm load_all_sessions (clock 0) r (SessionManager_new ttl), srv_presence = [],
      srv_rooms = RoomManager_new, srv_conns = [], srv_posts = [], srv_clock = clock, srv_ticks = 1, srv_entropy = entropy,
      srv_drawn = 0, srv_ub = ub, srv_to_chars = to_chars, srv_max_message = max_message, srv_pbkdf2_iter = pbkdf2_iter\<rparr>"

end
