(* ===== verification/Message_Router.thy ===== *)
theory Message_Router
  imports Chat_State
begin

text \<open>
  \<open>MessageRouter\<close> of \<open>src/include/chat/message_router.h\<close> and \<open>src/src/chat/message_router.cpp\<close>, with
  the transition handler that \<open>ChatServer::init\<close> gives to presence and the parts of
  \<open>Presence::bind\<close> and \<open>Presence::unbind\<close> that call it.
\<close>

section \<open>The code\<close>

text \<open>\<open>protocol::frame (event)\<close> is computed here and not used: \<open>send_frame\<close> adds the header.\<close>

definition send_dm :: "user_id \<Rightarrow> user_id \<Rightarrow> string \<Rightarrow> msg_id comp" where
  "send_dm sender receiver content =
     seq now_unix_ms (\<lambda>ts.
     seq (repos_call (insert_dm sender receiver content ts)) (\<lambda>mid.
     (case mid of
        None \<Rightarrow> ret 0
      | Some i \<Rightarrow>
          seq (dump_json (make_event_message i sender (Some receiver) None content ts)) (\<lambda>event.
          seq (get (\<lambda>s. connections_of receiver (srv_presence s))) (\<lambda>conns.
          seq (if conns = [] then repos_do (enqueue_undelivered i receiver)
               else seq (send_each conns event) (\<lambda>_. repos_do (update_message_status i 1))) (\<lambda>_.
          seq (get (\<lambda>s. connections_of sender (srv_presence s))) (\<lambda>own.
          seq (send_each own event) (\<lambda>_.
          ret i))))))))"

fun fan_out :: "user_id list \<Rightarrow> user_id \<Rightarrow> msg_id \<Rightarrow> string \<Rightarrow> unit comp" where
  "fan_out [] sender i event = ret ()"
| "fan_out (uid # uids) sender i event =
     seq (get (\<lambda>s. connections_of uid (srv_presence s))) (\<lambda>conns.
     seq (if conns = [] then if uid \<noteq> sender then repos_do (enqueue_undelivered i uid) else ret ()
          else send_each conns event) (\<lambda>_.
     fan_out uids sender i event))"

definition send_room :: "user_id \<Rightarrow> room_id \<Rightarrow> string \<Rightarrow> msg_id comp" where
  "send_room sender room content =
     seq (rooms_is_member room sender) (\<lambda>member.
     if \<not> member then ret 0
     else
       seq now_unix_ms (\<lambda>ts.
       seq (repos_call (insert_room_msg sender room content ts)) (\<lambda>mid.
       (case mid of
          None \<Rightarrow> ret 0
        | Some i \<Rightarrow>
            seq (dump_json (make_event_message i sender None (Some room) content ts)) (\<lambda>event.
            seq (rooms_members_of room) (\<lambda>members.
            seq (fan_out members sender i event) (\<lambda>_.
            ret i)))))))"

fun replay_each :: "Message list \<Rightarrow> conn_id list \<Rightarrow> unit comp" where
  "replay_each [] conns = ret ()"
| "replay_each (m # ms) conns =
     seq (dump_json (make_event_message (m_id m) (m_sender_id m) (m_receiver_id m) (m_room_id m) (m_content m)
            (m_created_at_ms m))) (\<lambda>p.
     seq (send_each conns p) (\<lambda>_.
     replay_each ms conns))"

definition replay_offline :: "user_id \<Rightarrow> unit comp" where
  "replay_offline uid =
     seq (repos_call (drain_undelivered uid)) (\<lambda>pending.
     if pending = [] then ret ()
     else
       seq (get (\<lambda>s. connections_of uid (srv_presence s))) (\<lambda>conns.
       if conns = [] then ret () else replay_each pending conns))"

text \<open>The lambda that \<open>ChatServer::init\<close> passes to \<open>set_transition_handler\<close>.\<close>

definition transition_handler :: "user_id \<Rightarrow> bool \<Rightarrow> unit comp" where
  "transition_handler uid online =
     (if \<not> online then seq now_unix_ms (\<lambda>now. repos_do (update_last_seen uid now))
      else replay_offline uid)"

definition presence_bind :: "user_id \<Rightarrow> conn_id \<Rightarrow> bool comp" where
  "presence_bind uid c =
     seq (\<lambda>s. let (tr, p) = Presence_bind uid c (srv_presence s) in (Inr tr, s\<lparr>srv_presence := p\<rparr>)) (\<lambda>transitioned.
     seq (if transitioned then transition_handler uid True else ret ()) (\<lambda>_.
     ret transitioned))"

definition presence_unbind :: "user_id \<Rightarrow> conn_id \<Rightarrow> bool comp" where
  "presence_unbind uid c =
     seq (\<lambda>s. let (off, p) = Presence_unbind uid c (srv_presence s) in (Inr off, s\<lparr>srv_presence := p\<rparr>)) (\<lambda>went_offline.
     seq (if went_offline then transition_handler uid False else ret ()) (\<lambda>_.
     ret went_offline))"

end
