(* ===== verification/Handlers.thy ===== *)
theory Handlers
  imports Message_Router
begin

text \<open>
  \<open>src/src/handlers/handlers.cpp\<close>: the dispatcher and the thirteen request handlers, each a
  computation on the state of the server, with every early return as a branch. An exception
  anywhere in a handler reaches the \<open>catch\<close> of \<open>dispatch\<close> with the changes made up to there.
  A worker thread runs \<open>dispatch\<close>; here a request is one step.
\<close>

section \<open>The code\<close>

definition send :: "conn_id \<Rightarrow> json \<Rightarrow> unit comp" where
  "send c j = seq (dump_json j) (\<lambda>p. conn_call c (send_frame p))"

definition send_ack :: "conn_id \<Rightarrow> i64 option \<Rightarrow> json \<Rightarrow> unit comp" where
  "send_ack c rid data = (case make_ack rid data of Some j \<Rightarrow> send c j | None \<Rightarrow> throw TypeError)"

abbreviation (input) send_error :: "conn_id \<Rightarrow> i64 option \<Rightarrow> string \<Rightarrow> string \<Rightarrow> unit comp" where
  "send_error c rid ecode msg \<equiv> send c (make_error rid ecode msg)"

definition req_i64 :: "json \<Rightarrow> string \<Rightarrow> i64 \<Rightarrow> i64 comp" where
  "req_i64 req k d s = (Inr (get_i64 (srv_ub s) req k d), s)"

text \<open>The user of the connection, or 0 when the request was refused.\<close>

definition require_auth :: "conn_id \<Rightarrow> json \<Rightarrow> i64 option \<Rightarrow> user_id comp" where
  "require_auth c req rid =
     seq (conn_user_id c) (\<lambda>uid.
     if uid \<noteq> 0 then ret uid
     else
       (let tok = get_str req ''token'' [] in
        if tok = [] then seq (send_error c rid kUnauthorized ''missing session token'') (\<lambda>_. ret 0)
        else
          seq (sessions_validate tok) (\<lambda>info.
          (case info of
             None \<Rightarrow> seq (send_error c rid kUnauthorized ''invalid or expired token'') (\<lambda>_. ret 0)
           | Some i \<Rightarrow>
               seq (conn_set c (set_user_id (si_user_id i))) (\<lambda>_.
               seq (conn_set c (set_session_token tok)) (\<lambda>_.
               seq (presence_bind (si_user_id i) c) (\<lambda>_.
               ret (si_user_id i))))))))"

definition handle_register :: "conn_id \<Rightarrow> json \<Rightarrow> i64 option \<Rightarrow> unit comp" where
  "handle_register c req rid =
     (let user = get_str req ''username'' []; pass = get_str req ''password'' [] in
      if user = [] \<or> pass = [] \<or> length user > 64 \<or> length pass < 4
      then send_error c rid kBadRequest ''username/password invalid''
      else
        seq (random_bytes 16) (\<lambda>salt.
        seq (get srv_pbkdf2_iter) (\<lambda>iter.
        seq now_unix_ms (\<lambda>now.
        seq (repos_call (create_user now user (make_password_hash salt pass iter))) (\<lambda>new_id.
        (case new_id of
           None \<Rightarrow> send_error c rid kConflict ''username already taken''
         | Some i \<Rightarrow> send_ack c rid (json_build [(''user_id'', JUInt i), (''username'', JString user)])))))))"

definition handle_login :: "conn_id \<Rightarrow> json \<Rightarrow> i64 option \<Rightarrow> unit comp" where
  "handle_login c req rid =
     (let user = get_str req ''username'' []; pass = get_str req ''password'' [] in
      seq (repos_try (find_user_by_username user)) (\<lambda>u.
      (case u of
         None \<Rightarrow> send_error c rid kUnauthorized ''bad credentials''
       | Some u \<Rightarrow>
           if \<not> verify_password_hash pass (u_password_hash u)
           then send_error c rid kUnauthorized ''bad credentials''
           else
             seq (sessions_create (u_id u)) (\<lambda>token.
             seq (conn_set c (set_user_id (u_id u))) (\<lambda>_.
             seq (conn_set c (set_session_token token)) (\<lambda>_.
             seq (presence_bind (u_id u) c) (\<lambda>_.
             seq (get (\<lambda>s. ttl_seconds (srv_sessions s))) (\<lambda>ttl.
             send_ack c rid (json_build
               [(''user_id'', JUInt (u_id u)), (''username'', JString (u_username u)), (''token'', JString token),
                (''ttl_s'', JInt ttl)])))))))))"

definition handle_logout :: "conn_id \<Rightarrow> json \<Rightarrow> i64 option \<Rightarrow> unit comp" where
  "handle_logout c req rid =
     seq (conn_session_token c) (\<lambda>tok.
     seq (if tok \<noteq> [] then sessions_revoke tok else ret ()) (\<lambda>_.
     seq (conn_user_id c) (\<lambda>uid.
     seq (if uid \<noteq> 0 then seq (presence_unbind uid c) (\<lambda>_. ret ()) else ret ()) (\<lambda>_.
     seq (conn_set c (set_user_id 0)) (\<lambda>_.
     seq (conn_set c (set_session_token [])) (\<lambda>_.
     send_ack c rid (JObject [])))))))"

definition handle_send_dm :: "conn_id \<Rightarrow> json \<Rightarrow> i64 option \<Rightarrow> unit comp" where
  "handle_send_dm c req rid =
     seq (require_auth c req rid) (\<lambda>sender.
     if sender = 0 then ret ()
     else
       seq (req_i64 req ''receiver_id'' 0) (\<lambda>receiver.
       seq (get srv_max_message) (\<lambda>max_message.
       let content = get_str req ''content'' [] in
       if receiver = 0 \<or> content = [] then send_error c rid kBadRequest ''receiver_id and content required''
       else if length content > unat max_message then send_error c rid kBadRequest ''content too large''
       else
         seq (repos_get (find_user_by_id receiver)) (\<lambda>u.
         if u = None then send_error c rid kNotFound ''receiver does not exist''
         else
           seq (send_dm sender receiver content) (\<lambda>msg_id.
           if msg_id = 0 then send_error c rid kInternal ''failed to persist message''
           else
             seq now_unix_ms (\<lambda>now.
             send_ack c rid (json_build [(''msg_id'', JUInt msg_id), (''timestamp'', JInt now)])))))))"

definition handle_send_room :: "conn_id \<Rightarrow> json \<Rightarrow> i64 option \<Rightarrow> unit comp" where
  "handle_send_room c req rid =
     seq (require_auth c req rid) (\<lambda>sender.
     if sender = 0 then ret ()
     else
       seq (req_i64 req ''room_id'' 0) (\<lambda>room.
       seq (get srv_max_message) (\<lambda>max_message.
       let content = get_str req ''content'' [] in
       if room = 0 \<or> content = [] then send_error c rid kBadRequest ''room_id and content required''
       else if length content > unat max_message then send_error c rid kBadRequest ''content too large''
       else
         seq (send_room sender room content) (\<lambda>msg_id.
         if msg_id = 0 then send_error c rid kBadRequest ''not a member of room or room missing''
         else
           seq now_unix_ms (\<lambda>now.
           send_ack c rid (json_build [(''msg_id'', JUInt msg_id), (''timestamp'', JInt now)]))))))"

definition handle_create_room :: "conn_id \<Rightarrow> json \<Rightarrow> i64 option \<Rightarrow> unit comp" where
  "handle_create_room c req rid =
     seq (require_auth c req rid) (\<lambda>uid.
     if uid = 0 then ret ()
     else
       (let name = get_str req ''name'' [] in
        if name = [] \<or> length name > 128 then send_error c rid kBadRequest ''invalid name''
        else
          seq now_unix_ms (\<lambda>now.
          seq (repos_call (create_room now name)) (\<lambda>created.
          seq (if created = None then seq (repos_try (find_room_by_name name)) (\<lambda>existing. ret (map_option r_id existing))
               else ret created) (\<lambda>room.
          (case room of
             None \<Rightarrow> send_error c rid kInternal ''create_room failed''
           | Some i \<Rightarrow>
               seq (repos_call (join_room i uid)) (\<lambda>_.
               seq (rooms_on_join i uid) (\<lambda>_.
               send_ack c rid (json_build [(''room_id'', JUInt i), (''name'', JString name)])))))))))"

definition handle_join_room :: "conn_id \<Rightarrow> json \<Rightarrow> i64 option \<Rightarrow> unit comp" where
  "handle_join_room c req rid =
     seq (require_auth c req rid) (\<lambda>uid.
     if uid = 0 then ret ()
     else
       seq (req_i64 req ''room_id'' 0) (\<lambda>given.
       let name = get_str req ''name'' [] in
       seq (if given = 0 \<and> name \<noteq> []
            then seq (repos_try (find_room_by_name name)) (\<lambda>r. ret (case r of Some x \<Rightarrow> r_id x | None \<Rightarrow> given))
            else ret given) (\<lambda>room.
       if room = 0 then send_error c rid kNotFound ''room not found''
       else
         seq (repos_call (join_room room uid)) (\<lambda>ok.
         if \<not> ok then send_error c rid kInternal ''join failed''
         else
           seq (rooms_on_join room uid) (\<lambda>_.
           send_ack c rid (json_build [(''room_id'', JUInt room)]))))))"

definition handle_leave_room :: "conn_id \<Rightarrow> json \<Rightarrow> i64 option \<Rightarrow> unit comp" where
  "handle_leave_room c req rid =
     seq (require_auth c req rid) (\<lambda>uid.
     if uid = 0 then ret ()
     else
       seq (req_i64 req ''room_id'' 0) (\<lambda>room.
       if room = 0 then send_error c rid kBadRequest ''room_id required''
       else
         seq (repos_call (leave_room room uid)) (\<lambda>_.
         seq (rooms_on_leave room uid) (\<lambda>_.
         send_ack c rid (JObject [])))))"

definition room_json :: "Room \<Rightarrow> json" where
  "room_json r = json_build [(''id'', JUInt (r_id r)), (''name'', JString (r_name r)), (''created_at'', JInt (r_created_at_ms r))]"

definition handle_list_rooms :: "conn_id \<Rightarrow> json \<Rightarrow> i64 option \<Rightarrow> unit comp" where
  "handle_list_rooms c req rid =
     seq (require_auth c req rid) (\<lambda>uid.
     if uid = 0 then ret ()
     else
       seq (repos_try (list_rooms_for_user uid)) (\<lambda>rs.
       send_ack c rid (json_build [(''rooms'', JArray (map room_json rs))])))"

definition opt_u64 :: "string \<Rightarrow> u64 option \<Rightarrow> (string \<times> json) list" where
  "opt_u64 k x = (case x of None \<Rightarrow> [] | Some v \<Rightarrow> [(k, JUInt v)])"

definition dm_json :: "Message \<Rightarrow> json" where
  "dm_json m =
     json_build ([(''id'', JUInt (m_id m)), (''sender_id'', JUInt (m_sender_id m))]
       @ opt_u64 ''receiver_id'' (m_receiver_id m)
       @ [(''content'', JString (m_content m)), (''status'', JUInt (ucast (m_status m))),
          (''timestamp'', JInt (m_created_at_ms m))])"

definition room_msg_json :: "Message \<Rightarrow> json" where
  "room_msg_json m =
     json_build ([(''id'', JUInt (m_id m)), (''sender_id'', JUInt (m_sender_id m))]
       @ opt_u64 ''room_id'' (m_room_id m)
       @ [(''content'', JString (m_content m)), (''status'', JUInt (ucast (m_status m))),
          (''timestamp'', JInt (m_created_at_ms m))])"

definition handle_history_dm :: "conn_id \<Rightarrow> json \<Rightarrow> i64 option \<Rightarrow> unit comp" where
  "handle_history_dm c req rid =
     seq (require_auth c req rid) (\<lambda>uid.
     if uid = 0 then ret ()
     else
       seq (req_i64 req ''user_id'' 0) (\<lambda>other.
       seq (req_i64 req ''before_id'' 0) (\<lambda>before.
       seq (req_i64 req ''limit'' 50) (\<lambda>limit.
       if other = 0 then send_error c rid kBadRequest ''user_id required''
       else
         seq (repos_get (history_dm uid other before (ucast limit))) (\<lambda>msgs.
         send_ack c rid (json_build [(''messages'', JArray (map dm_json msgs))]))))))"

definition handle_history_room :: "conn_id \<Rightarrow> json \<Rightarrow> i64 option \<Rightarrow> unit comp" where
  "handle_history_room c req rid =
     seq (require_auth c req rid) (\<lambda>uid.
     if uid = 0 then ret ()
     else
       seq (req_i64 req ''room_id'' 0) (\<lambda>room.
       seq (req_i64 req ''before_id'' 0) (\<lambda>before.
       seq (req_i64 req ''limit'' 50) (\<lambda>limit.
       if room = 0 then send_error c rid kBadRequest ''room_id required''
       else
         seq (rooms_is_member room uid) (\<lambda>member.
         if \<not> member then send_error c rid kUnauthorized ''not a member of this room''
         else
           seq (repos_get (history_room room before (ucast limit))) (\<lambda>msgs.
           send_ack c rid (json_build [(''messages'', JArray (map room_msg_json msgs))])))))))"

definition handle_presence :: "conn_id \<Rightarrow> json \<Rightarrow> i64 option \<Rightarrow> unit comp" where
  "handle_presence c req rid =
     seq (require_auth c req rid) (\<lambda>uid.
     if uid = 0 then ret ()
     else
       seq (req_i64 req ''user_id'' 0) (\<lambda>target.
       if target = 0 then send_error c rid kBadRequest ''user_id required''
       else
         seq (repos_get (find_user_by_id target)) (\<lambda>u.
         (case u of
            None \<Rightarrow> send_error c rid kNotFound ''user not found''
          | Some u \<Rightarrow>
              seq (get (\<lambda>s. is_online (u_id u) (srv_presence s))) (\<lambda>online.
              send_ack c rid (json_build
                [(''user_id'', JUInt (u_id u)), (''username'', JString (u_username u)), (''online'', JBool online),
                 (''last_seen'', JInt (u_last_seen_ms u))]))))))"

definition handle_ping :: "conn_id \<Rightarrow> json \<Rightarrow> i64 option \<Rightarrow> unit comp" where
  "handle_ping c req rid =
     seq now_unix_ms (\<lambda>now.
     (case make_ack rid (json_build [(''t'', JInt now)]) of
        None \<Rightarrow> throw TypeError
      | Some r \<Rightarrow> (case json_set ''type'' (JString kPong) r of None \<Rightarrow> throw TypeError | Some r' \<Rightarrow> send c r')))"

definition table :: "(string \<times> (conn_id \<Rightarrow> json \<Rightarrow> i64 option \<Rightarrow> unit comp)) list" where
  "table =
     [(kRegister, handle_register), (kLogin, handle_login), (kLogout, handle_logout), (kSendDM, handle_send_dm),
      (kSendRoom, handle_send_room), (kCreateRoom, handle_create_room), (kJoinRoom, handle_join_room),
      (kLeaveRoom, handle_leave_room), (kListRooms, handle_list_rooms), (kHistoryDM, handle_history_dm),
      (kHistoryRoom, handle_history_room), (kPresence, handle_presence), (kPing, handle_ping)]"

text \<open>The \<open>id\<close> of a request, when it is an integer.\<close>

definition request_id :: "json \<Rightarrow> i64 option" where
  "request_id req = (case json_find req ''id'' of Some (JInt v) \<Rightarrow> Some v | Some (JUInt v) \<Rightarrow> Some v | _ \<Rightarrow> None)"

definition dispatch :: "conn_id \<Rightarrow> string \<Rightarrow> unit comp" where
  "dispatch c payload =
     (case parse payload of
        None \<Rightarrow> send_error c None kBadRequest ''malformed JSON''
      | Some req \<Rightarrow>
          (let rid = request_id req; ty = get_str req ''type'' [] in
           if ty = [] then send_error c rid kBadRequest (''missing '' @ [CHR 0x27] @ ''type'' @ [CHR 0x27])
           else
             (case map_of table ty of
                None \<Rightarrow> send_error c rid kBadRequest (''unknown type: '' @ ty)
              | Some h \<Rightarrow> try_catch (h c req rid) (\<lambda>e. send_error c rid kInternal ''internal error''))))"

end
