(* ===== verification/Serving.thy ===== *)
theory Serving
  imports Message_Router
begin

text \<open>
  The invariant of the server and the rules by which a computation is shown to keep it.

  \<open>server_inv n\<close> joins the invariants of the parts with what relates them: sessions belong to
  users of the store, bound connections exist, queued messages are stored, the room cache
  agrees with the membership table, and every stored string is UTF-8, so that it can be
  serialized. The number \<open>n\<close> bounds the identifiers given out. \<open>serving n i c0\<close> adds that
  connection \<open>i\<close>, which was \<open>c0\<close> when its request arrived, has only been sent message events
  since.
\<close>

section \<open>The invariant\<close>

definition known :: "Repositories \<Rightarrow> user_id \<Rightarrow> bool" where
  "known r u = (map_of (users r) u \<noteq> None)"

text \<open>Every value of an association list satisfies a predicate.\<close>

definition all_vals :: "('v \<Rightarrow> bool) \<Rightarrow> ('k \<times> 'v) list \<Rightarrow> bool" where
  "all_vals P m = (\<forall>(k, v)\<in>set m. P v)"

definition utf8_store :: "Repositories \<Rightarrow> bool" where
  "utf8_store r =
     (all_vals (\<lambda>u. utf8 (u_username u)) (users r) \<and> all_vals (\<lambda>x. utf8 (r_name x)) (rooms r) \<and>
      (\<forall>m\<in>set (messages r). utf8 (m_content m)))"

definition queues_ok :: "Repositories \<Rightarrow> bool" where
  "queues_ok r = all_vals (\<lambda>q. set q \<subseteq> m_id ` set (messages r)) (undelivered r)"

definition store_inv :: "nat \<Rightarrow> Repositories \<Rightarrow> bool" where
  "store_inv n r = (repos_inv r \<and> ids_used r \<le> n \<and> utf8_store r \<and> queues_ok r)"

definition sessions_known :: "Repositories \<Rightarrow> SessionManager \<Rightarrow> bool" where
  "sessions_known r sm = all_vals (\<lambda>info. known r (si_user_id info)) (session_cache sm)"

definition conns_ok :: "(conn_id \<times> Connection) list \<Rightarrow> bool" where
  "conns_ok cs = (distinct (map fst cs) \<and> (\<forall>(i, c)\<in>set cs. cn_id c = i))"

definition bound_ok :: "Presence \<Rightarrow> (conn_id \<times> Connection) list \<Rightarrow> bool" where
  "bound_ok p cs = (\<forall>(u, is)\<in>set p. \<forall>i\<in>set is. map_of cs i \<noteq> None)"

definition inv_but_rooms :: "nat \<Rightarrow> server \<Rightarrow> bool" where
  "inv_but_rooms n s =
     (store_inv n (srv_repos s) \<and> presence_inv (srv_presence s) \<and> sessions_known (srv_repos s) (srv_sessions s) \<and>
      conns_ok (srv_conns s) \<and> bound_ok (srv_presence s) (srv_conns s))"

abbreviation members_in :: "Repositories \<Rightarrow> room_id \<Rightarrow> user_id list" where
  "members_in r \<equiv> (\<lambda>rm. list_room_members rm r)"

definition server_inv :: "nat \<Rightarrow> server \<Rightarrow> bool" where
  "server_inv n s \<longleftrightarrow> inv_but_rooms n s \<and> coherent (members_in (srv_repos s)) (srv_rooms s)"

section \<open>Events and replies\<close>

definition is_event :: "string \<Rightarrow> bool" where
  "is_event p = (case parse p of Some j \<Rightarrow> get_str j ''type'' [] = kEventMessage | None \<Rightarrow> False)"

definition is_reply :: "i64 option \<Rightarrow> string \<Rightarrow> bool" where
  "is_reply rid p =
     (case parse p of
        Some j \<Rightarrow> get_str j ''type'' [] \<in> {kAck, kError, kPong} \<and>
          json_find j ''id'' = map_option (\<lambda>v. json_norm (JInt v)) rid
      | None \<Rightarrow> False)"

text \<open>What \<open>send_frame\<close> adds to the output of a connection.\<close>

definition queued :: "Connection \<Rightarrow> string \<Rightarrow> u8 list" where
  "queued c p = (if closing c \<or> closed c \<or> length p > unat (cn_max_frame c) then [] else bytes_of (frame p))"

text \<open>Connection \<open>c\<close> is \<open>c0\<close> with more output and possibly another user.\<close>

definition grown :: "Connection \<Rightarrow> string list \<Rightarrow> Connection \<Rightarrow> bool" where
  "grown c0 ps c \<longleftrightarrow> c = c0\<lparr>wbuf := wbuf c0 @ concat (map (queued c0) ps), cn_user_id := cn_user_id c, cn_token := cn_token c\<rparr>"

definition serving :: "nat \<Rightarrow> conn_id \<Rightarrow> Connection \<Rightarrow> server \<Rightarrow> bool" where
  "serving n i c0 s \<longleftrightarrow> server_inv n s \<and>
     (\<exists>evs c. map_of (srv_conns s) i = Some c \<and> list_all is_event evs \<and> grown c0 evs c)"

definition answered :: "nat \<Rightarrow> conn_id \<Rightarrow> Connection \<Rightarrow> i64 option \<Rightarrow> server \<Rightarrow> bool" where
  "answered n i c0 rid s \<longleftrightarrow> server_inv n s \<and>
     (\<exists>evs reply c. map_of (srv_conns s) i = Some c \<and> list_all is_event evs \<and> is_reply rid reply \<and> grown c0 (evs @ [reply]) c)"

lemma grown_refl [simp]: "grown c [] c"
  by (simp add: grown_def)

lemma grown_send: "grown c0 ps c \<Longrightarrow> grown c0 (ps @ [p]) (fst (send_frame p c))"
  by (cases c0; cases c) (simp add: grown_def send_frame_hdr queued_def)

lemma grown_set:
  "grown c0 ps c \<Longrightarrow> grown c0 ps (set_user_id u c)" "grown c0 ps c \<Longrightarrow> grown c0 ps (set_session_token t c)"
  by (cases c0; cases c; simp add: grown_def set_user_id_def set_session_token_def)+

section \<open>Rules\<close>

definition runs :: "(server \<Rightarrow> bool) \<Rightarrow> 'a comp \<Rightarrow> ('a \<Rightarrow> server \<Rightarrow> bool) \<Rightarrow> bool" where
  "runs P m Q \<longleftrightarrow> (\<forall>s. P s \<longrightarrow> (\<exists>x s'. m s = (Inr x, s') \<and> Q x s'))"

lemma runsI: "(\<And>s. P s \<Longrightarrow> \<exists>x s'. m s = (Inr x, s') \<and> Q x s') \<Longrightarrow> runs P m Q"
  by (simp add: runs_def)

lemma runsD: "runs P m Q \<Longrightarrow> P s \<Longrightarrow> \<exists>x s'. m s = (Inr x, s') \<and> Q x s'"
  by (simp add: runs_def)

lemma runs_ret: "(\<And>s. P s \<Longrightarrow> Q x s) \<Longrightarrow> runs P (ret x) Q"
  by (simp add: runs_def ret_def)

lemma runs_seq: "runs P m R \<Longrightarrow> (\<And>x. runs (R x) (f x) Q) \<Longrightarrow> runs P (seq m f) Q"
  unfolding runs_def seq_def by fastforce

lemma runs_get: "(\<And>s. P s \<Longrightarrow> Q (f s) s) \<Longrightarrow> runs P (get f) Q"
  by (simp add: runs_def get_def)

lemma runs_weaken: "runs P m Q \<Longrightarrow> (\<And>s. P' s \<Longrightarrow> P s) \<Longrightarrow> (\<And>x s. Q x s \<Longrightarrow> Q' x s) \<Longrightarrow> runs P' m Q'"
  unfolding runs_def by blast

lemma runs_if: "(b \<Longrightarrow> runs P m Q) \<Longrightarrow> (\<not> b \<Longrightarrow> runs P m' Q) \<Longrightarrow> runs P (if b then m else m') Q"
  by simp

lemma runs_option:
  "(x = None \<Longrightarrow> runs P m Q) \<Longrightarrow> (\<And>y. x = Some y \<Longrightarrow> runs P (f y) Q) \<Longrightarrow> runs P (case x of None \<Rightarrow> m | Some y \<Rightarrow> f y) Q"
  by (cases x) auto

lemma runs_try: "runs P m Q \<Longrightarrow> runs P (try_catch m h) Q"
  unfolding runs_def try_catch_def by fastforce

text \<open>A fact about the state that does not depend on it can be taken out.\<close>

lemma runs_pure: "(b \<Longrightarrow> runs P m Q) \<Longrightarrow> runs (\<lambda>s. b \<and> P s) m Q"
  unfolding runs_def by blast

section \<open>The store\<close>

lemma all_vals_update: "all_vals P m \<Longrightarrow> P v \<Longrightarrow> all_vals P (AList.update k v m)"
  unfolding all_vals_def by (auto dest!: set_update_cases)

lemma all_vals_delete: "all_vals P m \<Longrightarrow> all_vals P (AList.delete k m)"
  unfolding all_vals_def AList.delete_eq by auto

lemma all_vals_lookup: "all_vals P m \<Longrightarrow> map_of m k = Some v \<Longrightarrow> P v"
  unfolding all_vals_def by (auto dest: map_of_SomeD)

lemma all_vals_mono: "all_vals P m \<Longrightarrow> (\<And>v. P v \<Longrightarrow> Q v) \<Longrightarrow> all_vals Q m"
  unfolding all_vals_def by auto

lemmas store_defs = store_inv_def utf8_store_def queues_ok_def ids_used_def

lemma store_create_user:
  assumes "store_inv n r" and "n < 2 ^ 64 - 1" and "utf8 name"
  shows "store_inv (Suc n) (snd (create_user now name h r))"
proof -
  have "repos_inv (snd (create_user now name h r))"
    using assms(1,2) ids_used_room(1) [of r] by (intro inv_create_user) (auto simp: store_inv_def)
  moreover have "ids_used (snd (create_user now name h r)) \<le> Suc n"
    using ids_used_apply [of "CreateUser now name h" r] assms(1) by (simp add: store_inv_def)
  moreover have "utf8_store (snd (create_user now name h r))" "queues_ok (snd (create_user now name h r))"
    using assms(1,3) by (simp_all add: store_inv_def utf8_store_def queues_ok_def create_user_def Let_def all_vals_update)
  ultimately show ?thesis by (simp add: store_inv_def)
qed

lemma store_create_room:
  assumes "store_inv n r" and "n < 2 ^ 64 - 1" and "utf8 name"
  shows "store_inv (Suc n) (snd (create_room now name r))"
proof -
  have "repos_inv (snd (create_room now name r))"
    using assms(1,2) ids_used_room(2) [of r] by (intro inv_create_room) (auto simp: store_inv_def)
  moreover have "ids_used (snd (create_room now name r)) \<le> Suc n"
    using ids_used_apply [of "CreateRoom now name" r] assms(1) by (simp add: store_inv_def)
  moreover have "utf8_store (snd (create_room now name r))" "queues_ok (snd (create_room now name r))"
    using assms(1,3) by (simp_all add: store_inv_def utf8_store_def queues_ok_def create_room_def Let_def all_vals_update)
  ultimately show ?thesis by (simp add: store_inv_def)
qed

lemma store_insert_dm:
  assumes "store_inv n r" and "n < 2 ^ 64 - 1" and "utf8 c"
  shows "store_inv (Suc n) (snd (insert_dm s rcv c ts r))"
proof -
  have "repos_inv (snd (insert_dm s rcv c ts r))"
    using assms(1,2) ids_used_room(3) [of r] by (intro inv_insert_dm) (auto simp: store_inv_def)
  moreover have "ids_used (snd (insert_dm s rcv c ts r)) \<le> Suc n"
    using ids_used_apply [of "InsertDm s rcv c ts" r] assms(1) by (simp add: store_inv_def)
  moreover have "utf8_store (snd (insert_dm s rcv c ts r))" "queues_ok (snd (insert_dm s rcv c ts r))"
    using assms(1,3) by (auto simp: store_inv_def utf8_store_def queues_ok_def insert_dm_def Let_def elim!: all_vals_mono)
  ultimately show ?thesis by (simp add: store_inv_def)
qed

lemma store_insert_room_msg:
  assumes "store_inv n r" and "n < 2 ^ 64 - 1" and "utf8 c"
  shows "store_inv (Suc n) (snd (insert_room_msg s rm c ts r))"
proof -
  have "repos_inv (snd (insert_room_msg s rm c ts r))"
    using assms(1,2) ids_used_room(3) [of r] by (intro inv_insert_room_msg) (auto simp: store_inv_def)
  moreover have "ids_used (snd (insert_room_msg s rm c ts r)) \<le> Suc n"
    using ids_used_apply [of "InsertRoomMsg s rm c ts" r] assms(1) by (simp add: store_inv_def)
  moreover have "utf8_store (snd (insert_room_msg s rm c ts r))" "queues_ok (snd (insert_room_msg s rm c ts r))"
    using assms(1,3) by (auto simp: store_inv_def utf8_store_def queues_ok_def insert_room_msg_def Let_def elim!: all_vals_mono)
  ultimately show ?thesis by (simp add: store_inv_def)
qed

lemma store_update_last_seen: "store_inv n r \<Longrightarrow> store_inv n (update_last_seen i ts r)"
proof -
  assume s: "store_inv n r"
  have "utf8_store (update_last_seen i ts r)"
  proof (cases "map_of (users r) i")
    case (Some u)
    then have "utf8 (u_username u)" using s by (auto simp: store_inv_def utf8_store_def dest: all_vals_lookup)
    with s Some show ?thesis by (simp add: store_inv_def utf8_store_def update_last_seen_def all_vals_update)
  qed (use s in \<open>simp add: store_inv_def update_last_seen_def\<close>)
  with s inv_update_last_seen [of r i ts] show ?thesis
    by (simp add: store_inv_def queues_ok_def ids_used_def update_last_seen_def split: option.split)
qed

lemma store_insert_session: "store_inv n r \<Longrightarrow> store_inv n (insert_session tok uid ts r)"
  using inv_insert_session [of r tok uid ts] by (simp add: store_defs insert_session_def)

lemma store_delete_session: "store_inv n r \<Longrightarrow> store_inv n (delete_session tok r)"
  using inv_delete_session [of r tok] by (simp add: store_defs delete_session_def)

lemma store_join_room: "store_inv n r \<Longrightarrow> store_inv n (snd (join_room rm u r))"
  using inv_join_room [of r rm u] by (simp add: store_defs join_room_def split: if_split)

lemma store_leave_room: "store_inv n r \<Longrightarrow> store_inv n (snd (leave_room rm u r))"
  using inv_leave_room [of r rm u] by (simp add: store_defs leave_room_def split: option.split)

lemma store_update_message_status: "store_inv n r \<Longrightarrow> store_inv n (update_message_status i v r)"
proof -
  assume s: "store_inv n r"
  have "m_id ` set (set_status i v ms) = m_id ` set ms" for ms
    using set_status_fields(1) [of i v ms] by (metis list.set_map)
  moreover have "utf8_store (update_message_status i v r)"
    using s by (auto simp: store_inv_def utf8_store_def update_message_status_def dest!: set_status_mem)
  ultimately show ?thesis using s inv_update_message_status [of r i v]
    by (simp add: store_inv_def queues_ok_def ids_used_def update_message_status_def)
qed

lemma store_enqueue:
  assumes "store_inv n r" and "i \<in> m_id ` set (messages r)"
  shows "store_inv n (enqueue_undelivered i u r)"
proof -
  have "set (slot (undelivered r) u) \<subseteq> m_id ` set (messages r)"
    using assms(1) all_vals_lookup [of "\<lambda>q. set q \<subseteq> m_id ` set (messages r)" "undelivered r" u]
    by (cases "map_of (undelivered r) u") (simp_all add: store_inv_def queues_ok_def slot_def)
  then have "queues_ok (enqueue_undelivered i u r)"
    using assms by (simp add: store_inv_def queues_ok_def enqueue_undelivered_def all_vals_update)
  then show ?thesis using assms(1) inv_enqueue_undelivered [of r i u]
    by (simp add: store_inv_def ids_used_def utf8_store_def enqueue_undelivered_def)
qed

lemma store_drain: "store_inv n r \<Longrightarrow> store_inv n (snd (drain_undelivered u r))"
proof -
  assume s: "store_inv n r"
  then have "queues_ok (snd (drain_undelivered u r))"
    by (simp add: store_inv_def queues_ok_def drain_undelivered_def all_vals_delete split: option.split)
  with s inv_drain_undelivered [of r u] show ?thesis
    by (simp add: store_inv_def ids_used_def utf8_store_def drain_undelivered_def split: option.split)
qed

lemma drained_utf8:
  assumes "store_inv n r" and "m \<in> set (fst (drain_undelivered u r))"
  shows "utf8 (m_content m)"
proof -
  have "set (queued_messages q ms) \<subseteq> set ms" for q ms
    by (induction q ms rule: queued_messages.induct) (auto split: option.splits simp: find_Some_iff)
  then show ?thesis using assms by (auto simp: drain_eq store_inv_def utf8_store_def)
qed

section \<open>Changes of one part of the state\<close>

lemma serving_inv: "serving n i c0 s \<Longrightarrow> server_inv n s"
  by (simp add: serving_def)

lemma server_inv_mono: "server_inv n s \<Longrightarrow> n \<le> m \<Longrightarrow> server_inv m s"
  by (auto simp: server_inv_def inv_but_rooms_def store_inv_def)

lemma serving_mono: "serving n i c0 s \<Longrightarrow> n \<le> m \<Longrightarrow> serving m i c0 s"
  unfolding serving_def using server_inv_mono by blast

lemma serving_update:
  assumes "serving n i c0 s" and "server_inv n' s'" and "srv_conns s' = srv_conns s"
  shows "serving n' i c0 s'"
  using assms unfolding serving_def by simp

lemma server_inv_env [simp]:
  "server_inv n (s\<lparr>srv_ticks := k\<rparr>) = server_inv n s" "server_inv n (s\<lparr>srv_drawn := k\<rparr>) = server_inv n s"
  "server_inv n (s\<lparr>srv_posts := ts\<rparr>) = server_inv n s"
  by (simp_all add: server_inv_def inv_but_rooms_def)

lemma serving_env [simp]:
  "serving n i c0 (s\<lparr>srv_ticks := k\<rparr>) = serving n i c0 s" "serving n i c0 (s\<lparr>srv_drawn := k\<rparr>) = serving n i c0 s"
  by (simp_all add: serving_def)

lemma server_inv_repos:
  assumes "server_inv n s" and "store_inv n' r'" and "\<And>u. known (srv_repos s) u \<Longrightarrow> known r' u"
    and "\<And>rm. set (list_room_members rm r') = set (list_room_members rm (srv_repos s))"
  shows "server_inv n' (s\<lparr>srv_repos := r'\<rparr>)"
proof -
  have "sessions_known r' (srv_sessions s)"
    using assms(1) by (auto simp: server_inv_def inv_but_rooms_def sessions_known_def elim!: all_vals_mono intro: assms(3))
  moreover have "coherent (members_in r') (srv_rooms s)"
    using assms(1) coherent_same_members [of "members_in (srv_repos s)" "srv_rooms s" "members_in r'"] assms(4)
    by (simp add: server_inv_def)
  ultimately show ?thesis using assms(1,2) by (simp add: server_inv_def inv_but_rooms_def)
qed

lemma server_inv_sessions:
  "server_inv n s \<Longrightarrow> sessions_known (srv_repos s) sm \<Longrightarrow> server_inv n (s\<lparr>srv_sessions := sm\<rparr>)"
  by (simp add: server_inv_def inv_but_rooms_def)

lemma server_inv_rooms:
  "server_inv n s \<Longrightarrow> coherent (members_in (srv_repos s)) g \<Longrightarrow> server_inv n (s\<lparr>srv_rooms := g\<rparr>)"
  by (simp add: server_inv_def inv_but_rooms_def)

lemma server_inv_presence:
  "server_inv n s \<Longrightarrow> presence_inv p \<Longrightarrow> bound_ok p (srv_conns s) \<Longrightarrow> server_inv n (s\<lparr>srv_presence := p\<rparr>)"
  by (simp add: server_inv_def inv_but_rooms_def)

lemma conns_ok_lookup: "conns_ok cs \<Longrightarrow> map_of cs j = Some c \<Longrightarrow> cn_id c = j"
  by (auto simp: conns_ok_def dest!: map_of_SomeD)

lemma conns_ok_update: "conns_ok cs \<Longrightarrow> cn_id c = j \<Longrightarrow> conns_ok (AList.update j c cs)"
  unfolding conns_ok_def using distinct_update [of cs j c] set_update_cases [of _ _ j c cs] by blast

lemma bound_ok_update: "bound_ok p cs \<Longrightarrow> bound_ok p (AList.update j c cs)"
  unfolding bound_ok_def by (auto simp: map_of_update_iff)

lemma server_inv_conns:
  "server_inv n s \<Longrightarrow> cn_id c = j \<Longrightarrow> server_inv n (s\<lparr>srv_conns := AList.update j c (srv_conns s), srv_posts := ts\<rparr>)"
  by (simp add: server_inv_def inv_but_rooms_def conns_ok_update bound_ok_update)

lemma serving_conns:
  assumes "serving n i c0 s" and "map_of (srv_conns s) j = Some c" and "cn_id c' = cn_id c"
    and "\<And>evs. grown c0 evs c \<Longrightarrow> list_all is_event evs \<Longrightarrow> \<exists>evs'. list_all is_event evs' \<and> grown c0 evs' c'"
  shows "serving n i c0 (s\<lparr>srv_conns := AList.update j c' (srv_conns s), srv_posts := ts\<rparr>)"
proof -
  have "cn_id c' = j"
    using assms(1-3) conns_ok_lookup [of "srv_conns s" j c] by (simp add: serving_def server_inv_def inv_but_rooms_def)
  then have inv: "server_inv n (s\<lparr>srv_conns := AList.update j c' (srv_conns s), srv_posts := ts\<rparr>)"
    using assms(1) by (intro server_inv_conns) (simp_all add: serving_def)
  obtain evs d where d: "map_of (srv_conns s) i = Some d" "list_all is_event evs" "grown c0 evs d"
    using assms(1) by (auto simp: serving_def)
  show ?thesis
  proof (cases "j = i")
    case True
    with d assms(2) assms(4) [of evs] obtain evs' where "list_all is_event evs'" "grown c0 evs' c'" by auto
    with inv True show ?thesis by (auto simp: serving_def map_of_update_iff)
  next
    case False
    with inv d show ?thesis by (auto simp: serving_def map_of_update_iff)
  qed
qed

section \<open>Rules for the calls\<close>

named_theorems runs_calls \<open>calls that keep \<open>serving\<close>\<close>

lemma runs_now [runs_calls]: "runs (serving n i c0) now_unix_ms (\<lambda>_. serving n i c0)"
  by (simp add: runs_def now_unix_ms_def)

lemma runs_random [runs_calls]: "runs (serving n i c0) (random_bytes k) (\<lambda>_. serving n i c0)"
  by (simp add: runs_def random_bytes_def)

lemma runs_field [runs_calls]: "runs P (conn_field f d j) (\<lambda>_. P)"
  by (simp add: runs_def conn_field_def)

lemma runs_read [runs_calls]: "runs P (get f) (\<lambda>_. P)"
  by (simp add: runs_def get_def)

lemma runs_repos_get [runs_calls]: "runs P (repos_get f) (\<lambda>_. P)"
  by (simp add: runs_def repos_get_def)

lemma runs_send_event [runs_calls]:
  assumes "is_event p"
  shows "runs (serving n i c0) (conn_call j (send_frame p)) (\<lambda>_. serving n i c0)"
proof (rule runsI)
  fix s
  assume s: "serving n i c0 s"
  show "\<exists>x s'. conn_call j (send_frame p) s = (Inr x, s') \<and> serving n i c0 s'"
  proof (cases "map_of (srv_conns s) j")
    case (Some c)
    have "\<exists>evs'. list_all is_event evs' \<and> grown c0 evs' (fst (send_frame p c))"
      if "grown c0 evs c" and "list_all is_event evs" for evs
      using grown_send [OF that(1), of p] that(2) assms by (intro exI [of _ "evs @ [p]"]) simp
    then have "serving n i c0 (s\<lparr>srv_conns := AList.update j (fst (send_frame p c)) (srv_conns s), srv_posts := ts\<rparr>)" for ts
      by (intro serving_conns [OF s Some]) simp_all
    with Some show ?thesis by (simp add: conn_call_def split_beta)
  qed (use s in \<open>simp add: conn_call_def\<close>)
qed

lemma runs_conn_set:
  assumes "\<And>c. cn_id (f c) = cn_id c" and "\<And>c0 evs c. grown c0 evs c \<Longrightarrow> grown c0 evs (f c)"
  shows "runs (serving n i c0) (conn_set j f) (\<lambda>_. serving n i c0)"
proof (rule runsI)
  fix s
  assume s: "serving n i c0 s"
  show "\<exists>x s'. conn_set j f s = (Inr x, s') \<and> serving n i c0 s'"
  proof (cases "map_of (srv_conns s) j")
    case (Some c)
    have "serving n i c0 (s\<lparr>srv_conns := AList.update j (f c) (srv_conns s), srv_posts := ts\<rparr>)" for ts
      by (rule serving_conns [OF s Some assms(1)]) (blast intro: assms(2))
    with Some show ?thesis by (simp add: conn_set_def conn_call_def)
  qed (use s in \<open>simp add: conn_set_def conn_call_def\<close>)
qed

lemma runs_set_user [runs_calls]: "runs (serving n i c0) (conn_set j (set_user_id u)) (\<lambda>_. serving n i c0)"
  by (rule runs_conn_set) (simp_all add: set_user_id_def grown_set(1) [unfolded set_user_id_def])

lemma runs_set_token [runs_calls]: "runs (serving n i c0) (conn_set j (set_session_token t)) (\<lambda>_. serving n i c0)"
  by (rule runs_conn_set) (simp_all add: set_session_token_def grown_set(2) [unfolded set_session_token_def])

lemma runs_reply:
  assumes "is_reply rid p" and "n \<le> m"
  shows "runs (serving n i c0) (conn_call i (send_frame p)) (\<lambda>_. answered m i c0 rid)"
proof (rule runsI)
  fix s
  assume s: "serving n i c0 s"
  then obtain evs c where c: "map_of (srv_conns s) i = Some c" "list_all is_event evs" "grown c0 evs c"
    by (auto simp: serving_def)
  have "cn_id (fst (send_frame p c)) = i"
    using s c(1) conns_ok_lookup [of "srv_conns s" i c] by (simp add: serving_def server_inv_def inv_but_rooms_def)
  then have "server_inv m (s\<lparr>srv_conns := AList.update i (fst (send_frame p c)) (srv_conns s), srv_posts := ts\<rparr>)" for ts
    by (rule server_inv_conns [OF server_inv_mono [OF serving_inv [OF s] assms(2)]])
  moreover have "grown c0 (evs @ [p]) (fst (send_frame p c))" using c(3) by (rule grown_send)
  ultimately have "answered m i c0 rid (s\<lparr>srv_conns := AList.update i (fst (send_frame p c)) (srv_conns s), srv_posts := ts\<rparr>)" for ts
    using c(2) assms(1) unfolding answered_def
    by (intro conjI exI [of _ evs] exI [of _ p] exI [of _ "fst (send_frame p c)"]) (simp_all add: map_of_update_iff)
  then show "\<exists>x s'. conn_call i (send_frame p) s = (Inr x, s') \<and> answered m i c0 rid s'"
    using c(1) by (simp add: conn_call_def split_beta)
qed

lemma runs_dump:
  assumes "printable j"
  shows "runs P (dump_json j) (\<lambda>p s. parse p = Some (json_norm j) \<and> P s)"
proof (rule runsI)
  fix s assume "P s"
  with serialize_printable [OF assms, of "srv_to_chars s"] show "\<exists>x s'. dump_json j s = (Inr x, s') \<and> parse x = Some (json_norm j) \<and> P s'"
    by (auto simp: dump_json_def)
qed

lemma runs_send_each [runs_calls]:
  "is_event p \<Longrightarrow> runs (serving n i c0) (send_each js p) (\<lambda>_. serving n i c0)"
  by (induction js) (auto intro!: runs_ret runs_seq [OF runs_send_event])

lemma is_event_text:
  assumes "parse p = Some (json_norm (make_event_message m s r rm c ts))"
  shows "is_event p"
proof -
  have "get_str (make_event_message m s r rm c ts) ''type'' [] = ''event_message''"
    unfolding make_event_message_def by (cases r; cases rm) (simp_all add: get_str_def)
  then show ?thesis by (simp add: is_event_def assms)
qed

section \<open>Rules for the store\<close>

text \<open>Operations of the store that only add users and leave the membership table alone.\<close>

definition keeps_users :: "Repositories \<Rightarrow> Repositories \<Rightarrow> bool" where
  "keeps_users r r' \<longleftrightarrow> (\<forall>u. known r u \<longrightarrow> known r' u) \<and> room_members r' = room_members r"

lemma serving_repos:
  assumes "serving n i c0 s" and "store_inv n' r'" and "keeps_users (srv_repos s) r'"
  shows "serving n' i c0 (s\<lparr>srv_repos := r'\<rparr>)"
  by (rule serving_update [OF assms(1) server_inv_repos [OF serving_inv [OF assms(1)] assms(2)]])
    (use assms(3) in \<open>simp_all add: keeps_users_def list_room_members_def\<close>)

lemma serving_store: "serving n i c0 s \<Longrightarrow> store_inv n (srv_repos s)"
  by (simp add: serving_def server_inv_def inv_but_rooms_def)

lemma runs_repos_do:
  assumes "\<And>r. store_inv n r \<Longrightarrow> store_inv n' (f r)" and "\<And>r. keeps_users r (f r)"
  shows "runs (serving n i c0) (repos_do f) (\<lambda>_. serving n' i c0)"
proof (rule runsI)
  fix s assume s: "serving n i c0 s"
  from serving_repos [OF s assms(1) [OF serving_store [OF s]] assms(2)]
  show "\<exists>x s'. repos_do f s = (Inr x, s') \<and> serving n' i c0 s'" by (simp add: repos_do_def)
qed

lemma runs_repos_call:
  assumes "\<And>r. store_inv n r \<Longrightarrow> store_inv n' (snd (f r)) \<and> Q (fst (f r)) (snd (f r))" and "\<And>r. keeps_users r (snd (f r))"
  shows "runs (serving n i c0) (repos_call f) (\<lambda>x s. Q x (srv_repos s) \<and> serving n' i c0 s)"
proof (rule runsI)
  fix s assume s: "serving n i c0 s"
  note f = assms(1) [OF serving_store [OF s]]
  from serving_repos [OF s conjunct1 [OF f] assms(2)] conjunct2 [OF f]
  show "\<exists>x s'. repos_call f s = (Inr x, s') \<and> Q x (srv_repos s') \<and> serving n' i c0 s'"
    by (simp add: repos_call_def split_beta)
qed

lemma keeps_users_ops:
  "keeps_users r (update_last_seen u ts r)" "keeps_users r (update_message_status k v r)"
  "keeps_users r (enqueue_undelivered k u r)" "keeps_users r (snd (drain_undelivered u r))"
  "keeps_users r (snd (create_user now name h r))" "keeps_users r (snd (create_room now name r))"
  "keeps_users r (snd (insert_dm a b c ts r))" "keeps_users r (snd (insert_room_msg a rm c ts r))"
  "keeps_users r (insert_session tok u ts r)" "keeps_users r (delete_session tok r)"
  by (auto simp: keeps_users_def known_def update_last_seen_def update_message_status_def enqueue_undelivered_def
      drain_undelivered_def create_user_def create_room_def insert_dm_def insert_room_msg_def insert_session_def
      delete_session_def map_of_update_iff Let_def split: option.split)

lemma runs_last_seen [runs_calls]: "runs (serving n i c0) (repos_do (update_last_seen u ts)) (\<lambda>_. serving n i c0)"
  by (rule runs_repos_do) (simp_all add: store_update_last_seen keeps_users_ops)

lemma runs_status [runs_calls]: "runs (serving n i c0) (repos_do (update_message_status k v)) (\<lambda>_. serving n i c0)"
  by (rule runs_repos_do) (simp_all add: store_update_message_status keeps_users_ops)

lemma runs_drain:
  "runs (serving n i c0) (repos_call (drain_undelivered u)) (\<lambda>ms s. (\<forall>m\<in>set ms. utf8 (m_content m)) \<and> serving n i c0 s)"
  by (rule runs_repos_call [where Q = "\<lambda>ms r. \<forall>m\<in>set ms. utf8 (m_content m)"])
    (auto simp: store_drain keeps_users_ops dest: drained_utf8)

lemma runs_create_user:
  "n < 2 ^ 64 - 1 \<Longrightarrow> utf8 name \<Longrightarrow>
   runs (serving n i c0) (repos_call (create_user now name h)) (\<lambda>_. serving (Suc n) i c0)"
  using runs_repos_call [where Q = "\<lambda>x r. True" and f = "create_user now name h" and n' = "Suc n"]
  by (simp add: store_create_user keeps_users_ops)

text \<open>A message that is in the store stays there.\<close>

definition stored :: "msg_id \<Rightarrow> Repositories \<Rightarrow> bool" where
  "stored k r = (k \<in> m_id ` set (messages r))"

definition storing :: "nat \<Rightarrow> conn_id \<Rightarrow> Connection \<Rightarrow> msg_id \<Rightarrow> server \<Rightarrow> bool" where
  "storing n i c0 k s \<longleftrightarrow> serving n i c0 s \<and> stored k (srv_repos s)"

lemma runs_insert_dm:
  assumes "n < 2 ^ 64 - 1" and "utf8 c"
  shows "runs (serving n i c0) (repos_call (insert_dm a b c ts)) (\<lambda>x s. \<exists>k. x = Some k \<and> k \<noteq> 0 \<and> storing (Suc n) i c0 k s)"
proof (rule runs_weaken [OF runs_repos_call [where Q = "\<lambda>x r. \<exists>k. x = Some k \<and> k \<noteq> 0 \<and> stored k r" and n' = "Suc n"]])
  fix r assume r: "store_inv n r"
  then have "next_msg_id r \<noteq> 0" by (simp add: store_inv_def repos_inv_def word_gt_0)
  then show "store_inv (Suc n) (snd (insert_dm a b c ts r)) \<and>
      (\<exists>k. fst (insert_dm a b c ts r) = Some k \<and> k \<noteq> 0 \<and> stored k (snd (insert_dm a b c ts r)))"
    using store_insert_dm [OF r assms] by (simp add: insert_dm_def Let_def stored_def)
qed (auto simp: keeps_users_ops storing_def)

lemma runs_insert_room_msg:
  assumes "n < 2 ^ 64 - 1" and "utf8 c"
  shows "runs (serving n i c0) (repos_call (insert_room_msg a rm c ts)) (\<lambda>x s. \<exists>k. x = Some k \<and> k \<noteq> 0 \<and> storing (Suc n) i c0 k s)"
proof (rule runs_weaken [OF runs_repos_call [where Q = "\<lambda>x r. \<exists>k. x = Some k \<and> k \<noteq> 0 \<and> stored k r" and n' = "Suc n"]])
  fix r assume r: "store_inv n r"
  then have "next_msg_id r \<noteq> 0" by (simp add: store_inv_def repos_inv_def word_gt_0)
  then show "store_inv (Suc n) (snd (insert_room_msg a rm c ts r)) \<and>
      (\<exists>k. fst (insert_room_msg a rm c ts r) = Some k \<and> k \<noteq> 0 \<and> stored k (snd (insert_room_msg a rm c ts r)))"
    using store_insert_room_msg [OF r assms] by (simp add: insert_room_msg_def Let_def stored_def)
qed (auto simp: keeps_users_ops storing_def)

lemma runs_some:
  "(\<And>k. k \<noteq> 0 \<Longrightarrow> runs (P k) (f k) R) \<Longrightarrow>
   runs (\<lambda>s. \<exists>k. x = Some k \<and> k \<noteq> 0 \<and> P k s) (case x of None \<Rightarrow> m | Some k \<Rightarrow> f k) R"
  by (cases x) (auto simp: runs_def)

text \<open>A computation that does not change what \<open>f\<close> observes.\<close>

definition keeps :: "(server \<Rightarrow> 'o) \<Rightarrow> 'a comp \<Rightarrow> bool" where
  "keeps f m \<longleftrightarrow> (\<forall>s. f (snd (m s)) = f s)"

lemma keeps_seq: "keeps f m \<Longrightarrow> (\<And>x. keeps f (g x)) \<Longrightarrow> keeps f (seq m g)"
  unfolding keeps_def seq_def by (auto simp: split_beta split: sum.split)

lemma runs_storing:
  assumes "runs (serving n i c0) m (\<lambda>_. serving n i c0)" and "keeps srv_repos m"
  shows "runs (storing n i c0 k) m (\<lambda>_. storing n i c0 k)"
proof (rule runsI)
  fix s assume "storing n i c0 k s"
  with runsD [OF assms(1), of s] assms(2) show "\<exists>x s'. m s = (Inr x, s') \<and> storing n i c0 k s'"
    by (metis keeps_def snd_conv storing_def)
qed

lemma keeps_repos_conn: "keeps srv_repos (conn_call j f)"
  by (auto simp: keeps_def conn_call_def split_beta Let_def split: option.split)

lemma keeps_repos_each: "keeps srv_repos (send_each js p)"
proof (induction js)
  case Nil
  then show ?case by (simp add: keeps_def ret_def)
qed (simp add: keeps_seq keeps_repos_conn)

lemma runs_storing_each: "is_event p \<Longrightarrow> runs (storing n i c0 k) (send_each js p) (\<lambda>_. storing n i c0 k)"
  by (rule runs_storing [OF runs_send_each keeps_repos_each])

lemma runs_storing_status: "runs (storing n i c0 k) (repos_do (update_message_status k' v)) (\<lambda>_. storing n i c0 k)"
proof (rule runsI)
  fix s assume s: "storing n i c0 k s"
  then have "stored k (update_message_status k' v (srv_repos s))"
    using set_status_fields(1) [of k' v "messages (srv_repos s)"]
    by (simp add: storing_def stored_def update_message_status_def) (metis list.set_map)
  moreover obtain s' where "repos_do (update_message_status k' v) s = (Inr (), s')" "serving n i c0 s'"
    using runsD [OF runs_status, of n i c0 s k' v] s by (auto simp: storing_def)
  ultimately show "\<exists>x s'. repos_do (update_message_status k' v) s = (Inr x, s') \<and> storing n i c0 k s'"
    by (auto simp: repos_do_def storing_def)
qed

lemma runs_storing_enqueue: "runs (storing n i c0 k) (repos_do (enqueue_undelivered k u)) (\<lambda>_. storing n i c0 k)"
proof (rule runsI)
  fix s assume s: "storing n i c0 k s"
  then have "store_inv n (enqueue_undelivered k u (srv_repos s))"
    using serving_store [of n i c0 s] by (simp add: storing_def stored_def store_enqueue)
  with s serving_repos [of n i c0 s n "enqueue_undelivered k u (srv_repos s)"]
  show "\<exists>x s'. repos_do (enqueue_undelivered k u) s = (Inr x, s') \<and> storing n i c0 k s'"
    by (auto simp: repos_do_def storing_def stored_def keeps_users_ops)
qed

end
