(* ===== verification/Routing.thy ===== *)
theory Routing
  imports Serving
begin

text \<open>
  The router, presence, the sessions and the room cache keep the invariant: one rule per
  operation, in the form that the proofs about the handlers use.
\<close>

section \<open>Room cache\<close>

lemma serving_coherent: "serving n i c0 s \<Longrightarrow> coherent (members_in (srv_repos s)) (srv_rooms s)"
  by (simp add: serving_def server_inv_def)

lemma serving_rooms:
  assumes "serving n i c0 s" and "coherent (members_in (srv_repos s)) g"
  shows "serving n i c0 (s\<lparr>srv_rooms := g\<rparr>)"
  by (rule serving_update [OF assms(1) server_inv_rooms [OF serving_inv [OF assms(1)] assms(2)]]) simp

lemma runs_is_member:
  "runs (serving n i c0) (rooms_is_member rm u) (\<lambda>b s. b = is_member rm u (srv_repos s) \<and> serving n i c0 s)"
proof (rule runsI)
  fix s assume s: "serving n i c0 s"
  note C = manager_is_member_correct [OF serving_coherent [OF s], of rm u]
  from serving_rooms [OF s C(2)] C(1)
  show "\<exists>x s'. rooms_is_member rm u s = (Inr x, s') \<and> x = is_member rm u (srv_repos s') \<and> serving n i c0 s'"
    by (simp add: rooms_is_member_def rooms_call_def split_beta is_member_slot)
qed

lemma runs_check_member [runs_calls]: "runs (serving n i c0) (rooms_is_member rm u) (\<lambda>_. serving n i c0)"
  by (rule runs_weaken [OF runs_is_member]) auto

lemma rooms_members_of_repos: "keeps srv_repos (rooms_members_of rm)"
  by (simp add: keeps_def rooms_members_of_def rooms_call_def split_beta)

lemma runs_members_of [runs_calls]: "runs (serving n i c0) (rooms_members_of rm) (\<lambda>_. serving n i c0)"
proof (rule runsI)
  fix s assume s: "serving n i c0 s"
  note C = members_of_correct [OF serving_coherent [OF s], of rm]
  then have "coherent (members_in (srv_repos s)) (snd (members_of (members_in (srv_repos s)) rm (srv_rooms s)))" by blast
  from serving_rooms [OF s this]
  show "\<exists>x s'. rooms_members_of rm s = (Inr x, s') \<and> serving n i c0 s'"
    by (simp add: rooms_members_of_def rooms_call_def split_beta)
qed

section \<open>Router\<close>

lemma runs_send_dm:
  assumes "n < 2 ^ 64 - 1" and "utf8 content"
  shows "runs (serving n i c0) (send_dm a b content) (\<lambda>k s. k \<noteq> 0 \<and> serving (Suc n) i c0 s)"
  unfolding send_dm_def
proof (rule runs_seq [OF runs_now], rule runs_seq [OF runs_insert_dm [OF assms]], rule runs_some)
  fix ts and mid :: "msg_id option" and k :: msg_id
  assume k: "k \<noteq> 0"
  let ?e = "make_event_message k a (Some b) None content ts"
  show "runs (storing (Suc n) i c0 k)
      (seq (dump_json ?e) (\<lambda>event.
       seq (get (\<lambda>s. connections_of b (srv_presence s))) (\<lambda>conns.
       seq (if conns = [] then repos_do (enqueue_undelivered k b)
            else seq (send_each conns event) (\<lambda>_. repos_do (update_message_status k 1))) (\<lambda>_.
       seq (get (\<lambda>s. connections_of a (srv_presence s))) (\<lambda>own.
       seq (send_each own event) (\<lambda>_. ret k))))))
      (\<lambda>k s. k \<noteq> 0 \<and> serving (Suc n) i c0 s)"
    by (intro runs_seq [OF runs_dump [OF printable_event [OF assms(2)]]] runs_pure runs_seq [OF runs_read]
        runs_seq [where R = "\<lambda>_. storing (Suc n) i c0 k"] runs_if
        runs_storing_enqueue runs_storing_each runs_storing_status runs_ret is_event_text)
      (auto simp: k storing_def)
qed

lemma runs_fan_out:
  assumes "is_event p"
  shows "runs (storing n i c0 k) (fan_out us a k p) (\<lambda>_. storing n i c0 k)"
proof (induction us)
  case (Cons u us)
  show ?case unfolding fan_out.simps
    by (intro runs_seq [OF runs_read] runs_seq [where R = "\<lambda>_. storing n i c0 k"] runs_if runs_storing_enqueue
        runs_storing_each [OF assms] runs_ret Cons)
qed (simp add: runs_ret)

lemma runs_send_room:
  assumes "n < 2 ^ 64 - 1" and "utf8 content"
  shows "runs (serving n i c0) (send_room a rm content) (\<lambda>_. serving (Suc n) i c0)"
  unfolding send_room_def
proof (rule runs_seq [OF runs_check_member], rule runs_if)
  show "runs (serving n i c0) (ret 0) (\<lambda>_. serving (Suc n) i c0)"
    by (rule runs_ret) (erule serving_mono, simp)
  show "runs (serving n i c0)
      (seq now_unix_ms (\<lambda>ts. seq (repos_call (insert_room_msg a rm content ts)) (\<lambda>mid.
        case mid of None \<Rightarrow> ret 0
        | Some k \<Rightarrow> seq (dump_json (make_event_message k a None (Some rm) content ts)) (\<lambda>event.
            seq (rooms_members_of rm) (\<lambda>members. seq (fan_out members a k event) (\<lambda>_. ret k))))))
      (\<lambda>_. serving (Suc n) i c0)"
    by (intro runs_seq [OF runs_now] runs_seq [OF runs_insert_room_msg [OF assms]] runs_some
        runs_seq [OF runs_dump [OF printable_event [OF assms(2)]]] runs_pure
        runs_seq [OF runs_storing [OF runs_members_of rooms_members_of_repos]] runs_seq [OF runs_fan_out] runs_ret is_event_text)
      (auto simp: storing_def)
qed

lemma runs_replay_each [runs_calls]:
  "\<forall>m\<in>set ms. utf8 (m_content m) \<Longrightarrow> runs (serving n i c0) (replay_each ms js) (\<lambda>_. serving n i c0)"
proof (induction ms)
  case (Cons m ms)
  then have "printable (make_event_message (m_id m) (m_sender_id m) (m_receiver_id m) (m_room_id m) (m_content m) (m_created_at_ms m))"
    by (simp add: printable_event)
  with Cons show ?case unfolding replay_each.simps
    by (intro runs_seq [OF runs_dump] runs_pure runs_seq [OF runs_send_each] is_event_text) auto
qed (simp add: runs_ret)

lemma runs_replay [runs_calls]: "runs (serving n i c0) (replay_offline u) (\<lambda>_. serving n i c0)"
  unfolding replay_offline_def
  by (intro runs_seq [OF runs_drain] runs_pure runs_if runs_ret runs_seq [OF runs_read] runs_replay_each)

lemma runs_transition [runs_calls]: "runs (serving n i c0) (transition_handler u b) (\<lambda>_. serving n i c0)"
  unfolding transition_handler_def by (intro runs_if runs_seq [OF runs_now] runs_calls)

section \<open>Presence\<close>

lemma bound_okI: "(\<And>u s j. map_of p u = Some s \<Longrightarrow> j \<in> set s \<Longrightarrow> map_of cs j \<noteq> None) \<Longrightarrow> distinct (map fst p) \<Longrightarrow> bound_ok p cs"
  unfolding bound_ok_def using map_of_is_SomeI [of p] by blast

lemma bound_okD: "bound_ok p cs \<Longrightarrow> j \<in> set (connections_of u p) \<Longrightarrow> map_of cs j \<noteq> None"
  unfolding bound_ok_def connections_of_def using map_of_SomeD [of p u] by (cases "map_of p u") fastforce+

lemma bound_ok_iff:
  assumes "presence_inv p"
  shows "bound_ok p cs \<longleftrightarrow> (\<forall>u. \<forall>j\<in>set (connections_of u p). map_of cs j \<noteq> None)"
proof
  assume R: "\<forall>u. \<forall>j\<in>set (connections_of u p). map_of cs j \<noteq> None"
  show "bound_ok p cs"
  proof (rule bound_okI)
    fix u s j assume "map_of p u = Some s" "j \<in> set s"
    then have "j \<in> set (connections_of u p)" by (simp add: connections_of_def)
    with R show "map_of cs j \<noteq> None" by blast
  qed (use assms in \<open>simp add: presence_inv_def\<close>)
qed (blast dest: bound_okD)

lemma serving_presence:
  assumes "serving n i c0 s" and "presence_inv p" and "\<And>u. set (connections_of u p) \<subseteq> insert i (set (connections_of u (srv_presence s)))"
  shows "serving n i c0 (s\<lparr>srv_presence := p\<rparr>)"
proof -
  have old: "presence_inv (srv_presence s)" "bound_ok (srv_presence s) (srv_conns s)" "map_of (srv_conns s) i \<noteq> None"
    using assms(1) by (auto simp: serving_def server_inv_def inv_but_rooms_def)
  then have "bound_ok p (srv_conns s)"
    unfolding bound_ok_iff [OF assms(2)] using assms(3) bound_okD [OF old(2)] by blast
  with assms(2) serving_update [OF assms(1) server_inv_presence [OF serving_inv [OF assms(1)]]] show ?thesis by simp
qed

lemma runs_bind [runs_calls]: "runs (serving n i c0) (presence_bind u i) (\<lambda>_. serving n i c0)"
  unfolding presence_bind_def
proof (rule runs_seq)
  show "runs (serving n i c0)
      (\<lambda>s. let (tr, p) = Presence_bind u i (srv_presence s) in (Inr tr, s\<lparr>srv_presence := p\<rparr>)) (\<lambda>_. serving n i c0)"
  proof (rule runsI)
    fix s assume s: "serving n i c0 s"
    then have "presence_inv (snd (Presence_bind u i (srv_presence s)))"
      by (intro presence_inv_bind) (simp add: serving_def server_inv_def inv_but_rooms_def)
    then have "serving n i c0 (s\<lparr>srv_presence := snd (Presence_bind u i (srv_presence s))\<rparr>)"
      by (rule serving_presence [OF s]) auto
    then show "\<exists>x s'. (let (tr, p) = Presence_bind u i (srv_presence s) in (Inr tr, s\<lparr>srv_presence := p\<rparr>)) = (Inr x, s') \<and>
        serving n i c0 s'" by (simp add: split_beta)
  qed
qed (intro runs_seq [where R = "\<lambda>_. serving n i c0"] runs_if runs_calls runs_ret)

lemma runs_unbind [runs_calls]: "runs (serving n i c0) (presence_unbind u j) (\<lambda>_. serving n i c0)"
  unfolding presence_unbind_def
proof (rule runs_seq)
  show "runs (serving n i c0)
      (\<lambda>s. let (off, p) = Presence_unbind u j (srv_presence s) in (Inr off, s\<lparr>srv_presence := p\<rparr>)) (\<lambda>_. serving n i c0)"
  proof (rule runsI)
    fix s assume s: "serving n i c0 s"
    then have "presence_inv (snd (Presence_unbind u j (srv_presence s)))"
      by (intro presence_inv_unbind) (simp add: serving_def server_inv_def inv_but_rooms_def)
    then have "serving n i c0 (s\<lparr>srv_presence := snd (Presence_unbind u j (srv_presence s))\<rparr>)"
      by (rule serving_presence [OF s]) auto
    then show "\<exists>x s'. (let (off, p) = Presence_unbind u j (srv_presence s) in (Inr off, s\<lparr>srv_presence := p\<rparr>)) = (Inr x, s') \<and>
        serving n i c0 s'" by (simp add: split_beta)
  qed
qed (intro runs_seq [where R = "\<lambda>_. serving n i c0"] runs_if runs_calls runs_ret)

section \<open>Sessions\<close>

lemma serving_sessions:
  assumes "serving n i c0 s" and "store_inv n r" and "keeps_users (srv_repos s) r" and "sessions_known r sm"
  shows "serving n i c0 (s\<lparr>srv_sessions := sm, srv_repos := r\<rparr>)"
proof -
  have s1: "serving n i c0 (s\<lparr>srv_repos := r\<rparr>)" by (rule serving_repos [OF assms(1-3)])
  have "serving n i c0 (s\<lparr>srv_repos := r, srv_sessions := sm\<rparr>)"
    using serving_update [OF s1 server_inv_sessions [OF serving_inv [OF s1]]] assms(4) by simp
  moreover have "s\<lparr>srv_repos := r, srv_sessions := sm\<rparr> = s\<lparr>srv_sessions := sm, srv_repos := r\<rparr>" by simp
  ultimately show ?thesis by simp
qed

lemma serving_known: "serving n i c0 s \<Longrightarrow> sessions_known (srv_repos s) (srv_sessions s)"
  by (simp add: serving_def server_inv_def inv_but_rooms_def)

lemma known_nonzero: "store_inv n r \<Longrightarrow> known r u \<Longrightarrow> u \<noteq> 0"
  using user_id_nonzero [of r u] by (auto simp: store_inv_def known_def find_user_by_id_def)

lemma known_insert_session [simp]: "known (insert_session tok u ts r) = known r" "known (delete_session tok r) = known r"
  by (simp_all add: known_def insert_session_def delete_session_def fun_eq_iff)

lemma utf8_token: "utf8 (make_session_token bs)"
proof (rule utf8_ascii_string)
  have "\<forall>c\<in>set kHex. (of_char c :: nat) < 128" by (simp add: kHex_def)
  with hex_encode_alphabet [of bs] show "\<forall>c\<in>set (make_session_token bs). (of_char c :: nat) < 128"
    unfolding make_session_token_def by blast
qed

lemma runs_create_session:
  "runs (\<lambda>s. known (srv_repos s) u \<and> serving n i c0 s) (sessions_create u) (\<lambda>tok s. utf8 tok \<and> serving n i c0 s)"
  unfolding sessions_create_def
proof (rule runs_seq [where R = "\<lambda>_ s. known (srv_repos s) u \<and> serving n i c0 s"])
  show "runs (\<lambda>s. known (srv_repos s) u \<and> serving n i c0 s) (random_bytes 32) (\<lambda>_ s. known (srv_repos s) u \<and> serving n i c0 s)"
    by (simp add: runs_def random_bytes_def)
  show "runs (\<lambda>s. known (srv_repos s) u \<and> serving n i c0 s)
      (seq now_unix_ms (\<lambda>now s. let (tok, sm, r) = create insert_session buf now u (srv_sessions s, srv_repos s)
         in (Inr tok, s\<lparr>srv_sessions := sm, srv_repos := r\<rparr>))) (\<lambda>tok s. utf8 tok \<and> serving n i c0 s)" for buf
  proof (rule runs_seq [where R = "\<lambda>_ s. known (srv_repos s) u \<and> serving n i c0 s"])
    show "runs (\<lambda>s. known (srv_repos s) u \<and> serving n i c0 s) now_unix_ms (\<lambda>_ s. known (srv_repos s) u \<and> serving n i c0 s)"
      by (simp add: runs_def now_unix_ms_def)
    show "runs (\<lambda>s. known (srv_repos s) u \<and> serving n i c0 s)
        (\<lambda>s. let (tok, sm, r) = create insert_session buf now u (srv_sessions s, srv_repos s)
          in (Inr tok, s\<lparr>srv_sessions := sm, srv_repos := r\<rparr>)) (\<lambda>tok s. utf8 tok \<and> serving n i c0 s)" for now
    proof (rule runsI)
      fix s assume s: "known (srv_repos s) u \<and> serving n i c0 s"
      let ?c = "create insert_session buf now u (srv_sessions s, srv_repos s)"
      have "sessions_known (snd (snd ?c)) (fst (snd ?c))"
        using s serving_known [of n i c0 s]
        by (simp add: create_def Let_def sessions_known_def all_vals_update)
      moreover have tok: "utf8 (fst ?c)" by (simp add: create_def Let_def utf8_token)
      moreover have "snd (snd ?c) = insert_session (make_session_token buf) u now (srv_repos s)"
        by (simp add: create_def Let_def)
      ultimately have "serving n i c0 (s\<lparr>srv_sessions := fst (snd ?c), srv_repos := snd (snd ?c)\<rparr>)"
        using s serving_store [of n i c0 s] by (intro serving_sessions) (simp_all add: store_insert_session keeps_users_ops)
      then show "\<exists>x s'. (let (tok, sm, r) = ?c in (Inr tok, s\<lparr>srv_sessions := sm, srv_repos := r\<rparr>)) = (Inr x, s') \<and>
          utf8 x \<and> serving n i c0 s'" using tok by (simp add: split_beta)
    qed
  qed
qed

lemma sessions_known_validate:
  "sessions_known r sm \<Longrightarrow> sessions_known r (snd (validate now tok sm)) \<and>
     (\<forall>x. fst (validate now tok sm) = Some x \<longrightarrow> known r (si_user_id x))"
  by (auto simp: validate_def sessions_known_def all_vals_delete dest: all_vals_lookup split: option.split)

lemma runs_validate:
  "runs (serving n i c0) (sessions_validate tok)
     (\<lambda>info s. (\<forall>x. info = Some x \<longrightarrow> si_user_id x \<noteq> 0) \<and> serving n i c0 s)"
proof (rule runsI)
  fix s assume s: "serving n i c0 s"
  show "\<exists>x s'. sessions_validate tok s = (Inr x, s') \<and> (\<forall>y. x = Some y \<longrightarrow> si_user_id y \<noteq> 0) \<and> serving n i c0 s'"
  proof (cases "map_of (session_cache (srv_sessions s)) tok = None")
    case False
    let ?s = "s\<lparr>srv_ticks := Suc (srv_ticks s)\<rparr>" and ?v = "validate (srv_clock s (srv_ticks s)) tok (srv_sessions s)"
    note K = sessions_known_validate [OF serving_known [OF s], of "srv_clock s (srv_ticks s)" tok]
    have s1: "serving n i c0 ?s" using s by simp
    have "serving n i c0 (?s\<lparr>srv_sessions := snd ?v\<rparr>)"
      using serving_update [OF s1 server_inv_sessions [OF serving_inv [OF s1], of "snd ?v"]] K by simp
    with False K show ?thesis
      using known_nonzero [OF serving_store [OF s]]
      by (auto simp: sessions_validate_def seq_def now_unix_ms_def split_beta)
  qed (use s in \<open>simp add: sessions_validate_def\<close>)
qed

lemma runs_revoke [runs_calls]: "runs (serving n i c0) (sessions_revoke tok) (\<lambda>_. serving n i c0)"
proof (rule runsI)
  fix s assume s: "serving n i c0 s"
  let ?c = "revoke delete_session tok (srv_sessions s, srv_repos s)"
  have "sessions_known (snd ?c) (fst ?c)" "snd ?c = delete_session tok (srv_repos s)"
    using serving_known [OF s] by (simp_all add: revoke_def sessions_known_def all_vals_delete)
  then have "serving n i c0 (s\<lparr>srv_sessions := fst ?c, srv_repos := snd ?c\<rparr>)"
    using s serving_store [OF s] by (intro serving_sessions) (simp_all add: store_delete_session keeps_users_ops)
  then show "\<exists>x s'. sessions_revoke tok s = (Inr x, s') \<and> serving n i c0 s'"
    by (simp add: sessions_revoke_def split_beta)
qed

section \<open>Membership\<close>

lemma serving_members:
  assumes "serving n i c0 s" and "store_inv n r" and "\<And>u. known (srv_repos s) u \<Longrightarrow> known r u" and "coherent (members_in r) g"
  shows "serving n i c0 (s\<lparr>srv_repos := r, srv_rooms := g\<rparr>)"
proof (rule serving_update [OF assms(1)])
  from assms(1) have "sessions_known (srv_repos s) (srv_sessions s)" by (rule serving_known)
  then have "sessions_known r (srv_sessions s)"
    unfolding sessions_known_def by (rule all_vals_mono) (rule assms(3))
  with assms show "server_inv n (s\<lparr>srv_repos := r, srv_rooms := g\<rparr>)"
    by (simp add: serving_def server_inv_def inv_but_rooms_def)
qed simp

text \<open>Between the change of the membership table and that of the cache.\<close>

definition joined :: "nat \<Rightarrow> conn_id \<Rightarrow> Connection \<Rightarrow> room_id \<Rightarrow> user_id \<Rightarrow> server \<Rightarrow> bool" where
  "joined n i c0 rm u s \<longleftrightarrow> (\<exists>r0. serving n i c0 (s\<lparr>srv_repos := r0\<rparr>) \<and> join_room rm u r0 = (True, srv_repos s))"

definition left :: "nat \<Rightarrow> conn_id \<Rightarrow> Connection \<Rightarrow> room_id \<Rightarrow> user_id \<Rightarrow> server \<Rightarrow> bool" where
  "left n i c0 rm u s \<longleftrightarrow> (\<exists>r0. serving n i c0 (s\<lparr>srv_repos := r0\<rparr>) \<and> snd (leave_room rm u r0) = srv_repos s)"

definition room_there :: "room_id \<Rightarrow> Repositories \<Rightarrow> bool" where
  "room_there k r = (map_of (rooms r) k \<noteq> None)"

lemma runs_join:
  "runs (serving n i c0) (repos_call (join_room rm u)) (\<lambda>ok s. if ok then joined n i c0 rm u s else serving n i c0 s)"
proof (rule runsI)
  fix s assume s: "serving n i c0 s"
  obtain ok r where J: "join_room rm u (srv_repos s) = (ok, r)" by (cases "join_room rm u (srv_repos s)")
  then have "\<not> ok \<Longrightarrow> r = srv_repos s" by (auto simp: join_room_def split: if_splits)
  with J s show "\<exists>x s'. repos_call (join_room rm u) s = (Inr x, s') \<and> (if x then joined n i c0 rm u s' else serving n i c0 s')"
    by (auto simp: repos_call_def joined_def intro!: exI [of _ "srv_repos s"])
qed

lemma runs_join_there:
  "runs (\<lambda>s. room_there rm (srv_repos s) \<and> serving n i c0 s) (repos_call (join_room rm u)) (\<lambda>_. joined n i c0 rm u)"
proof (rule runsI)
  fix s assume s: "room_there rm (srv_repos s) \<and> serving n i c0 s"
  then have "fst (join_room rm u (srv_repos s))" by (simp add: join_room_def room_there_def)
  with s show "\<exists>x s'. repos_call (join_room rm u) s = (Inr x, s') \<and> joined n i c0 rm u s'"
    by (auto simp: repos_call_def joined_def split_beta prod_eq_iff intro!: exI [of _ "srv_repos s"])
qed

lemma runs_leave: "runs (serving n i c0) (repos_call (leave_room rm u)) (\<lambda>_. left n i c0 rm u)"
  by (rule runsI) (auto simp: repos_call_def left_def split_beta intro!: exI [of _ "srv_repos _"])

lemma known_membership [simp]:
  "known (snd (join_room rm u r)) = known r" "known (snd (leave_room rm u r)) = known r"
  by (simp_all add: known_def join_room_def leave_room_def fun_eq_iff split: option.split)

lemma runs_on_join: "runs (joined n i c0 rm u) (rooms_on_join rm u) (\<lambda>_. serving n i c0)"
proof (rule runsI)
  fix s assume "joined n i c0 rm u s"
  then obtain r0 where r0: "serving n i c0 (s\<lparr>srv_repos := r0\<rparr>)" and J: "join_room rm u r0 = (True, srv_repos s)"
    by (auto simp: joined_def)
  have "coherent (members_in (srv_repos s)) (on_join (members_in (srv_repos s)) rm u (srv_rooms s))"
    using memory_members.join_coherent [of r0 "srv_rooms s" rm u] serving_coherent [OF r0] J by simp
  moreover have "store_inv n (srv_repos s)" "known (srv_repos s) = known r0"
    using store_join_room [of n r0 rm u] serving_store [OF r0] J known_membership(1) [of rm u r0] by simp_all
  ultimately have "serving n i c0 (s\<lparr>srv_rooms := on_join (members_in (srv_repos s)) rm u (srv_rooms s)\<rparr>)"
    using serving_members [OF r0, of "srv_repos s" "on_join (members_in (srv_repos s)) rm u (srv_rooms s)"] by simp
  then show "\<exists>x s'. rooms_on_join rm u s = (Inr x, s') \<and> serving n i c0 s'"
    by (simp add: rooms_on_join_def rooms_call_def)
qed

lemma runs_on_leave: "runs (left n i c0 rm u) (rooms_on_leave rm u) (\<lambda>_. serving n i c0)"
proof (rule runsI)
  fix s assume "left n i c0 rm u s"
  then obtain r0 where r0: "serving n i c0 (s\<lparr>srv_repos := r0\<rparr>)" and J: "snd (leave_room rm u r0) = srv_repos s"
    by (auto simp: left_def)
  have "coherent (members_in (srv_repos s)) (on_leave rm u (srv_rooms s))"
    using memory_members.leave_coherent [of r0 "srv_rooms s" rm u] serving_coherent [OF r0] J by simp
  moreover have "store_inv n (srv_repos s)" "known (srv_repos s) = known r0"
    using store_leave_room [of n r0 rm u] serving_store [OF r0] J known_membership(2) [of rm u r0] by simp_all
  ultimately have "serving n i c0 (s\<lparr>srv_rooms := on_leave rm u (srv_rooms s)\<rparr>)"
    using serving_members [OF r0, of "srv_repos s" "on_leave rm u (srv_rooms s)"] by simp
  then show "\<exists>x s'. rooms_on_leave rm u s = (Inr x, s') \<and> serving n i c0 s'"
    by (simp add: rooms_on_leave_def rooms_call_def)
qed

section \<open>Lookups\<close>

lemma runs_repos_try:
  assumes "\<And>r. store_inv n r \<Longrightarrow> \<exists>x. f r = Inr x \<and> Q x r"
  shows "runs (serving n i c0) (repos_try f) (\<lambda>x s. Q x (srv_repos s) \<and> serving n i c0 s)"
  by (rule runsI) (use assms serving_store in \<open>fastforce simp: repos_try_def\<close>)

lemma runs_repos_read:
  assumes "\<And>r. store_inv n r \<Longrightarrow> Q (f r)"
  shows "runs (serving n i c0) (repos_get f) (\<lambda>x s. Q x \<and> serving n i c0 s)"
  by (rule runsI) (use assms serving_store in \<open>auto simp: repos_get_def\<close>)

lemma found_utf8: "store_inv n r \<Longrightarrow> map_of (users r) k = Some u \<Longrightarrow> utf8 (u_username u)"
  unfolding store_inv_def utf8_store_def by (blast dest: all_vals_lookup)

lemma runs_find_username:
  "runs (serving n i c0) (repos_try (find_user_by_username name))
     (\<lambda>x s. (\<forall>u. x = Some u \<longrightarrow> utf8 (u_username u) \<and> known (srv_repos s) (u_id u)) \<and> serving n i c0 s)"
proof (rule runs_repos_try)
  fix r assume r: "store_inv n r"
  then have inv: "repos_inv r" by (simp add: store_inv_def)
  show "\<exists>x. find_user_by_username name r = Inr x \<and> (\<forall>u. x = Some u \<longrightarrow> utf8 (u_username u) \<and> known r (u_id u))"
    unfolding find_user_by_username_ok [OF inv]
  proof (rule exI, rule conjI, rule refl, intro allI impI)
    fix u assume "(case map_of (username_idx r) name of None \<Rightarrow> None | Some i \<Rightarrow> map_of (users r) i) = Some u"
    then obtain k where k: "map_of (users r) k = Some u" by (auto split: option.splits)
    with user_id_nonzero [OF inv, of k u] found_utf8 [OF r k] show "utf8 (u_username u) \<and> known r (u_id u)"
      by (auto simp: known_def find_user_by_id_def)
  qed
qed

lemma runs_find_user:
  "runs (serving n i c0) (repos_get (find_user_by_id k)) (\<lambda>x s. (\<forall>u. x = Some u \<longrightarrow> utf8 (u_username u)) \<and> serving n i c0 s)"
  by (rule runs_repos_read) (auto simp: find_user_by_id_def dest: found_utf8)

lemma runs_list_rooms:
  "runs (serving n i c0) (repos_try (list_rooms_for_user u)) (\<lambda>x s. (\<forall>y\<in>set x. utf8 (r_name y)) \<and> serving n i c0 s)"
proof (rule runs_repos_try)
  fix r assume r: "store_inv n r"
  then obtain rs where rs: "list_rooms_for_user u r = Inr rs" "\<And>x. x \<in> set rs \<Longrightarrow> \<exists>rid. map_of (rooms r) rid = Some x"
    unfolding store_inv_def by (metis list_rooms_ok [of r u])
  moreover have "all_vals (\<lambda>x. utf8 (r_name x)) (rooms r)" using r by (simp add: store_inv_def utf8_store_def)
  ultimately show "\<exists>x. list_rooms_for_user u r = Inr x \<and> (\<forall>y\<in>set x. utf8 (r_name y))"
    by (blast dest: all_vals_lookup)
qed

lemma runs_history:
  "runs (serving n i c0) (repos_get (history_dm a b bf lim)) (\<lambda>x s. (\<forall>m\<in>set x. utf8 (m_content m)) \<and> serving n i c0 s)"
  "runs (serving n i c0) (repos_get (history_room rm bf lim)) (\<lambda>x s. (\<forall>m\<in>set x. utf8 (m_content m)) \<and> serving n i c0 s)"
  by (rule runs_repos_read,
      auto simp: store_inv_def utf8_store_def history_dm_def history_room_def history_eq last_n_def dest!: in_set_dropD)+

lemma room_there_found:
  assumes "store_inv n r"
  shows "\<exists>x. find_room_by_name name r = Inr x \<and> (\<forall>y. x = Some y \<longrightarrow> room_there (r_id y) r)"
proof -
  have inv: "repos_inv r" using assms by (simp add: store_inv_def)
  show ?thesis unfolding find_room_by_name_ok [OF inv]
    by (auto simp: room_there_def split: option.split dest: room_id_nonzero [OF inv])
qed

lemma runs_find_room:
  "runs (serving n i c0) (repos_try (find_room_by_name name))
     (\<lambda>x s. (\<forall>y. x = Some y \<longrightarrow> room_there (r_id y) (srv_repos s)) \<and> serving n i c0 s)"
  by (rule runs_repos_try [OF room_there_found])

lemma runs_create_room:
  assumes "n < 2 ^ 64 - 1" and "utf8 name"
  shows "runs (serving n i c0) (repos_call (create_room now name))
     (\<lambda>x s. (\<forall>k. x = Some k \<longrightarrow> room_there k (srv_repos s)) \<and> serving (Suc n) i c0 s)"
proof (rule runs_repos_call)
  fix r assume "store_inv n r"
  from store_create_room [OF this assms, of now]
  show "store_inv (Suc n) (snd (create_room now name r)) \<and>
      (\<forall>k. fst (create_room now name r) = Some k \<longrightarrow> room_there k (snd (create_room now name r)))"
    by (simp add: create_room_def room_there_def Let_def map_of_update_iff)
qed (simp add: keeps_users_ops)

end
