(* ===== verification/Requests.thy ===== *)
theory Requests
  imports Handlers Routing
begin

text \<open>
  Correctness of the request handlers of \<open>src/src/handlers/handlers.cpp\<close>: whatever a client
  sends, the dispatcher returns, the invariant of the server holds again, and the client
  gets one reply that carries the identifier of its request.
\<close>

section \<open>Replies\<close>

lemma runs_send:
  assumes "printable j" and "get_str j ''type'' [] \<in> {kAck, kError, kPong}" and "json_find j ''id'' = map_option JInt rid"
    and "n \<le> m"
  shows "runs (serving n i c0) (send i j) (\<lambda>_. answered m i c0 rid)"
  unfolding send_def
proof (intro runs_seq [OF runs_dump [OF assms(1)]] runs_pure runs_reply assms(4))
  fix p assume "parse p = Some (json_norm j)"
  with assms(2,3) show "is_reply rid p" by (simp add: is_reply_def find_norm option.map_comp comp_def)
qed

lemma utf8_literal: "list_all (\<lambda>c. (of_char c :: nat) < 128) s \<Longrightarrow> utf8 s"
  by (rule utf8_ascii_string) (simp add: list_all_iff)

lemma runs_error:
  assumes "list_all (\<lambda>c. (of_char c :: nat) < 128) ecode" and "utf8 msg" and "n \<le> m"
  shows "runs (serving n i c0) (send_error i rid ecode msg) (\<lambda>_. answered m i c0 rid)"
  by (rule runs_send [OF printable_error])
    (use assms in \<open>auto simp: utf8_literal make_error_def get_str_def opt_field_def split: option.split\<close>)

lemma runs_ack:
  assumes "kvs \<noteq> []" and "''id'' \<notin> fst ` set kvs" and "\<forall>k\<in>fst ` set kvs. utf8 k" and "\<forall>v\<in>snd ` set kvs. printable v" and "n \<le> m"
  shows "runs (serving n i c0) (send_ack i rid (json_build kvs)) (\<lambda>_. answered m i c0 rid)"
proof -
  let ?j = "json_build (kvs @ (''type'', JString kAck) # opt_field ''id'' rid)"
  have "make_ack rid (json_build kvs) = Some ?j" unfolding make_ack_def by (rule json_sets_build [OF assms(1)])
  moreover have "map_of (rev kvs) ''id'' = None" using assms(2) by (simp add: map_of_eq_None_iff)
  ultimately show ?thesis unfolding send_ack_def
    using printable_ack [OF assms(3,4,1), of rid] assms(5)
    by (auto simp: get_str_def opt_field_def split: option.split intro!: runs_send)
qed

lemma runs_ack_empty:
  assumes "n \<le> m"
  shows "runs (serving n i c0) (send_ack i rid (JObject [])) (\<lambda>_. answered m i c0 rid)"
proof -
  have "make_ack rid (JObject []) = Some (json_build ((''type'', JString kAck) # opt_field ''id'' rid))"
    by (cases rid) (simp_all add: make_ack_def json_build_def)
  moreover have "printable (json_build ((''type'', JString kAck) # opt_field ''id'' rid))"
    by (rule printable_build) (auto simp: opt_field_def tail_ranges_def split: option.splits)
  ultimately show ?thesis unfolding send_ack_def
    using assms by (auto simp: get_str_def opt_field_def split: option.split intro!: runs_send)
qed

lemma runs_i64: "runs P (req_i64 req k d) (\<lambda>_. P)"
  by (simp add: runs_def req_i64_def)

lemma runs_let: "runs P (f x) Q \<Longrightarrow> runs P (let y = x in f y) Q"
  by simp

section \<open>Authentication\<close>

definition authed :: "nat \<Rightarrow> conn_id \<Rightarrow> Connection \<Rightarrow> i64 option \<Rightarrow> user_id \<Rightarrow> server \<Rightarrow> bool" where
  "authed n i c0 rid u s \<longleftrightarrow> (if u = 0 then answered (Suc n) i c0 rid s else serving n i c0 s)"

lemma runs_refused: "runs P m (\<lambda>_. answered (Suc n) i c0 rid) \<Longrightarrow> runs P (seq m (\<lambda>_. ret 0)) (authed n i c0 rid)"
  by (erule runs_seq, rule runs_ret) (simp add: authed_def)

lemma runs_require_auth: "runs (serving n i c0) (require_auth i req rid) (authed n i c0 rid)"
  unfolding require_auth_def
proof (rule runs_seq [OF runs_field], rule runs_if, rule runs_ret, simp add: authed_def, rule runs_let, rule runs_if)
  show "runs (serving n i c0) (seq (send_error i rid kUnauthorized ''missing session token'') (\<lambda>_. ret 0)) (authed n i c0 rid)"
    by (intro runs_refused runs_error) (simp_all add: tail_ranges_def)
  show "runs (serving n i c0)
      (seq (sessions_validate tok) (\<lambda>info. case info of
          None \<Rightarrow> seq (send_error i rid kUnauthorized ''invalid or expired token'') (\<lambda>_. ret 0)
        | Some x \<Rightarrow> seq (conn_set i (set_user_id (si_user_id x))) (\<lambda>_.
            seq (conn_set i (set_session_token tok)) (\<lambda>_.
            seq (presence_bind (si_user_id x) i) (\<lambda>_. ret (si_user_id x))))))
      (authed n i c0 rid)" for tok
    by (intro runs_seq [OF runs_validate] runs_pure runs_option runs_refused runs_error runs_seq [OF runs_set_user]
        runs_seq [OF runs_set_token] runs_seq [OF runs_bind] runs_ret)
      (simp_all add: tail_ranges_def authed_def)
qed

text \<open>A handler that starts with \<^const>\<open>require_auth\<close>.\<close>

lemma runs_authed:
  assumes "\<And>u. u \<noteq> 0 \<Longrightarrow> runs (serving n i c0) (f u) (\<lambda>_. answered (Suc n) i c0 rid)"
  shows "runs (serving n i c0) (seq (require_auth i req rid) (\<lambda>u. if u = 0 then ret () else f u)) (\<lambda>_. answered (Suc n) i c0 rid)"
proof (rule runs_seq [OF runs_require_auth])
  fix u
  show "runs (authed n i c0 rid u) (if u = 0 then ret () else f u) (\<lambda>_. answered (Suc n) i c0 rid)"
    using assms [of u] by (auto simp: runs_def authed_def ret_def)
qed

section \<open>Handlers\<close>

lemmas handler_rules =
  runs_seq [OF runs_now] runs_seq [OF runs_random] runs_seq [OF runs_read] runs_seq [OF runs_field] runs_seq [OF runs_i64]
  runs_if runs_let runs_option runs_error

lemma register_answers:
  assumes "json_ok req" and "n < 2 ^ 64 - 1"
  shows "runs (serving n i c0) (handle_register i req rid) (\<lambda>_. answered (Suc n) i c0 rid)"
  unfolding handle_register_def Let_def
  by (intro handler_rules runs_seq [OF runs_create_user] runs_ack assms(2))
    (simp_all add: tail_ranges_def get_str_utf8 [OF assms(1)])

text \<open>A user that was looked up by name.\<close>

lemma runs_found:
  assumes "x = None \<Longrightarrow> runs P m Q" and "\<And>y. x = Some y \<Longrightarrow> B y \<Longrightarrow> runs (\<lambda>s. R y s \<and> P s) (f y) Q"
  shows "runs (\<lambda>s. (\<forall>y. x = Some y \<longrightarrow> B y \<and> R y s) \<and> P s) (case x of None \<Rightarrow> m | Some y \<Rightarrow> f y) Q"
  using assms by (cases x) (auto simp: runs_def)

lemma login_answers:
  "runs (serving n i c0) (handle_login i req rid) (\<lambda>_. answered (Suc n) i c0 rid)"
  unfolding handle_login_def Let_def
  by (intro runs_seq [OF runs_find_username] runs_found runs_if runs_error
      runs_weaken [OF runs_error [where n = n], where P' = "\<lambda>s. known (srv_repos s) (u_id _) \<and> serving n i c0 s"]
      runs_seq [OF runs_create_session] runs_pure runs_seq [OF runs_set_user] runs_seq [OF runs_set_token]
      runs_seq [OF runs_bind] runs_seq [OF runs_read] runs_ack)
    (simp_all add: tail_ranges_def)

lemma logout_answers:
  "runs (serving n i c0) (handle_logout i req rid) (\<lambda>_. answered (Suc n) i c0 rid)"
  unfolding handle_logout_def
  by (intro runs_seq [OF runs_field] runs_seq [where R = "\<lambda>_. serving n i c0"] runs_if runs_revoke runs_unbind
      runs_set_user runs_set_token runs_ret runs_ack_empty)
    simp_all

lemma send_dm_answers:
  assumes "json_ok req" and "n < 2 ^ 64 - 1"
  shows "runs (serving n i c0) (handle_send_dm i req rid) (\<lambda>_. answered (Suc n) i c0 rid)"
  unfolding handle_send_dm_def Let_def
  by (intro runs_authed handler_rules runs_seq [OF runs_repos_get] runs_seq [OF runs_send_dm [OF assms(2)]] runs_pure runs_ack
      get_str_utf8 [OF assms(1)])
    (simp_all add: tail_ranges_def)

lemma send_room_answers:
  assumes "json_ok req" and "n < 2 ^ 64 - 1"
  shows "runs (serving n i c0) (handle_send_room i req rid) (\<lambda>_. answered (Suc n) i c0 rid)"
  unfolding handle_send_room_def Let_def
  by (intro runs_authed handler_rules runs_seq [OF runs_send_room [OF assms(2)]] runs_ack get_str_utf8 [OF assms(1)])
    (simp_all add: tail_ranges_def)

lemma leave_room_answers:
  "runs (serving n i c0) (handle_leave_room i req rid) (\<lambda>_. answered (Suc n) i c0 rid)"
  unfolding handle_leave_room_def
  by (intro runs_authed handler_rules runs_seq [OF runs_leave] runs_seq [OF runs_on_leave] runs_ack_empty)
    (simp_all add: tail_ranges_def)

lemma printable_room: "utf8 (r_name x) \<Longrightarrow> printable (room_json x)"
  unfolding room_json_def by (rule printable_build) (auto simp: tail_ranges_def)

lemma printable_message: "utf8 (m_content m) \<Longrightarrow> printable (dm_json m)" "utf8 (m_content m) \<Longrightarrow> printable (room_msg_json m)"
  unfolding dm_json_def room_msg_json_def
  by (rule printable_build; auto simp: tail_ranges_def opt_u64_def split: option.splits)+

lemma list_rooms_answers:
  "runs (serving n i c0) (handle_list_rooms i req rid) (\<lambda>_. answered (Suc n) i c0 rid)"
  unfolding handle_list_rooms_def
  by (intro runs_authed runs_seq [OF runs_list_rooms] runs_pure runs_ack)
    (auto simp: tail_ranges_def printable_room)

lemma history_dm_answers:
  "runs (serving n i c0) (handle_history_dm i req rid) (\<lambda>_. answered (Suc n) i c0 rid)"
  unfolding handle_history_dm_def
  by (intro runs_authed handler_rules runs_seq [OF runs_history(1)] runs_pure runs_ack)
    (auto simp: tail_ranges_def printable_message)

lemma history_room_answers:
  "runs (serving n i c0) (handle_history_room i req rid) (\<lambda>_. answered (Suc n) i c0 rid)"
  unfolding handle_history_room_def
  by (intro runs_authed handler_rules runs_seq [OF runs_check_member] runs_seq [OF runs_history(2)] runs_pure runs_ack)
    (auto simp: tail_ranges_def printable_message)

lemma presence_answers:
  "runs (serving n i c0) (handle_presence i req rid) (\<lambda>_. answered (Suc n) i c0 rid)"
  unfolding handle_presence_def
  by (intro runs_authed handler_rules runs_seq [OF runs_find_user] runs_pure runs_ack)
    (auto simp: tail_ranges_def)

lemma join_room_answers:
  "runs (serving n i c0) (handle_join_room i req rid) (\<lambda>_. answered (Suc n) i c0 rid)"
proof -
  have join: "runs (serving n i c0)
      (seq (repos_call (join_room room u)) (\<lambda>ok. if \<not> ok then send_error i rid kInternal ''join failed''
        else seq (rooms_on_join room u) (\<lambda>_. send_ack i rid (json_build [(''room_id'', JUInt room)]))))
      (\<lambda>_. answered (Suc n) i c0 rid)" for room u
  proof (rule runs_seq [OF runs_join])
    fix ok
    show "runs (\<lambda>s. if ok then joined n i c0 room u s else serving n i c0 s)
        (if \<not> ok then send_error i rid kInternal ''join failed''
         else seq (rooms_on_join room u) (\<lambda>_. send_ack i rid (json_build [(''room_id'', JUInt room)])))
        (\<lambda>_. answered (Suc n) i c0 rid)"
    proof (cases ok)
      case True
      have "runs (joined n i c0 room u) (seq (rooms_on_join room u) (\<lambda>_. send_ack i rid (json_build [(''room_id'', JUInt room)])))
          (\<lambda>_. answered (Suc n) i c0 rid)"
        by (intro runs_seq [OF runs_on_join] runs_ack) (simp_all add: tail_ranges_def)
      with True show ?thesis by simp
    qed (simp add: runs_error tail_ranges_def)
  qed
  have look: "runs (serving n i c0)
      (if b then seq (repos_try (find_room_by_name name)) (\<lambda>r. ret (case r of Some x \<Rightarrow> r_id x | None \<Rightarrow> d)) else ret d)
      (\<lambda>_. serving n i c0)" for b name and d :: room_id
    by (intro runs_if runs_seq [OF runs_find_room] runs_ret) auto
  show ?thesis unfolding handle_join_room_def Let_def
    by (intro runs_authed runs_seq [OF runs_i64] runs_seq [OF look] runs_if runs_error join)
      (simp_all add: tail_ranges_def)
qed

lemma create_room_answers:
  assumes "json_ok req" and "n < 2 ^ 64 - 1"
  shows "runs (serving n i c0) (handle_create_room i req rid) (\<lambda>_. answered (Suc n) i c0 rid)"
proof -
  let ?there = "\<lambda>x s. (\<forall>k. x = Some k \<longrightarrow> True \<and> room_there k (srv_repos s)) \<and> serving (Suc n) i c0 s"
  have known_room: "runs (\<lambda>s. (\<forall>k. x = Some k \<longrightarrow> room_there k (srv_repos s)) \<and> serving (Suc n) i c0 s)
      (if x = None then seq (repos_try (find_room_by_name name)) (\<lambda>y. ret (map_option r_id y)) else ret x) ?there"
    for x name
  proof (rule runs_if)
    assume "x = None"
    have "runs (serving (Suc n) i c0) (seq (repos_try (find_room_by_name name)) (\<lambda>y. ret (map_option r_id y))) ?there"
      by (intro runs_seq [OF runs_find_room] runs_ret) auto
    then show "runs (\<lambda>s. (\<forall>k. x = Some k \<longrightarrow> room_there k (srv_repos s)) \<and> serving (Suc n) i c0 s)
        (seq (repos_try (find_room_by_name name)) (\<lambda>y. ret (map_option r_id y))) ?there"
      by (rule runs_weaken) auto
  qed (intro runs_ret, simp)
  show ?thesis unfolding handle_create_room_def Let_def
    by (intro runs_authed runs_if runs_error runs_seq [OF runs_now] runs_seq [OF runs_create_room] runs_seq [OF known_room]
        runs_found runs_seq [OF runs_join_there] runs_seq [OF runs_on_join] runs_ack assms(2) get_str_utf8 [OF assms(1)])
      (simp_all add: tail_ranges_def get_str_utf8 [OF assms(1)])
qed

lemma ping_answers:
  "runs (serving n i c0) (handle_ping i req rid) (\<lambda>_. answered (Suc n) i c0 rid)"
proof -
  have pong: "make_ack rid (json_build [(''t'', JInt now)]) =
      Some (json_build ([(''t'', JInt now)] @ (''type'', JString kAck) # opt_field ''id'' rid))" for now
    unfolding make_ack_def by (rule json_sets_build) simp
  have set_type: "json_set ''type'' v (json_build (kv # kvs)) = Some (json_build (kv # kvs @ [(''type'', v)]))" for v kv kvs
    by (simp add: json_build_def)
  have "printable (json_build ((''t'', JInt now) # ((''type'', JString kAck) # opt_field ''id'' rid) @ [(''type'', JString kPong)]))" for now
    by (rule printable_build) (auto simp: tail_ranges_def opt_field_def split: option.splits)
  then show ?thesis unfolding handle_ping_def
    by (intro runs_seq [OF runs_now]) (auto simp: pong set_type get_str_def opt_field_def split: option.split intro!: runs_send)
qed

section \<open>The dispatcher\<close>

lemma table_answers:
  assumes "json_ok req" and "n < 2 ^ 64 - 1" and "map_of table ty = Some h"
  shows "runs (serving n i c0) (h i req rid) (\<lambda>_. answered (Suc n) i c0 rid)"
proof -
  from assms(3) have "h \<in> snd ` set table" by (force dest: map_of_SomeD)
  with assms(1,2) show ?thesis
    by (auto simp: table_def register_answers login_answers logout_answers send_dm_answers send_room_answers create_room_answers
        join_room_answers leave_room_answers list_rooms_answers history_dm_answers history_room_answers presence_answers
        ping_answers)
qed

text \<open>The identifier that the reply to a payload carries.\<close>

definition rid_of :: "string \<Rightarrow> i64 option" where
  "rid_of payload = (case parse payload of None \<Rightarrow> None | Some req \<Rightarrow> request_id req)"

lemma runs_dispatch:
  assumes "n < 2 ^ 64 - 1"
  shows "runs (serving n i c0) (dispatch i payload) (\<lambda>_. answered (Suc n) i c0 (rid_of payload))"
proof (cases "parse payload")
  case None
  then show ?thesis by (simp add: dispatch_def rid_of_def runs_error tail_ranges_def)
next
  case (Some req)
  then have ok: "json_ok req" by (rule parse_ok)
  show ?thesis unfolding dispatch_def rid_of_def Some option.case Let_def
    by (intro runs_if runs_option runs_error runs_try table_answers [OF ok assms])
      (simp_all add: tail_ranges_def get_str_utf8 [OF ok])
qed

end
