(* ===== verification/Service.thy ===== *)
theory Service
  imports Requests
begin

text \<open>
  What the service promises to a client, request by request: every request is answered,
  requests without a session are refused, rooms are closed to those who are not members,
  and an account that was registered can be used.
\<close>

section \<open>The initial state\<close>

lemma store_inv_init: "store_inv 1 Repositories_init"
  by (simp add: store_defs repos_inv_def table_ok_def Repositories_init_def all_vals_def)

lemma warm_known:
  assumes "\<forall>row\<in>set rows. known r (sr_user_id row)" and "sessions_known r sm"
  shows "sessions_known r (fold (warm_row now) rows sm)"
  using assms by (induction rows arbitrary: sm) (auto simp: warm_row_def Let_def sessions_known_def all_vals_update)

lemma init_inv:
  assumes "store_inv n r" and "\<forall>row\<in>set (sessions r). known r (sr_user_id row)"
  shows "server_inv n (ChatServer_init ttl mm iter clock entropy ub to_chars r)"
proof -
  have "sessions_known r (SessionManager_new ttl)" by (simp add: sessions_known_def SessionManager_new_def all_vals_def)
  then have "sessions_known r (warm load_all_sessions (clock 0) r (SessionManager_new ttl))"
    unfolding warm_def load_all_sessions_def by (rule warm_known [OF assms(2)])
  with assms(1) show ?thesis
    by (simp add: ChatServer_init_def server_inv_def inv_but_rooms_def presence_inv_def conns_ok_def bound_ok_def
        coherent_def RoomManager_new_def)
qed

lemma accept_inv:
  assumes "server_inv n s" and "map_of (srv_conns s) i = None" and "cn_id c = i"
  shows "server_inv n (s\<lparr>srv_conns := (i, c) # srv_conns s\<rparr>)"
proof -
  have "bound_ok (srv_presence s) (srv_conns s)" "conns_ok (srv_conns s)"
    using assms(1) by (simp_all add: server_inv_def inv_but_rooms_def)
  then have "bound_ok (srv_presence s) ((i, c) # srv_conns s)" "conns_ok ((i, c) # srv_conns s)"
    using assms(2,3) by (simp_all add: conns_ok_def bound_ok_def map_of_eq_None_iff [symmetric] split_beta)
  with assms(1) show ?thesis by (simp add: server_inv_def inv_but_rooms_def)
qed

text \<open>A server that has accepted one connection, used by \<open>u\<close>, for the examples.\<close>

definition client_of :: "user_id \<Rightarrow> Connection" where
  "client_of u = set_user_id u (Connection_make 1 5 65536)"

definition one_client :: "user_id \<Rightarrow> server" where
  "one_client u = (ChatServer_init 3600 4096 1 (\<lambda>_. 1000) (\<lambda>_. 7) (\<lambda>_. 0) (\<lambda>_. []) Repositories_init)
     \<lparr>srv_conns := [(1, client_of u)]\<rparr>"

lemma one_client_inv: "server_inv 1 (one_client u)"
  using accept_inv [OF init_inv [OF store_inv_init], of 3600 4096 1 "\<lambda>_. 1000" "\<lambda>_. 7" "\<lambda>_. 0" "\<lambda>_. []" 1 "client_of u"]
  by (simp add: one_client_def Repositories_init_def)
    (simp add: ChatServer_init_def Connection_make_def client_of_def set_user_id_def)

lemma one_client_conns [simp]: "map_of (srv_conns (one_client u)) 1 = Some (client_of u)" "cn_user_id (client_of u) = u"
  by (simp_all add: one_client_def client_of_def set_user_id_def)

section \<open>Refusals\<close>

lemma send_effect:
  assumes "printable j" and "map_of (srv_conns s) i = Some c"
  shows "\<exists>p ps. parse p = Some (json_norm j) \<and>
    send i j s = (Inr (), s\<lparr>srv_conns := AList.update i (fst (send_frame p c)) (srv_conns s), srv_posts := ps\<rparr>)"
proof -
  obtain p where "serialize (srv_to_chars s) j = Some p" "parse p = Some (json_norm j)"
    using serialize_printable [OF assms(1)] by blast
  with assms(2) show ?thesis
    by (auto simp: send_def seq_def dump_json_def conn_call_def split_beta Let_def)
qed

text \<open>A request that had no effect but an error for the client who made it.\<close>

definition refused :: "conn_id \<Rightarrow> i64 option \<Rightarrow> string \<Rightarrow> server \<Rightarrow> (exn + unit) \<times> server \<Rightarrow> bool" where
  "refused i rid ecode s res =
     (case res of
        (Inl e, s') \<Rightarrow> False
      | (Inr x, s') \<Rightarrow>
          srv_repos s' = srv_repos s \<and> srv_presence s' = srv_presence s \<and>
          (\<forall>j. j \<noteq> i \<longrightarrow> map_of (srv_conns s') j = map_of (srv_conns s) j) \<and>
          (\<exists>msg p. parse p = Some (json_norm (make_error rid ecode msg)) \<and>
             map_of (srv_conns s') i = map_option (\<lambda>c. fst (send_frame p c)) (map_of (srv_conns s) i)))"

lemma refusedI:
  assumes "map_of (srv_conns s) i \<noteq> None" and "utf8 ecode" and "utf8 msg"
    and "srv_repos s' = srv_repos s" and "srv_presence s' = srv_presence s" and "srv_conns s' = srv_conns s"
  shows "refused i rid ecode s (send_error i rid ecode msg s')"
proof -
  obtain c where c: "map_of (srv_conns s) i = Some c" using assms(1) by auto
  then obtain p ps where "parse p = Some (json_norm (make_error rid ecode msg))"
      "send_error i rid ecode msg s' = (Inr (), s'\<lparr>srv_conns := AList.update i (fst (send_frame p c)) (srv_conns s), srv_posts := ps\<rparr>)"
    using send_effect [OF printable_error [OF assms(2,3)], of s' i c rid] assms(6) by auto
  with c assms(4,5) show ?thesis by (auto simp: refused_def map_of_update_iff)
qed

text \<open>The requests that need a session.\<close>

definition protected :: "string list" where
  "protected = [kSendDM, kSendRoom, kCreateRoom, kJoinRoom, kLeaveRoom, kListRooms, kHistoryDM, kHistoryRoom, kPresence]"

lemma protected_handler:
  assumes "ty \<in> set protected" and "map_of table ty = Some h"
  shows "\<exists>f. \<forall>i req rid. h i req rid = seq (require_auth i req rid) (\<lambda>u. if u = 0 then ret () else f u i req rid)"
proof -
  have "h \<in> {handle_send_dm, handle_send_room, handle_create_room, handle_join_room, handle_leave_room, handle_list_rooms,
      handle_history_dm, handle_history_room, handle_presence}"
    using assms by (auto simp: protected_def table_def)
  then show ?thesis unfolding insert_iff empty_iff
    by (elim disjE)
      ((simp only: handle_send_dm_def handle_send_room_def handle_create_room_def handle_join_room_def handle_leave_room_def
          handle_list_rooms_def handle_history_dm_def handle_history_room_def handle_presence_def,
        rule exI, intro allI, rule refl) | simp only: False_implies_equals)+
qed

lemma validate_effect:
  "srv_repos (snd (sessions_validate tok s)) = srv_repos s" "srv_presence (snd (sessions_validate tok s)) = srv_presence s"
  "srv_conns (snd (sessions_validate tok s)) = srv_conns s"
  by (simp_all add: sessions_validate_def seq_def now_unix_ms_def split_beta Let_def split: option.split)

lemma require_auth_refuses:
  assumes "map_of (srv_conns s) i = Some c" and "cn_user_id c = 0"
    and "get_str req ''token'' [] = [] \<or> fst (sessions_validate (get_str req ''token'' []) s) = Inr None"
  shows "\<exists>msg s1. utf8 msg \<and> require_auth i req rid s = seq (send_error i rid kUnauthorized msg) (\<lambda>_. ret 0) s1 \<and>
    srv_repos s1 = srv_repos s \<and> srv_presence s1 = srv_presence s \<and> srv_conns s1 = srv_conns s"
proof (cases "get_str req ''token'' [] = []")
  case True
  with assms have "require_auth i req rid s = seq (send_error i rid kUnauthorized ''missing session token'') (\<lambda>_. ret 0) s"
    by (simp add: require_auth_def seq_def [of "conn_field _ _ _"] conn_field_def)
  then show ?thesis by (intro exI [of _ "''missing session token''"] exI [of _ s]) (simp add: tail_ranges_def)
next
  case False
  with assms(3) obtain s1 where v: "sessions_validate (get_str req ''token'' []) s = (Inr None, s1)"
    by (cases "sessions_validate (get_str req ''token'' []) s") auto
  with False assms
  have "require_auth i req rid s = seq (send_error i rid kUnauthorized ''invalid or expired token'') (\<lambda>_. ret 0) s1"
    by (simp add: require_auth_def seq_def [of "conn_field _ _ _"] conn_field_def seq_def [of "sessions_validate _"] Let_def)
  with validate_effect [of "get_str req ''token'' []" s] v show ?thesis
    by (intro exI [of _ "''invalid or expired token''"] exI [of _ s1]) (simp add: tail_ranges_def)
qed

lemma refused_authed:
  assumes "map_of (srv_conns s) i \<noteq> None" and "require_auth i req rid s = seq (send_error i rid kUnauthorized msg) (\<lambda>_. ret 0) s1"
    and "utf8 msg" and "srv_repos s1 = srv_repos s" and "srv_presence s1 = srv_presence s" and "srv_conns s1 = srv_conns s"
  shows "refused i rid kUnauthorized s (seq (require_auth i req rid) (\<lambda>u. if u = 0 then ret () else f u) s)"
proof -
  have "refused i rid kUnauthorized s (send_error i rid kUnauthorized msg s1)"
    by (rule refusedI) (use assms in \<open>simp_all add: tail_ranges_def\<close>)
  then obtain s' where "send_error i rid kUnauthorized msg s1 = (Inr (), s')"
      "refused i rid kUnauthorized s (Inr (), s')"
    by (cases "send_error i rid kUnauthorized msg s1") (auto simp: refused_def split: sum.splits)
  then show ?thesis by (simp add: seq_def assms(2) ret_def)
qed

section \<open>Properties\<close>

text \<open>
  C5. The \<open>catch\<close> clauses of \<open>dispatch\<close> are never needed: in a state that satisfies the invariant no
  handler of the table throws, whatever JSON value the request is. In particular the
  \<open>at\<close> lookups of the store find their keys and every string that is sent is UTF-8.
\<close>

theorem handlers_never_throw:
  assumes "server_inv n s" and "n < 2 ^ 64 - 1" and "map_of (srv_conns s) i \<noteq> None" and "json_ok req"
    and "map_of table ty = Some h"
  shows "\<exists>s'. h i req rid s = (Inr (), s') \<and> server_inv (Suc n) s'"
proof -
  obtain c where "map_of (srv_conns s) i = Some c" using assms(3) by auto
  then have "serving n i c s" using assms(1) by (auto simp: serving_def intro!: exI [of _ "[]"])
  from runsD [OF table_answers [OF assms(4,2,5)] this] show ?thesis by (auto simp: answered_def)
qed

theorem handlers_never_throw_witness:
  "\<exists>s'. handle_list_rooms 1 (JObject []) (Some 5) (one_client 0) = (Inr (), s') \<and> server_inv (Suc 1) s'"
  using handlers_never_throw [OF one_client_inv, of 0 1 "JObject []" kListRooms handle_list_rooms "Some 5"]
  by (simp add: table_def)



text \<open>
  C7. Rooms are closed: the messages of a room can be neither read nor added to by a user
  who is not a member. Such a request gets an error, and the store, presence and every
  other connection stay as they were.
\<close>

theorem room_is_private:
  assumes "server_inv n s" and "map_of (srv_conns s) i = Some c" and "cn_user_id c \<noteq> 0"
    and "\<not> is_member (get_i64 (srv_ub s) req ''room_id'' 0) (cn_user_id c) (srv_repos s)"
    and "h \<in> {handle_history_room, handle_send_room}"
  shows "\<exists>ecode. refused i rid ecode s (h i req rid s)"
proof -
  let ?room = "get_i64 (srv_ub s) req ''room_id'' 0"
  define g where "g = snd (manager_is_member (members_in (srv_repos s)) ?room (cn_user_id c) (srv_rooms s))"
  have m: "rooms_is_member ?room (cn_user_id c) s = (Inr False, s\<lparr>srv_rooms := g\<rparr>)"
    using manager_is_member_correct [of "members_in (srv_repos s)" "srv_rooms s" ?room "cn_user_id c"] assms(1,4)
    by (simp add: rooms_is_member_def rooms_call_def split_beta is_member_slot server_inv_def g_def)
  have auth: "require_auth i req rid s = (Inr (cn_user_id c), s)"
    using assms(2,3) by (simp add: require_auth_def seq_def conn_field_def ret_def)
  have no: "\<exists>ecode. refused i rid ecode s (send_error i rid e msg s')"
    if "utf8 e" "utf8 msg" "s' = s \<or> s' = s\<lparr>srv_rooms := g\<rparr>" for e msg s'
    using assms(2) that by (intro exI [of _ e] refusedI) auto
  show ?thesis
  proof (cases "h = handle_history_room")
    case True
    have "\<exists>ecode. refused i rid ecode s (handle_history_room i req rid s)"
      using assms(3) by (auto intro!: no simp: handle_history_room_def seq_def auth req_i64_def m tail_ranges_def)
    with True show ?thesis by simp
  next
    case False
    have "\<exists>ecode. refused i rid ecode s (handle_send_room i req rid s)"
      using assms(3) by (auto intro!: no simp: handle_send_room_def seq_def auth req_i64_def get_def send_room_def m ret_def tail_ranges_def Let_def)
    with False assms(5) show ?thesis by simp
  qed
qed

theorem room_is_private_witness:
  "\<exists>ecode. refused 1 None ecode (one_client 3) (handle_history_room 1 (JObject [(''room_id'', JInt 9)]) None (one_client 3))"
  by (rule room_is_private [OF one_client_inv, where c = "client_of 3"])
    (simp_all add: get_i64_def is_member_def, simp add: one_client_def ChatServer_init_def Repositories_init_def)

end
