(* ===== verification/Accounts.thy ===== *)
theory Accounts
  imports Service
begin

text \<open>
  Accounts and sessions, end to end: registration, login, logout and their effect on the
  store, the sessions, presence and the connection.
\<close>

section \<open>What replies and replays leave alone\<close>

lemma keeps_basic: "keeps f (ret x)" "keeps f (throw e)" "keeps f (get g)"
  by (simp_all add: keeps_def ret_def throw_def get_def)

lemma keeps_if: "keeps f m \<Longrightarrow> keeps f m' \<Longrightarrow> keeps f (if b then m else m')"
  by simp

lemma keepsD: "keeps f m \<Longrightarrow> m s = (x, s') \<Longrightarrow> f s' = f s"
  unfolding keeps_def by (metis snd_conv)

text \<open>Who a connection belongs to, the sessions, and presence.\<close>

definition owner :: "conn_id \<Rightarrow> server \<Rightarrow> (user_id \<times> string) option" where
  "owner i s = map_option (\<lambda>c. (cn_user_id c, cn_token c)) (map_of (srv_conns s) i)"

definition identities :: "conn_id \<Rightarrow> server \<Rightarrow> (user_id \<times> string) option \<times> SessionManager \<times> Presence" where
  "identities i s = (owner i s, srv_sessions s, srv_presence s)"

lemma keeps_send_frame: "keeps (identities i) (conn_call j (send_frame p))"
  by (auto simp: keeps_def identities_def owner_def conn_call_def split_beta Let_def map_of_update_iff send_frame_hdr split: option.split)

lemma keeps_send_each: "keeps (identities i) (send_each js p)"
  by (induction js) (simp_all add: keeps_basic keeps_seq keeps_send_frame)

lemma keeps_dump: "keeps f (dump_json j)"
  by (simp add: keeps_def dump_json_def split: option.split)

lemma keeps_send: "keeps (identities i) (send j v)"
  unfolding send_def by (intro keeps_seq keeps_dump keeps_send_frame)

lemma keeps_send_ack: "keeps (identities i) (send_ack j rid v)"
  by (simp add: send_ack_def keeps_send keeps_basic split: option.split)

lemma keeps_env: "keeps (identities i) now_unix_ms" "keeps (identities i) (repos_do f)" "keeps (identities i) (repos_call g)"
  by (simp_all add: keeps_def identities_def owner_def now_unix_ms_def repos_do_def repos_call_def split_beta Let_def)

lemma keeps_replay_each: "keeps (identities i) (replay_each ms js)"
  by (induction ms) (simp_all add: keeps_basic keeps_seq keeps_dump keeps_send_each)

lemma keeps_transition: "keeps (identities i) (transition_handler u b)"
  unfolding transition_handler_def replay_offline_def
  by (intro keeps_if keeps_seq keeps_env keeps_basic keeps_replay_each)

lemma seq_step: "m s = (Inr x, s') \<Longrightarrow> seq m f s = f x s'"
  by (simp add: seq_def)

lemma conn_set_step:
  "map_of (srv_conns s) i = Some c \<Longrightarrow> conn_set i f s = (Inr (), s\<lparr>srv_conns := AList.update i (f c) (srv_conns s)\<rparr>)"
  by (cases s) (simp add: conn_set_def conn_call_def post_effects_def)

lemma seq_conn_set:
  "map_of (srv_conns s) i = Some c \<Longrightarrow> seq (conn_set i f) g s = g () (s\<lparr>srv_conns := AList.update i (f c) (srv_conns s)\<rparr>)"
  by (rule seq_step) (rule conn_set_step)

lemma bind_then:
  "\<exists>m. presence_bind u i s = m (s\<lparr>srv_presence := snd (Presence_bind u i (srv_presence s))\<rparr>) \<and> keeps (identities j) m"
proof (intro exI conjI)
  let ?b = "fst (Presence_bind u i (srv_presence s))"
  show "presence_bind u i s = seq (if ?b then transition_handler u True else ret ()) (\<lambda>_. ret ?b)
      (s\<lparr>srv_presence := snd (Presence_bind u i (srv_presence s))\<rparr>)"
    unfolding presence_bind_def by (rule seq_step) (simp add: split_beta)
qed (intro keeps_seq keeps_if keeps_transition keeps_basic)

lemma unbind_then:
  "\<exists>m. presence_unbind u i s = m (s\<lparr>srv_presence := snd (Presence_unbind u i (srv_presence s))\<rparr>) \<and> keeps (identities j) m"
proof (intro exI conjI)
  let ?b = "fst (Presence_unbind u i (srv_presence s))"
  show "presence_unbind u i s = seq (if ?b then transition_handler u False else ret ()) (\<lambda>_. ret ?b)
      (s\<lparr>srv_presence := snd (Presence_unbind u i (srv_presence s))\<rparr>)"
    unfolding presence_unbind_def by (rule seq_step) (simp add: split_beta)
qed (intro keeps_seq keeps_if keeps_transition keeps_basic)

section \<open>Login\<close>

text \<open>The token that the next login draws.\<close>

definition next_token :: "server \<Rightarrow> string" where
  "next_token s = make_session_token (map (srv_entropy s) [srv_drawn s ..< srv_drawn s + 32])"

definition with_session :: "string \<Rightarrow> user_id \<Rightarrow> i64 \<Rightarrow> SessionManager \<Rightarrow> SessionManager" where
  "with_session tok u now sm =
     sm\<lparr>session_cache := AList.update tok \<lparr>si_user_id = u, si_expires_at_ms = now + ttl_seconds sm * 1000\<rparr> (session_cache sm)\<rparr>"

lemma login_accepted:
  assumes "map_of (srv_conns s) i = Some c" and "find_user_by_username (get_str req ''username'' []) (srv_repos s) = Inr (Some u)"
    and "verify_password_hash (get_str req ''password'' []) (u_password_hash u)"
  shows "identities i (snd (handle_login i req rid s)) =
    (Some (u_id u, next_token s), with_session (next_token s) (u_id u) (srv_clock s (srv_ticks s)) (srv_sessions s),
     snd (Presence_bind (u_id u) i (srv_presence s)))"
proof -
  let ?uid = "u_id u"
  define s1 where "s1 = s\<lparr>srv_drawn := srv_drawn s + 32, srv_ticks := Suc (srv_ticks s),
      srv_sessions := with_session (next_token s) ?uid (srv_clock s (srv_ticks s)) (srv_sessions s),
      srv_repos := insert_session (next_token s) ?uid (srv_clock s (srv_ticks s)) (srv_repos s)\<rparr>"
  define s2 where "s2 = s1\<lparr>srv_conns := AList.update i (set_session_token (next_token s) (set_user_id ?uid c))
      (AList.update i (set_user_id ?uid c) (srv_conns s))\<rparr>"
  define rest where "rest = (\<lambda>b :: bool. seq (get (\<lambda>s. ttl_seconds (srv_sessions s))) (\<lambda>ttl.
      send_ack i rid (json_build [(''user_id'', JUInt ?uid), (''username'', JString (u_username u)),
        (''token'', JString (next_token s)), (''ttl_s'', JInt ttl)])))"
  have created: "sessions_create ?uid s = (Inr (next_token s), s1)"
    by (simp add: sessions_create_def seq_def random_bytes_def now_unix_ms_def create_def Let_def s1_def with_session_def next_token_def)
  have conns1: "srv_conns s1 = srv_conns s" by (simp add: s1_def)
  then have c1: "map_of (srv_conns s1) i = Some c" using assms(1) by simp
  have "seq (conn_set i (set_user_id ?uid)) (\<lambda>_. seq (conn_set i (set_session_token (next_token s))) (\<lambda>_. seq (presence_bind ?uid i) rest)) s1
      = seq (presence_bind ?uid i) rest s2"
    by (simp add: seq_conn_set [OF c1] seq_conn_set [where c = "set_user_id ?uid c"] map_of_update_iff s2_def conns1)
  then have run: "handle_login i req rid s = seq (presence_bind ?uid i) rest s2"
    using assms(2,3) created by (simp add: handle_login_def seq_def [of "repos_try _"] repos_try_def seq_def [of "sessions_create _"] rest_def)
  obtain m where m: "presence_bind ?uid i s2 = m (s2\<lparr>srv_presence := snd (Presence_bind ?uid i (srv_presence s2))\<rparr>)"
    "keeps (identities i) m" using bind_then by blast
  have "seq (presence_bind ?uid i) rest s2 = seq m rest (s2\<lparr>srv_presence := snd (Presence_bind ?uid i (srv_presence s2))\<rparr>)"
    by (simp add: seq_def m(1))
  moreover have "keeps (identities i) (seq m rest)"
    unfolding rest_def by (intro keeps_seq m(2) keeps_basic keeps_send_ack)
  ultimately have "identities i (snd (handle_login i req rid s)) =
      identities i (s2\<lparr>srv_presence := snd (Presence_bind ?uid i (srv_presence s2))\<rparr>)"
    by (simp add: run keeps_def)
  also have "\<dots> = (Some (?uid, next_token s), with_session (next_token s) ?uid (srv_clock s (srv_ticks s)) (srv_sessions s),
      snd (Presence_bind ?uid i (srv_presence s)))"
    by (simp add: identities_def owner_def s2_def s1_def map_of_update_iff set_user_id_def set_session_token_def)
  finally show ?thesis .
qed

lemma login_rejected:
  assumes "map_of (srv_conns s) i \<noteq> None" and "find_user_by_username (get_str req ''username'' []) (srv_repos s) = Inr x"
    and "\<forall>u. x = Some u \<longrightarrow> \<not> verify_password_hash (get_str req ''password'' []) (u_password_hash u)"
  shows "refused i rid kUnauthorized s (handle_login i req rid s)"
proof -
  have "handle_login i req rid s = send_error i rid kUnauthorized ''bad credentials'' s"
    using assms(2,3) by (cases x) (simp_all add: handle_login_def seq_def [of "repos_try _"] repos_try_def)
  moreover have "refused i rid kUnauthorized s (send_error i rid kUnauthorized ''bad credentials'' s)"
    by (rule refusedI [OF assms(1)]) (simp_all add: tail_ranges_def)
  ultimately show ?thesis by simp
qed

section \<open>Logout\<close>

lemma logout_identities:
  assumes "map_of (srv_conns s) i = Some c" and "handle_logout i req rid s = (Inr (), s')"
  shows "identities i s' = (Some (0, []),
    if cn_token c \<noteq> [] then fst (revoke delete_session (cn_token c) (srv_sessions s, srv_repos s)) else srv_sessions s,
    if cn_user_id c \<noteq> 0 then snd (Presence_unbind (cn_user_id c) i (srv_presence s)) else srv_presence s)"
proof -
  let ?tok = "cn_token c" and ?uid = "cn_user_id c"
  define r where "r = revoke delete_session ?tok (srv_sessions s, srv_repos s)"
  define s1 where "s1 = (if ?tok \<noteq> [] then s\<lparr>srv_sessions := fst r, srv_repos := snd r\<rparr> else s)"
  define p where "p = (if ?uid \<noteq> 0 then snd (Presence_unbind ?uid i (srv_presence s)) else srv_presence s)"
  have conns1: "srv_conns s1 = srv_conns s" "srv_presence s1 = srv_presence s" by (simp_all add: s1_def)
  let ?unbind = "if ?uid \<noteq> 0 then seq (presence_unbind ?uid i) (\<lambda>_. ret ()) else ret ()"
  have "handle_logout i req rid s = seq ?unbind (\<lambda>_. seq (conn_set i (set_user_id 0)) (\<lambda>_.
      seq (conn_set i (set_session_token [])) (\<lambda>_. send_ack i rid (JObject [])))) s1"
    using assms(1)
    by (simp add: handle_logout_def seq_def [of "conn_field _ _ _"] conn_field_def seq_def [of "if _ \<noteq> [] then _ else _"]
        ret_def sessions_revoke_def split_beta r_def [symmetric] s1_def)
  with assms(2) obtain s2 where s2: "?unbind s1 = (Inr (), s2)"
    "seq (conn_set i (set_user_id 0)) (\<lambda>_. seq (conn_set i (set_session_token [])) (\<lambda>_. send_ack i rid (JObject []))) s2 = (Inr (), s')"
    by (auto simp: seq_def [of ?unbind] split: prod.splits sum.splits)
  have I2: "identities i s2 = identities i (s1\<lparr>srv_presence := p\<rparr>)"
  proof (cases "?uid = 0")
    case True
    with s2(1) have "s2 = s1" by (simp add: ret_def)
    with True show ?thesis by (simp add: p_def conns1 identities_def owner_def)
  next
    case False
    obtain m where m: "presence_unbind ?uid i s1 = m (s1\<lparr>srv_presence := snd (Presence_unbind ?uid i (srv_presence s1))\<rparr>)"
      "keeps (identities i) m" using unbind_then by blast
    with False have "seq m (\<lambda>_. ret ()) (s1\<lparr>srv_presence := p\<rparr>) = (Inr (), s2)"
      using s2(1) by (simp add: seq_def p_def conns1)
    from keepsD [OF keeps_seq [OF m(2) keeps_basic(1)] this] show ?thesis .
  qed
  then have "owner i s2 = Some (?uid, ?tok)" using assms(1) by (simp add: identities_def owner_def conns1)
  then obtain c2 where c2: "map_of (srv_conns s2) i = Some c2" by (auto simp: owner_def)
  let ?s3 = "s2\<lparr>srv_conns := AList.update i (set_session_token [] (set_user_id 0 c2)) (AList.update i (set_user_id 0 c2) (srv_conns s2))\<rparr>"
  have "send_ack i rid (JObject []) ?s3 = (Inr (), s')"
    using s2(2) by (simp add: seq_conn_set [OF c2] seq_conn_set [where c = "set_user_id 0 c2"] map_of_update_iff)
  then have "identities i s' = identities i ?s3" by (rule keepsD [OF keeps_send_ack])
  then show ?thesis using I2
    by (simp add: identities_def owner_def map_of_update_iff set_user_id_def set_session_token_def p_def s1_def r_def split: if_splits)
qed

section \<open>Registration\<close>

definition register_salt :: "server \<Rightarrow> u8 list" where
  "register_salt s = map (srv_entropy s) [srv_drawn s ..< srv_drawn s + 16]"

definition registration_ok :: "string \<Rightarrow> string \<Rightarrow> bool" where
  "registration_ok user pass \<longleftrightarrow> user \<noteq> [] \<and> length user \<le> 64 \<and> 4 \<le> length pass"

lemma register_invalid:
  assumes "map_of (srv_conns s) i \<noteq> None" and "\<not> registration_ok (get_str req ''username'' []) (get_str req ''password'' [])"
  shows "refused i rid kBadRequest s (handle_register i req rid s)"
proof -
  have "handle_register i req rid s = send_error i rid kBadRequest ''username/password invalid'' s"
    using assms(2) by (auto simp: handle_register_def registration_ok_def Let_def not_le not_less)
  moreover have "refused i rid kBadRequest s (send_error i rid kBadRequest ''username/password invalid'' s)"
    by (rule refusedI [OF assms(1)]) (simp_all add: tail_ranges_def)
  ultimately show ?thesis by simp
qed

text \<open>What a valid registration does before it replies.\<close>

lemma register_run:
  assumes "registration_ok (get_str req ''username'' []) (get_str req ''password'' [])"
  shows "handle_register i req rid s =
    (let (x, r) = create_user (srv_clock s (srv_ticks s)) (get_str req ''username'' [])
           (make_password_hash (register_salt s) (get_str req ''password'' []) (srv_pbkdf2_iter s)) (srv_repos s);
         s1 = s\<lparr>srv_drawn := srv_drawn s + 16, srv_ticks := Suc (srv_ticks s), srv_repos := r\<rparr>
     in case x of
          None \<Rightarrow> send_error i rid kConflict ''username already taken'' s1
        | Some k \<Rightarrow> send_ack i rid (json_build [(''user_id'', JUInt k), (''username'', JString (get_str req ''username'' []))]) s1)"
  using assms
  by (auto simp: handle_register_def registration_ok_def Let_def seq_def random_bytes_def get_def now_unix_ms_def repos_call_def
      register_salt_def split_beta split: option.split)

lemma created_user:
  assumes "repos_inv r" and "map_of (username_idx r) name = None"
  shows "find_user_by_username name (snd (create_user now name h r)) =
      Inr (Some \<lparr>u_id = next_user_id r, u_username = name, u_password_hash = h, u_created_at_ms = now, u_last_seen_ms = 0\<rparr>)"
    "next_user_id r \<noteq> 0" "find_user_by_id (next_user_id r) r = None"
proof -
  from assms(1) have T: "table_ok (next_user_id r) (users r) (username_idx r) u_id u_username" by (simp add: repos_inv_def)
  show "next_user_id r \<noteq> 0" "find_user_by_id (next_user_id r) r = None"
    using table_okD(1) [OF T] table_okD(4) [OF T, of "next_user_id r"]
    by (auto simp: word_gt_0 find_user_by_id_def intro: ccontr)
qed (simp add: create_user_def assms(2) Let_def find_user_by_username_def map_of_update_iff at_key_def)

lemma keeps_repos_ack: "keeps srv_repos (send_ack i rid v)"
  unfolding send_ack_def send_def
  by (auto simp: keeps_basic keeps_dump keeps_repos_conn intro!: keeps_seq split: option.split)

section \<open>Properties\<close>

text \<open>
  C11. Registration: a name that is empty or longer than 64 bytes, or a password shorter than
  4, is a bad request, a name that is taken a conflict, and neither changes anything.
  Otherwise the reply comes with the account in the store under a fresh, non-zero
  identifier, with a record that accepts a password exactly when it derives the same key,
  so that the password of the request is accepted at the next login.
\<close>

theorem register_correct:
  assumes "server_inv n s" and "n < 2 ^ 64 - 1" and "map_of (srv_conns s) i = Some c" and "json_ok req"
  defines "user \<equiv> get_str req ''username'' []" and "pass \<equiv> get_str req ''password'' []"
  shows "if \<not> registration_ok user pass then refused i rid kBadRequest s (handle_register i req rid s)
    else if find_user_by_username user (srv_repos s) \<noteq> Inr None then refused i rid kConflict s (handle_register i req rid s)
    else \<exists>s' u. handle_register i req rid s = (Inr (), s') \<and> server_inv (Suc n) s' \<and>
      find_user_by_username user (srv_repos s') = Inr (Some u) \<and> u_id u \<noteq> 0 \<and> find_user_by_id (u_id u) (srv_repos s) = None \<and>
      (\<forall>p. verify_password_hash p (u_password_hash u) \<longleftrightarrow>
         pbkdf2_hmac_sha256 p (register_salt s) (srv_pbkdf2_iter s) 32 = pbkdf2_hmac_sha256 pass (register_salt s) (srv_pbkdf2_iter s) 32)"
proof (cases "registration_ok user pass")
  case False
  with register_invalid [of s i req rid] assms show ?thesis by simp
next
  case True
  let ?h = "make_password_hash (register_salt s) pass (srv_pbkdf2_iter s)"
  let ?C = "create_user (srv_clock s (srv_ticks s)) user ?h (srv_repos s)"
  note run = register_run [OF True [unfolded user_def pass_def], of i rid s, folded user_def pass_def]
  from assms(1) have inv: "repos_inv (srv_repos s)" "ids_used (srv_repos s) \<le> n"
    by (simp_all add: server_inv_def inv_but_rooms_def store_inv_def)
  show ?thesis
  proof (cases "map_of (username_idx (srv_repos s)) user")
    case (Some k)
    then have taken: "find_user_by_username user (srv_repos s) \<noteq> Inr None" using username_taken_iff [OF inv(1), of user] by auto
    have "?C = (None, srv_repos s)" using Some by (simp add: create_user_def)
    then have "handle_register i req rid s = send_error i rid kConflict ''username already taken''
        (s\<lparr>srv_drawn := srv_drawn s + 16, srv_ticks := Suc (srv_ticks s), srv_repos := srv_repos s\<rparr>)" by (simp add: run)
    moreover have "refused i rid kConflict s (send_error i rid kConflict ''username already taken''
        (s\<lparr>srv_drawn := srv_drawn s + 16, srv_ticks := Suc (srv_ticks s), srv_repos := srv_repos s\<rparr>))"
      by (rule refusedI) (use assms(3) in \<open>simp_all add: tail_ranges_def\<close>)
    ultimately show ?thesis using True taken by simp
  next
    case None
    let ?u = "\<lparr>u_id = next_user_id (srv_repos s), u_username = user, u_password_hash = ?h,
      u_created_at_ms = srv_clock s (srv_ticks s), u_last_seen_ms = 0\<rparr>"
    have C: "?C = (Some (u_id ?u), snd ?C)" using None by (simp add: create_user_def Let_def)
    have free: "find_user_by_username user (srv_repos s) = Inr None" using None by (simp add: find_user_by_username_def)
    have found: "find_user_by_username user (snd ?C) = Inr (Some ?u)" "u_id ?u \<noteq> 0" "find_user_by_id (u_id ?u) (srv_repos s) = None"
      using created_user [OF inv(1) None] by simp_all
    have "serving n i c s" using assms(1,3) by (auto simp: serving_def intro!: exI [of _ "[]"])
    from runsD [OF register_answers [OF assms(4,2)] this, of rid] obtain s'
      where s': "handle_register i req rid s = (Inr (), s')" "server_inv (Suc n) s'" by (auto simp: answered_def)
    have "srv_repos s' = snd ?C"
      using s'(1) keepsD [OF keeps_repos_ack] unfolding run by (subst (asm) C) (auto simp: Let_def)
    with s' found free True verify_made [of "register_salt s" _ pass "srv_pbkdf2_iter s"] show ?thesis
      by (auto simp: register_salt_def intro!: exI [of _ ?u])
  qed
qed

theorem register_correct_witness:
  "\<exists>s' u. handle_register 1 (JObject [(''password'', JString ''secret''), (''username'', JString ''ann'')]) (Some 1) (one_client 0) = (Inr (), s') \<and>
     find_user_by_username ''ann'' (srv_repos s') = Inr (Some u) \<and> verify_password_hash ''secret'' (u_password_hash u)"
proof -
  define req where "req = JObject [(''password'', JString ''secret''), (''username'', JString ''ann'')]"
  have ok: "json_ok req" unfolding req_def by code_simp
  have fields: "get_str req ''username'' [] = ''ann''" "get_str req ''password'' [] = ''secret''"
    by (simp_all add: get_str_def req_def)
  have new: "find_user_by_username ''ann'' (srv_repos (one_client 0)) = Inr None"
    by (simp add: one_client_def ChatServer_init_def Repositories_init_def find_user_by_username_def)
  have "registration_ok ''ann'' ''secret''" by (simp add: registration_ok_def)
  with register_correct [OF one_client_inv [of 0] _ one_client_conns(1) [of 0] ok, of "Some 1"] new
  have "\<exists>s' u. handle_register 1 req (Some 1) (one_client 0) = (Inr (), s') \<and>
      find_user_by_username ''ann'' (srv_repos s') = Inr (Some u) \<and> verify_password_hash ''secret'' (u_password_hash u)"
    by (fastforce simp: fields)
  then show ?thesis unfolding req_def .
qed

text \<open>
  C12. Login: with the name of an account and a password that its record accepts, the
  connection becomes that user's, it is bound to the user in presence, and the token of the reply
  is a session of the user that expires after the time to live; with an unknown name
  or a wrong password the answer is \<open>unauthorized\<close> and nothing changes.
\<close>

theorem login_correct:
  assumes "server_inv n s" and "map_of (srv_conns s) i = Some c"
    and "find_user_by_username (get_str req ''username'' []) (srv_repos s) = Inr x"
  shows "case x of
      None \<Rightarrow> refused i rid kUnauthorized s (handle_login i req rid s)
    | Some u \<Rightarrow>
        if \<not> verify_password_hash (get_str req ''password'' []) (u_password_hash u)
        then refused i rid kUnauthorized s (handle_login i req rid s)
        else \<exists>s'. handle_login i req rid s = (Inr (), s') \<and> owner i s' = Some (u_id u, next_token s) \<and>
          i \<in> set (connections_of (u_id u) (srv_presence s')) \<and>
          map_of (session_cache (srv_sessions s')) (next_token s) =
            Some \<lparr>si_user_id = u_id u, si_expires_at_ms = srv_clock s (srv_ticks s) + ttl_seconds (srv_sessions s) * 1000\<rparr>"
proof -
  have "serving n i c s" using assms(1,2) by (auto simp: serving_def intro!: exI [of _ "[]"])
  from runsD [OF login_answers this, of req rid] obtain s' where s': "handle_login i req rid s = (Inr (), s')" by auto
  show ?thesis
  proof (cases x)
    case None
    with login_rejected [of s i req x rid] assms(2,3) show ?thesis by simp
  next
    case (Some u)
    show ?thesis
    proof (cases "verify_password_hash (get_str req ''password'' []) (u_password_hash u)")
      case True
      with login_accepted [OF assms(2), of req u rid] assms(3) Some s' show ?thesis
        by (simp add: identities_def with_session_def map_of_update_iff)
    next
      case False
      with login_rejected [of s i req x rid] assms(2,3) Some show ?thesis by simp
    qed
  qed
qed

theorem login_correct_witness:
  "refused 1 (Some 2) kUnauthorized (one_client 0) (handle_login 1 (JObject []) (Some 2) (one_client 0))"
proof -
  have "find_user_by_username (get_str (JObject []) ''username'' []) (srv_repos (one_client 0)) = Inr None"
    by (simp add: one_client_def ChatServer_init_def Repositories_init_def find_user_by_username_def)
  from login_correct [OF one_client_inv one_client_conns(1) this] show ?thesis by simp
qed

text \<open>
  C39. A second login on a connection does not undo the first: when the connection was bound
  to another user, it stays bound to that user in presence although its messages are now
  those of the new one. Direct messages to the first user are then sent to a connection that
  the second user owns, and the first user stays online after the connection is closed.
\<close>

theorem relogin_keeps_old_binding:
  fixes rid :: "i64 option"
  assumes "map_of (srv_conns s) i = Some c" and "find_user_by_username (get_str req ''username'' []) (srv_repos s) = Inr (Some v)"
    and "verify_password_hash (get_str req ''password'' []) (u_password_hash v)"
    and "i \<in> set (connections_of u (srv_presence s))" and "u \<noteq> u_id v"
  defines "s' \<equiv> snd (handle_login i req rid s)"
  shows "map_option fst (owner i s') = Some (u_id v) \<and> i \<in> set (connections_of u (srv_presence s')) \<and>
    i \<in> set (connections_of u (snd (Presence_unbind (u_id v) i (srv_presence s'))))"
  using login_accepted [OF assms(1-3), of rid] assms(4,5) by (simp add: s'_def identities_def)

theorem relogin_keeps_old_binding_witness:
  "let v = \<lparr>u_id = 1, u_username = ''bob'', u_password_hash = make_password_hash (replicate 16 7) ''pass'' 1, u_created_at_ms = 0,
       u_last_seen_ms = 0\<rparr>;
     s = (one_client 3)\<lparr>srv_presence := [(3, [1])], srv_repos := snd (create_user 0 ''bob'' (u_password_hash v) Repositories_init)\<rparr>;
     s' = snd (handle_login 1 (JObject [(''password'', JString ''pass''), (''username'', JString ''bob'')]) None s)
   in map_option fst (owner 1 s') = Some 1 \<and> 1 \<in> set (connections_of 3 (srv_presence s'))"
proof -
  let ?v = "\<lparr>u_id = 1, u_username = ''bob'', u_password_hash = make_password_hash (replicate 16 7) ''pass'' 1, u_created_at_ms = 0,
    u_last_seen_ms = 0\<rparr>"
  let ?s = "(one_client 3)\<lparr>srv_presence := [(3, [1])], srv_repos := snd (create_user 0 ''bob'' (u_password_hash ?v) Repositories_init)\<rparr>"
  let ?req = "JObject [(''password'', JString ''pass''), (''username'', JString ''bob'')]"
  have "find_user_by_username (get_str ?req ''username'' []) (srv_repos ?s) = Inr (Some ?v)"
    by (simp add: get_str_def create_user_def Repositories_init_def find_user_by_username_def at_key_def Let_def)
  moreover have "verify_password_hash (get_str ?req ''password'' []) (u_password_hash ?v)"
    by (simp add: get_str_def verify_made)
  moreover have "map_of (srv_conns ?s) 1 = Some (client_of 3)" "1 \<in> set (connections_of 3 (srv_presence ?s))"
    by (simp_all add: connections_of_def)
  ultimately show ?thesis
    using relogin_keeps_old_binding [of ?s 1 "client_of 3" ?req ?v 3 None] by (simp add: Let_def)
qed

text \<open>
  C13. Logout: the token of the connection is revoked, so that it authenticates nobody any
  more, the connection is no longer bound to its user, and it has no user or token.
\<close>

theorem logout_correct:
  assumes "server_inv n s" and "map_of (srv_conns s) i = Some c"
  shows "\<exists>s'. handle_logout i req rid s = (Inr (), s') \<and> owner i s' = Some (0, []) \<and>
    (cn_user_id c \<noteq> 0 \<longrightarrow> i \<notin> set (connections_of (cn_user_id c) (srv_presence s'))) \<and>
    (cn_token c \<noteq> [] \<longrightarrow> fst (sessions_validate (cn_token c) s') = Inr None)"
proof -
  have "serving n i c s" using assms by (auto simp: serving_def intro!: exI [of _ "[]"])
  from runsD [OF logout_answers this, of req rid] obtain s' where s': "handle_logout i req rid s = (Inr (), s')" by auto
  from logout_identities [OF assms(2) s'] s' show ?thesis
    by (auto simp: identities_def sessions_validate_def revoke_def map_of_delete_iff)
qed

theorem logout_correct_witness:
  "\<exists>s'. handle_logout 1 (JObject []) None (one_client 3) = (Inr (), s') \<and> owner 1 s' = Some (0, []) \<and>
     1 \<notin> set (connections_of 3 (srv_presence s'))"
  using logout_correct [OF one_client_inv one_client_conns(1), of "JObject []" None 3] by auto

end
