(* ===== verification/Delivery.thy ===== *)
theory Delivery
  imports Accounts
begin

text \<open>
  Where messages go: the exact effect of \<open>send_dm\<close>, of \<open>send_room\<close> and of the replay of queued
  messages on the store and on the output of every connection.
\<close>

section \<open>Output of connections\<close>

definition push :: "string list \<Rightarrow> Connection \<Rightarrow> Connection" where
  "push ps c = foldl (\<lambda>c p. fst (send_frame p c)) c ps"

lemma push_simps [simp]: "push [] c = c" "push (ps @ qs) c = push qs (push ps c)" "push (p # ps) c = push ps (fst (send_frame p c))"
  by (simp_all add: push_def)

lemma push_grown: "grown c ps (push ps c)"
proof (induction ps rule: rev_induct)
  case (snoc p ps)
  then show ?case using grown_send by (simp add: grown_send)
qed simp

text \<open>From \<open>s\<close> to \<open>s'\<close> each connection \<open>j\<close> was sent \<open>D j\<close>.\<close>

definition outputs :: "(conn_id \<Rightarrow> string list) \<Rightarrow> server \<Rightarrow> server \<Rightarrow> bool" where
  "outputs D s s' \<longleftrightarrow> (\<forall>j. map_of (srv_conns s') j = map_option (push (D j)) (map_of (srv_conns s) j))"

text \<open>The same, where nothing else changed but the closures that were posted.\<close>

definition only_outputs :: "(conn_id \<Rightarrow> string list) \<Rightarrow> server \<Rightarrow> server \<Rightarrow> bool" where
  "only_outputs D s s' \<longleftrightarrow> outputs D s s' \<and> (\<exists>cs ps. s' = s\<lparr>srv_conns := cs, srv_posts := ps\<rparr>)"

lemma push_nil: "push [] = (\<lambda>c. c)" and push_append: "push (ps @ qs) = push qs \<circ> push ps"
  by (simp_all add: fun_eq_iff)

lemma only_outputs_refl: "only_outputs (\<lambda>_. []) s s"
  by (auto simp: only_outputs_def outputs_def push_nil option.map_ident intro!: exI [of _ "srv_conns s"] exI [of _ "srv_posts s"])

lemma outputs_trans:
  "outputs D s s' \<Longrightarrow> outputs E s' s'' \<Longrightarrow> outputs (\<lambda>j. D j @ E j) s s''"
  by (simp add: outputs_def option.map_comp push_append)

lemma only_outputs_trans:
  assumes "only_outputs D s s'" and "only_outputs E s' s''"
  shows "only_outputs (\<lambda>j. D j @ E j) s s''"
proof -
  have "outputs (\<lambda>j. D j @ E j) s s''" using assms by (auto simp: only_outputs_def intro: outputs_trans)
  moreover have "\<exists>cs ps. s'' = s\<lparr>srv_conns := cs, srv_posts := ps\<rparr>" using assms unfolding only_outputs_def by force
  ultimately show ?thesis by (simp add: only_outputs_def)
qed

lemma only_outputs_fields:
  assumes "only_outputs D s s'"
  shows "srv_repos s' = srv_repos s" "srv_presence s' = srv_presence s" "srv_sessions s' = srv_sessions s" "srv_rooms s' = srv_rooms s"
    "srv_to_chars s' = srv_to_chars s" "outputs D s s'"
  using assms by (auto simp: only_outputs_def)

lemma send_one_run: "\<exists>s'. conn_call i (send_frame p) s = (Inr (), s') \<and> only_outputs (\<lambda>j. if j = i then [p] else []) s s'"
proof (cases "map_of (srv_conns s) i")
  case None
  then have "only_outputs (\<lambda>j. if j = i then [p] else []) s s"
    by (auto simp: only_outputs_def outputs_def push_nil option.map_ident intro!: exI [of _ "srv_conns s"] exI [of _ "srv_posts s"])
  with None show ?thesis by (simp add: conn_call_def)
next
  case (Some c)
  then show ?thesis
    by (auto simp: conn_call_def split_beta Let_def only_outputs_def outputs_def map_of_update_iff push_nil option.map_ident)
qed

lemma send_each_run:
  assumes "distinct js"
  shows "\<exists>s'. send_each js p s = (Inr (), s') \<and> only_outputs (\<lambda>j. if j \<in> set js then [p] else []) s s'"
  using assms
proof (induction js arbitrary: s)
  case Nil
  then show ?case by (simp add: ret_def only_outputs_refl)
next
  case (Cons i js)
  obtain s1 where s1: "conn_call i (send_frame p) s = (Inr (), s1)" "only_outputs (\<lambda>j. if j = i then [p] else []) s s1"
    using send_one_run by blast
  obtain s2 where s2: "send_each js p s1 = (Inr (), s2)" "only_outputs (\<lambda>j. if j \<in> set js then [p] else []) s1 s2"
    using Cons by auto
  have "(\<lambda>j. (if j = i then [p] else []) @ (if j \<in> set js then [p] else [])) = (\<lambda>j. if j \<in> set (i # js) then [p] else [])"
    using Cons.prems by (auto simp: fun_eq_iff)
  with only_outputs_trans [OF s1(2) s2(2)] s1(1) s2(1) show ?case by (simp add: seq_def)
qed

section \<open>Direct messages\<close>

text \<open>The text of the event for a message.\<close>

definition event_text :: "Message \<Rightarrow> string \<Rightarrow> bool" where
  "event_text m p \<longleftrightarrow> parse p = Some (json_norm
     (make_event_message (m_id m) (m_sender_id m) (m_receiver_id m) (m_room_id m) (m_content m) (m_created_at_ms m)))"

lemma dump_event:
  assumes "utf8 (m_content m)"
  shows "\<exists>p. dump_json (make_event_message (m_id m) (m_sender_id m) (m_receiver_id m) (m_room_id m) (m_content m) (m_created_at_ms m)) s
      = (Inr p, s) \<and> event_text m p"
proof -
  let ?e = "make_event_message (m_id m) (m_sender_id m) (m_receiver_id m) (m_room_id m) (m_content m) (m_created_at_ms m)"
  obtain p where "serialize (srv_to_chars s) ?e = Some p" "parse p = Some (json_norm ?e)"
    using serialize_printable [OF printable_event [OF assms]] by blast
  then show ?thesis by (simp add: dump_json_def event_text_def)
qed

definition dm_message :: "user_id \<Rightarrow> user_id \<Rightarrow> string \<Rightarrow> server \<Rightarrow> Message" where
  "dm_message a b content s = \<lparr>m_id = next_msg_id (srv_repos s), m_sender_id = a, m_receiver_id = Some b, m_room_id = None,
     m_content = content, m_status = 0, m_created_at_ms = srv_clock s (srv_ticks s)\<rparr>"

lemma send_dm_run:
  fixes a b :: user_id
  assumes "presence_inv (srv_presence s)" and "utf8 content"
  defines "m \<equiv> dm_message a b content s" and "dst \<equiv> connections_of b (srv_presence s)" and "own \<equiv> connections_of a (srv_presence s)"
  shows "\<exists>p s'. send_dm a b content s = (Inr (m_id m), s') \<and> event_text m p \<and>
    outputs (\<lambda>j. (if j \<in> set dst then [p] else []) @ (if j \<in> set own then [p] else [])) s s' \<and>
    srv_presence s' = srv_presence s \<and>
    srv_repos s' =
      (let r = snd (insert_dm a b content (m_created_at_ms m) (srv_repos s))
       in if dst = [] then enqueue_undelivered (m_id m) b r else update_message_status (m_id m) 1 r)"
proof -
  let ?r = "snd (insert_dm a b content (m_created_at_ms m) (srv_repos s))"
  define s1 where "s1 = s\<lparr>srv_ticks := Suc (srv_ticks s), srv_repos := ?r\<rparr>"
  obtain p where p: "dump_json (make_event_message (m_id m) (m_sender_id m) (m_receiver_id m) (m_room_id m) (m_content m) (m_created_at_ms m)) s1
      = (Inr p, s1)" "event_text m p" using dump_event [of m s1] assms(2) by (auto simp: m_def dm_message_def)
  have d: "distinct dst" "distinct own" unfolding dst_def own_def by (rule distinct_connections [OF assms(1)])+
  define r' where "r' = (if dst = [] then enqueue_undelivered (m_id m) b ?r else update_message_status (m_id m) 1 ?r)"
  define first where "first = (if dst = [] then repos_do (enqueue_undelivered (m_id m) b)
      else seq (send_each dst p) (\<lambda>_. repos_do (update_message_status (m_id m) 1)))"
  obtain s2 where s2: "first s1 = (Inr (), s2)" "outputs (\<lambda>j. if j \<in> set dst then [p] else []) s1 s2"
      "srv_presence s2 = srv_presence s1" "srv_repos s2 = r'"
  proof (cases "dst = []")
    case True
    with that only_outputs_fields(6) [OF only_outputs_refl, of s1] show ?thesis
      by (simp add: first_def repos_do_def outputs_def r'_def s1_def)
  next
    case False
    obtain s2 where s2: "send_each dst p s1 = (Inr (), s2)" "only_outputs (\<lambda>j. if j \<in> set dst then [p] else []) s1 s2"
      using send_each_run [OF d(1)] by blast
    from only_outputs_fields [OF s2(2)] have "srv_repos s2 = ?r" by (simp add: s1_def)
    with False that [of "s2\<lparr>srv_repos := r'\<rparr>"] s2(1) only_outputs_fields [OF s2(2)] show ?thesis
      by (simp add: first_def seq_def repos_do_def outputs_def r'_def)
  qed
  obtain s3 where s3: "send_each own p s2 = (Inr (), s3)" "only_outputs (\<lambda>j. if j \<in> set own then [p] else []) s2 s3"
    using send_each_run [OF d(2)] by blast
  have "send_dm a b content s = seq first (\<lambda>_. seq (get (\<lambda>s. connections_of a (srv_presence s))) (\<lambda>own. seq (send_each own p) (\<lambda>_. ret (m_id m)))) s1"
    using p(1)
    by (simp add: send_dm_def seq_def [of now_unix_ms] now_unix_ms_def seq_def [of "repos_call _"] repos_call_def insert_dm_def Let_def
        s1_def m_def dm_message_def seq_def [of "dump_json _"] seq_def [of "get _"] get_def first_def dst_def)
  also have "\<dots> = (Inr (m_id m), s3)"
    using s2(1,3) s3(1) by (simp add: seq_def get_def ret_def own_def s1_def)
  finally have "send_dm a b content s = (Inr (m_id m), s3)" .
  moreover have "outputs (\<lambda>j. (if j \<in> set dst then [p] else []) @ (if j \<in> set own then [p] else [])) s s3"
    using outputs_trans [OF s2(2) only_outputs_fields(6) [OF s3(2)]] by (simp add: outputs_def s1_def)
  ultimately show ?thesis
    using p(2) only_outputs_fields [OF s3(2)] s2(3,4) by (auto simp: Let_def r'_def s1_def)
qed

section \<open>Room messages\<close>

definition offline_others :: "Presence \<Rightarrow> user_id \<Rightarrow> user_id list \<Rightarrow> user_id list" where
  "offline_others pr a us = filter (\<lambda>u. connections_of u pr = [] \<and> u \<noteq> a) us"

definition copies :: "Presence \<Rightarrow> user_id list \<Rightarrow> string \<Rightarrow> conn_id \<Rightarrow> string list" where
  "copies pr us p j = map (\<lambda>_. p) (filter (\<lambda>u. j \<in> set (connections_of u pr)) us)"

lemma fan_out_run:
  assumes "presence_inv (srv_presence s)"
  shows "\<exists>s'. fan_out us a k p s = (Inr (), s') \<and> outputs (copies (srv_presence s) us p) s s' \<and> srv_presence s' = srv_presence s \<and>
    srv_repos s' = fold (enqueue_undelivered k) (offline_others (srv_presence s) a us) (srv_repos s)"
  using assms
proof (induction us arbitrary: s)
  case Nil
  then show ?case
    using only_outputs_fields(6) [OF only_outputs_refl, of s] by (simp add: ret_def copies_def offline_others_def)
next
  case (Cons u us)
  let ?js = "connections_of u (srv_presence s)"
  define one where "one = (if ?js = [] then if u \<noteq> a then repos_do (enqueue_undelivered k u) else ret () else send_each ?js p)"
  obtain s1 where s1: "one s = (Inr (), s1)" "outputs (\<lambda>j. if j \<in> set ?js then [p] else []) s s1" "srv_presence s1 = srv_presence s"
    "srv_repos s1 = (if ?js = [] \<and> u \<noteq> a then enqueue_undelivered k u (srv_repos s) else srv_repos s)"
  proof (cases "?js = []")
    case True
    let ?s1 = "if u = a then s else s\<lparr>srv_repos := enqueue_undelivered k u (srv_repos s)\<rparr>"
    have "one s = (Inr (), ?s1)" using True by (simp add: one_def repos_do_def ret_def)
    then show ?thesis by (rule that) (use True in \<open>simp_all add: outputs_def push_nil option.map_ident\<close>)
  next
    case False
    obtain s1 where s1: "send_each ?js p s = (Inr (), s1)" "only_outputs (\<lambda>j. if j \<in> set ?js then [p] else []) s s1"
      using send_each_run [OF distinct_connections [OF Cons.prems]] by blast
    have "one s = (Inr (), s1)" using False s1(1) by (simp add: one_def)
    then show ?thesis
      by (rule that [OF _ only_outputs_fields(6) [OF s1(2)]]) (use False only_outputs_fields(1,2) [OF s1(2)] in simp_all)
  qed
  then obtain s2 where s2: "fan_out us a k p s1 = (Inr (), s2)" "outputs (copies (srv_presence s) us p) s1 s2"
    "srv_presence s2 = srv_presence s" "srv_repos s2 = fold (enqueue_undelivered k) (offline_others (srv_presence s) a us) (srv_repos s1)"
    using Cons.IH [of s1] Cons.prems by auto
  have "(\<lambda>j. (if j \<in> set ?js then [p] else []) @ copies (srv_presence s) us p j) = copies (srv_presence s) (u # us) p"
    by (simp add: fun_eq_iff copies_def)
  with outputs_trans [OF s1(2) s2(2)] have "outputs (copies (srv_presence s) (u # us) p) s s2" by simp
  moreover have "fan_out (u # us) a k p s = (Inr (), s2)"
    using s1(1) s2(1) by (simp add: seq_def get_def one_def)
  ultimately show ?case using s1(4) s2(3,4) by (auto simp: offline_others_def)
qed

definition room_message :: "user_id \<Rightarrow> room_id \<Rightarrow> string \<Rightarrow> server \<Rightarrow> Message" where
  "room_message a rm content s = \<lparr>m_id = next_msg_id (srv_repos s), m_sender_id = a, m_receiver_id = None, m_room_id = Some rm,
     m_content = content, m_status = 0, m_created_at_ms = srv_clock s (srv_ticks s)\<rparr>"

lemma send_room_run:
  fixes a :: user_id
  assumes "presence_inv (srv_presence s)" and "coherent (members_in (srv_repos s)) (srv_rooms s)" and "utf8 content"
    and "is_member rm a (srv_repos s)"
  defines "m \<equiv> room_message a rm content s" and "pr \<equiv> srv_presence s"
  shows "\<exists>p s' us. send_room a rm content s = (Inr (m_id m), s') \<and> event_text m p \<and>
    distinct us \<and> set us = set (list_room_members rm (srv_repos s)) \<and> outputs (copies pr us p) s s' \<and> srv_presence s' = pr \<and>
    srv_repos s' = fold (enqueue_undelivered (m_id m)) (offline_others pr a us)
      (snd (insert_room_msg a rm content (m_created_at_ms m) (srv_repos s)))"
proof -
  let ?r = "snd (insert_room_msg a rm content (m_created_at_ms m) (srv_repos s))"
  note M = manager_is_member_correct [OF assms(2), of rm a]
  define g where "g = snd (manager_is_member (members_in (srv_repos s)) rm a (srv_rooms s))"
  define s1 where "s1 = s\<lparr>srv_rooms := g, srv_ticks := Suc (srv_ticks s), srv_repos := ?r\<rparr>"
  have members: "members_in ?r = members_in (srv_repos s)" by (simp add: insert_room_msg_def Let_def list_room_members_def fun_eq_iff)
  have coh: "coherent (members_in ?r) g" using M(2) by (simp add: g_def members)
  obtain p where p: "dump_json (make_event_message (m_id m) (m_sender_id m) (m_receiver_id m) (m_room_id m) (m_content m) (m_created_at_ms m)) s1
      = (Inr p, s1)" "event_text m p" using dump_event [of m s1] assms(3) by (auto simp: m_def room_message_def)
  define us where "us = fst (members_of (members_in ?r) rm g)"
  define s2 where "s2 = s1\<lparr>srv_rooms := snd (members_of (members_in ?r) rm g)\<rparr>"
  have us: "distinct us" "set us = set (list_room_members rm (srv_repos s))"
    using members_of_correct [OF coh, of rm] fun_cong [OF members, of rm] by (simp_all add: us_def)
  obtain s3 where s3: "fan_out us a (m_id m) p s2 = (Inr (), s3)" "outputs (copies (srv_presence s2) us p) s2 s3"
    "srv_presence s3 = srv_presence s2"
    "srv_repos s3 = fold (enqueue_undelivered (m_id m)) (offline_others (srv_presence s2) a us) (srv_repos s2)"
    using fan_out_run [of s2 us a "m_id m" p] assms(1) by (auto simp: s2_def s1_def)
  have "rooms_is_member rm a s = (Inr True, s\<lparr>srv_rooms := g\<rparr>)"
    using M(1) assms(4) by (simp add: rooms_is_member_def rooms_call_def split_beta is_member_slot g_def)
  then have "send_room a rm content s = seq (rooms_members_of rm) (\<lambda>us. seq (fan_out us a (m_id m) p) (\<lambda>_. ret (m_id m))) s1"
    using p(1)
    by (simp add: send_room_def seq_def [of "rooms_is_member _ _"] seq_def [of now_unix_ms] now_unix_ms_def seq_def [of "repos_call _"]
        repos_call_def insert_room_msg_def Let_def s1_def m_def room_message_def seq_def [of "dump_json _"])
  also have "\<dots> = (Inr (m_id m), s3)"
    using s3(1) by (simp add: seq_def rooms_members_of_def rooms_call_def split_beta us_def s2_def ret_def s1_def)
  finally have "send_room a rm content s = (Inr (m_id m), s3)" .
  then show ?thesis
    using p(2) us s3(2-4) by (intro exI [of _ p] exI [of _ s3] exI [of _ us]) (simp add: s2_def s1_def pr_def outputs_def)
qed

section \<open>Replay\<close>

lemma replay_each_run:
  assumes "\<forall>m\<in>set ms. utf8 (m_content m)" and "distinct js"
  shows "\<exists>ps s'. replay_each ms js s = (Inr (), s') \<and> list_all2 event_text ms ps \<and> only_outputs (\<lambda>j. if j \<in> set js then ps else []) s s'"
  using assms(1)
proof (induction ms arbitrary: s)
  case Nil
  then show ?case using only_outputs_refl [of s] by (auto simp: ret_def intro!: exI [of _ "[]"])
next
  case (Cons m ms)
  obtain p where p: "dump_json (make_event_message (m_id m) (m_sender_id m) (m_receiver_id m) (m_room_id m) (m_content m) (m_created_at_ms m)) s
      = (Inr p, s)" "event_text m p" using dump_event [of m s] Cons.prems by auto
  obtain s1 where s1: "send_each js p s = (Inr (), s1)" "only_outputs (\<lambda>j. if j \<in> set js then [p] else []) s s1"
    using send_each_run [OF assms(2)] by blast
  obtain ps s2 where s2: "replay_each ms js s1 = (Inr (), s2)" "list_all2 event_text ms ps"
    "only_outputs (\<lambda>j. if j \<in> set js then ps else []) s1 s2" using Cons.IH [of s1] Cons.prems by auto
  have "(\<lambda>j. (if j \<in> set js then [p] else []) @ (if j \<in> set js then ps else [])) = (\<lambda>j. if j \<in> set js then p # ps else [])"
    by auto
  with only_outputs_trans [OF s1(2) s2(3)] p s1(1) s2(1,2) show ?case
    by (auto simp: seq_def intro!: exI [of _ "p # ps"])
qed

lemma bind_replays:
  assumes "store_inv n (srv_repos s)" and "\<not> is_online u (srv_presence s)"
  shows "\<exists>ps s'. presence_bind u i s = (Inr True, s') \<and> list_all2 event_text (fst (drain_undelivered u (srv_repos s))) ps \<and>
    outputs (\<lambda>j. if j = i then ps else []) s s' \<and> srv_repos s' = snd (drain_undelivered u (srv_repos s)) \<and>
    connections_of u (srv_presence s') = [i]"
proof -
  have off: "connections_of u (srv_presence s) = []" using assms(2) by (simp add: is_online_def connections_of_def)
  let ?p = "snd (Presence_bind u i (srv_presence s))" and ?ms = "fst (drain_undelivered u (srv_repos s))"
  define s1 where "s1 = s\<lparr>srv_presence := ?p, srv_repos := snd (drain_undelivered u (srv_repos s))\<rparr>"
  have b: "fst (Presence_bind u i (srv_presence s))" "connections_of u ?p = [i]"
    using off by (simp_all add: Presence_bind_def slot_connections Let_def, simp add: connections_of_def map_of_update_iff)
  have utf: "\<forall>m\<in>set ?ms. utf8 (m_content m)" using drained_utf8 [OF assms(1)] by blast
  obtain ps s2 where s2: "replay_each ?ms [i] s1 = (Inr (), s2)" "list_all2 event_text ?ms ps"
    "only_outputs (\<lambda>j. if j \<in> set [i] then ps else []) s1 s2" using replay_each_run [OF utf, of "[i]" s1] by auto
  have "replay_offline u (s\<lparr>srv_presence := ?p\<rparr>) = (if ?ms = [] then ret () else replay_each ?ms [i]) s1"
    using b(2) by (simp add: replay_offline_def seq_def repos_call_def split_beta get_def s1_def)
  also have "\<dots> = (Inr (), s2)" using s2(1) by (cases ?ms) simp_all
  finally have "presence_bind u i s = (Inr True, s2)"
    using b(1) by (simp add: presence_bind_def seq_def split_beta transition_handler_def ret_def)
  with s2(2) only_outputs_fields [OF s2(3)] b(2) show ?thesis
    by (intro exI [of _ ps] exI [of _ s2]) (simp add: s1_def outputs_def)
qed

section \<open>The store after a message\<close>

lemma server_parts:
  assumes "server_inv n s"
  shows "store_inv n (srv_repos s)" "repos_inv (srv_repos s)" "presence_inv (srv_presence s)"
    "coherent (members_in (srv_repos s)) (srv_rooms s)"
  using assms by (simp_all add: server_inv_def inv_but_rooms_def store_inv_def)

lemma new_id: "repos_inv r \<Longrightarrow> next_msg_id r \<notin> m_id ` set (messages r)"
  by (auto simp: repos_inv_def)

lemma set_status_last:
  "m_id m \<notin> m_id ` set ms \<Longrightarrow> set_status (m_id m) v (ms @ [m]) = ms @ [m\<lparr>m_status := v\<rparr>]"
  by (induction ms) auto

lemma find_last: "m_id m \<notin> m_id ` set ms \<Longrightarrow> find (\<lambda>x. m_id x = m_id m) (ms @ [m]) = Some m"
  by (induction ms) auto

lemma queued_append: "queued_messages (q @ q') ms = queued_messages q ms @ queued_messages q' ms"
  by (induction q ms rule: queued_messages.induct) (auto split: option.split)

lemma slot_enqueue_each:
  "distinct us \<Longrightarrow> slot (undelivered (fold (enqueue_undelivered k) us r)) u = slot (undelivered r) u @ (if u \<in> set us then [k] else [])"
  by (induction us arbitrary: r) auto

lemma enqueue_each_messages: "messages (fold (enqueue_undelivered k) us r) = messages r"
  by (induction us arbitrary: r) simp_all

lemma send_dm_effect:
  fixes a b :: user_id
  assumes "server_inv n s" and "utf8 content"
  defines "m \<equiv> dm_message a b content s" and "dst \<equiv> connections_of b (srv_presence s)" and "own \<equiv> connections_of a (srv_presence s)"
  shows "\<exists>p s'. send_dm a b content s = (Inr (m_id m), s') \<and> event_text m p \<and>
    outputs (\<lambda>j. (if j \<in> set dst then [p] else []) @ (if j \<in> set own then [p] else [])) s s' \<and>
    messages (srv_repos s') = messages (srv_repos s) @ [m\<lparr>m_status := if dst = [] then 0 else 1\<rparr>] \<and>
    (\<forall>u. slot (undelivered (srv_repos s')) u = slot (undelivered (srv_repos s)) u @ (if u = b \<and> dst = [] then [m_id m] else []))"
proof -
  note P = server_parts [OF assms(1)]
  obtain p s' where s': "send_dm a b content s = (Inr (m_id m), s')" "event_text m p"
    "outputs (\<lambda>j. (if j \<in> set dst then [p] else []) @ (if j \<in> set own then [p] else [])) s s'"
    "srv_repos s' = (let r = snd (insert_dm a b content (m_created_at_ms m) (srv_repos s))
       in if dst = [] then enqueue_undelivered (m_id m) b r else update_message_status (m_id m) 1 r)"
    using send_dm_run [OF P(3) assms(2), of a b, folded m_def dst_def own_def] by blast
  have r: "snd (insert_dm a b content (m_created_at_ms m) (srv_repos s)) =
      (srv_repos s)\<lparr>next_msg_id := m_id m + 1, messages := messages (srv_repos s) @ [m]\<rparr>"
    by (simp add: insert_dm_def Let_def m_def dm_message_def)
  have id: "m_id m \<notin> m_id ` set (messages (srv_repos s))" using new_id [OF P(2)] by (simp add: m_def dm_message_def)
  have st: "m\<lparr>m_status := 0\<rparr> = m" by (simp add: m_def dm_message_def)
  show ?thesis
    using s' set_status_last [OF id, of 1]
    by (intro exI [of _ p] exI [of _ s'])
      (simp add: r Let_def update_message_status_def st)
qed

section \<open>Properties\<close>







end
