(* ===== verification/Handler_Frame.thy ===== *)
theory Handler_Frame
  imports Delivery
begin

text \<open>
  What requests leave alone. The locale \<open>state_order\<close> takes a preorder on the states of the server that the
  calls on the parts respect, and shows once that presence, the router, every handler and the dispatcher
  respect it. It has two instances in \<open>Chat_Server\<close> and \<open>Event_Loop\<close>: the descriptors of connections stay as they are, and the
  queue of posted closures only grows at its end.
\<close>

definition advances :: "(server \<Rightarrow> server \<Rightarrow> bool) \<Rightarrow> 'a comp \<Rightarrow> bool" where
  "advances R m \<longleftrightarrow> (\<forall>s. R s (snd (m s)))"

lemma advancesD: "advances R m \<Longrightarrow> m s = (x, s') \<Longrightarrow> R s s'"
  unfolding advances_def by (metis snd_conv)

locale state_order =
  fixes R :: "server \<Rightarrow> server \<Rightarrow> bool"
  assumes same: "R s s"
    and chain: "R s s' \<Longrightarrow> R s' s'' \<Longrightarrow> R s s''"
    and parts: "R s (s\<lparr>srv_repos := r\<rparr>)" "R s (s\<lparr>srv_sessions := sm\<rparr>)" "R s (s\<lparr>srv_presence := p\<rparr>)" "R s (s\<lparr>srv_rooms := g\<rparr>)"
      "R s (s\<lparr>srv_ticks := k\<rparr>)" "R s (s\<lparr>srv_drawn := k\<rparr>)"
    and conn: "advances R (conn_call i (send_frame payload))" "advances R (conn_set i (set_user_id u))"
      "advances R (conn_set i (set_session_token tok))"
begin

lemma adv_seq: "advances R m \<Longrightarrow> (\<And>x. advances R (f x)) \<Longrightarrow> advances R (seq m f)"
  unfolding advances_def seq_def by (auto simp: split_beta split: sum.split intro: chain)

lemma adv_try: "advances R m \<Longrightarrow> (\<And>e. advances R (h e)) \<Longrightarrow> advances R (try_catch m h)"
  unfolding advances_def try_catch_def by (auto simp: split_beta split: sum.split intro: chain)

lemma adv_if: "advances R m \<Longrightarrow> advances R m' \<Longrightarrow> advances R (if b then m else m')"
  by simp

lemma adv_option: "advances R m \<Longrightarrow> (\<And>y. advances R (f y)) \<Longrightarrow> advances R (case x of None \<Rightarrow> m | Some y \<Rightarrow> f y)"
  by (cases x) auto

lemma adv_pure:
  "advances R (ret x)" "advances R (throw e)" "advances R (get f)" "advances R (repos_get f1)" "advances R (repos_try f2)"
  "advances R (conn_field f3 d i)" "advances R (dump_json j)" "advances R (req_i64 req key d')"
  by (simp_all add: advances_def ret_def throw_def get_def repos_get_def repos_try_def conn_field_def req_i64_def dump_json_def same
      split: option.split)

lemma two_parts: "R s (s\<lparr>srv_sessions := sm, srv_repos := r\<rparr>)"
  using chain [OF parts(2) parts(1)] .

lemma adv_parts:
  "advances R now_unix_ms" "advances R (random_bytes k)" "advances R (repos_do f1)" "advances R (repos_call f2)"
  "advances R (rooms_call f3)" "advances R (sessions_revoke tok)"
  by (simp_all add: advances_def now_unix_ms_def random_bytes_def repos_do_def repos_call_def rooms_call_def sessions_revoke_def
      parts two_parts split_beta Let_def)

lemmas adv_rules = adv_seq adv_if adv_option adv_pure adv_parts conn

lemma adv_sessions: "advances R (sessions_create u)" "advances R (sessions_validate tok)"
proof -
  have "advances R (\<lambda>s. let (tok, sm, r) = f s in (Inr tok, s\<lparr>srv_sessions := sm, srv_repos := r\<rparr>))"
    for f :: "server \<Rightarrow> string \<times> SessionManager \<times> Repositories"
    by (simp add: advances_def two_parts split_beta Let_def)
  then show "advances R (sessions_create u)"
    unfolding sessions_create_def by (intro adv_rules)
  have "advances R (seq now_unix_ms (\<lambda>now s. let (info, sm) = validate now tok (srv_sessions s) in (Inr info, s\<lparr>srv_sessions := sm\<rparr>)))"
    by (intro adv_rules) (simp add: advances_def parts split_beta Let_def)
  then show "advances R (sessions_validate tok)"
    by (simp add: advances_def sessions_validate_def same)
qed

lemma adv_each: "advances R (send_each js p)"
  by (induction js) (auto intro!: adv_rules)

lemma adv_replay: "advances R (replay_each ms js)"
  by (induction ms) (auto intro!: adv_rules adv_each)

lemma adv_fan: "advances R (fan_out us a k p)"
  by (induction us) (auto intro!: adv_rules adv_each)

lemma adv_presence: "advances R (presence_bind u i)" "advances R (presence_unbind u i)"
proof -
  have tr: "advances R (transition_handler u b)" for b
    unfolding transition_handler_def replay_offline_def by (intro adv_rules adv_replay)
  have upd: "advances R (\<lambda>s. let (tr, p) = f s in (Inr tr, s\<lparr>srv_presence := p\<rparr>))" for f :: "server \<Rightarrow> bool \<times> Presence"
    by (simp add: advances_def parts split_beta Let_def)
  show "advances R (presence_bind u i)" "advances R (presence_unbind u i)"
    unfolding presence_bind_def presence_unbind_def by (intro adv_rules tr upd)+
qed

lemma adv_router: "advances R (send_dm a b content)" "advances R (send_room a rm content)"
  unfolding send_dm_def send_room_def rooms_is_member_def rooms_members_of_def
  by (intro adv_rules adv_each adv_fan)+

lemma adv_send: "advances R (send i j)" "advances R (send_ack i rid v)"
  unfolding send_def send_ack_def by (intro adv_rules)+

lemma adv_auth: "advances R (require_auth i req rid)"
  unfolding require_auth_def Let_def by (intro adv_rules adv_send adv_presence adv_sessions)

lemma adv_handler: "h \<in> snd ` set table \<Longrightarrow> advances R (h i req rid)"
  unfolding table_def
  by (auto simp: handle_register_def handle_login_def handle_logout_def handle_send_dm_def handle_send_room_def
        handle_create_room_def handle_join_room_def handle_leave_room_def handle_list_rooms_def handle_history_dm_def
        handle_history_room_def handle_presence_def handle_ping_def Let_def rooms_is_member_def rooms_on_join_def rooms_on_leave_def
        intro!: adv_rules adv_send adv_auth adv_router adv_presence adv_sessions)

lemma adv_dispatch: "advances R (dispatch i payload)"
proof -
  have "advances R (h i req rid)" if "map_of table ty = Some h" for ty h req rid
    using map_of_SomeD [OF that] by (intro adv_handler) force
  then show ?thesis
    unfolding dispatch_def Let_def by (auto intro!: adv_send adv_try split: option.split)
qed

end

end
