(* ===== verification/Chat_Server.thy ===== *)
theory Chat_Server
  imports Handler_Frame
begin

text \<open>
  The running server: \<open>Server\<close> (\<open>src/src/net/server.cpp\<close>), the callbacks of \<open>ChatServer\<close>
  (\<open>src/src/chat/chat_server.cpp\<close>) and what the reactor and the worker threads do with them.

  The state joins the parts (\<open>cs_srv\<close>), the table of open connections of \<open>Server\<close>, the callbacks
  that are registered with the reactor and the queue of jobs of the thread pool. A step is an
  accepted connection, an event on a descriptor, one posted closure or one job. Several workers run jobs at the same time: a job is one step, and any
  job of the queue may be the next.
\<close>

section \<open>The code\<close>

record chat_server =
  cs_srv :: server
  cs_next_id :: conn_id
  cs_max_frame :: u32
  cs_conns :: "conn_id list"
  cs_cbs :: "(fd \<times> conn_id) list"
  cs_write :: "(fd \<times> bool) list"
  cs_jobs :: "(conn_id \<times> string) list"

definition register_connection :: "conn_id \<Rightarrow> chat_server \<Rightarrow> chat_server" where
  "register_connection i cs = cs\<lparr>cs_conns := List.insert i (cs_conns cs)\<rparr>"

definition unregister_connection :: "conn_id \<Rightarrow> chat_server \<Rightarrow> chat_server" where
  "unregister_connection i cs = cs\<lparr>cs_conns := removeAll i (cs_conns cs)\<rparr>"

definition connection_count :: "chat_server \<Rightarrow> nat" where
  "connection_count cs = length (cs_conns cs)"

text \<open>\<open>ChatServer::on_frame\<close> and \<open>ChatServer::on_close\<close>; \<open>on_connect\<close> only logs.\<close>

definition on_frame :: "conn_id \<Rightarrow> string \<Rightarrow> chat_server \<Rightarrow> chat_server" where
  "on_frame i payload cs = cs\<lparr>cs_jobs := cs_jobs cs @ [(i, payload)]\<rparr>"

definition on_close :: "conn_id \<Rightarrow> unit comp" where
  "on_close i =
     seq (conn_user_id i) (\<lambda>uid. if uid \<noteq> 0 then seq (presence_unbind uid i) (\<lambda>_. ret ()) else ret ())"

text \<open>The close handler that \<open>on_listen_event\<close> passes to \<open>start\<close>; \<open>deliver_close\<close> catches what it throws.\<close>

definition close_handler :: "conn_id \<Rightarrow> chat_server \<Rightarrow> chat_server" where
  "close_handler i cs =
     (case on_close i (cs_srv cs) of
        (Inl e, s) \<Rightarrow> cs\<lparr>cs_srv := s\<rparr>
      | (Inr x, s) \<Rightarrow> unregister_connection i (cs\<lparr>cs_srv := s\<rparr>))"

text \<open>
  The calls a connection makes: \<open>post\<close>, \<open>modify\<close> and \<open>remove\<close> of the reactor, and the two handlers. A
  change of the mask of a descriptor that is not registered fails in the kernel.
\<close>

fun apply_effect :: "conn_id \<Rightarrow> conn_effect \<Rightarrow> chat_server \<Rightarrow> chat_server" where
  "apply_effect i (Post t) cs = cs\<lparr>cs_srv := (cs_srv cs)\<lparr>srv_posts := srv_posts (cs_srv cs) @ [t]\<rparr>\<rparr>"
| "apply_effect i (Modify s w) cs =
     (if map_of (cs_write cs) s = None then cs else cs\<lparr>cs_write := AList.update s w (cs_write cs)\<rparr>)"
| "apply_effect i (RemoveFd s) cs = cs\<lparr>cs_cbs := AList.delete s (cs_cbs cs), cs_write := AList.delete s (cs_write cs)\<rparr>"
| "apply_effect i (CloseFd s) cs = cs"
| "apply_effect i (Wrote bs) cs = cs"
| "apply_effect i (OnFrame p) cs = on_frame i p cs"
| "apply_effect i OnClose cs = close_handler i cs"

definition conn_do :: "conn_id \<Rightarrow> conn_op \<Rightarrow> chat_server \<Rightarrow> chat_server" where
  "conn_do i x cs =
     (case map_of (srv_conns (cs_srv cs)) i of
        None \<Rightarrow> cs
      | Some c \<Rightarrow>
          (let (c', es) = conn_step x c
           in fold (apply_effect i) es
                (cs\<lparr>cs_srv := (cs_srv cs)\<lparr>srv_conns := AList.update i c' (srv_conns (cs_srv cs))\<rparr>\<rparr>)))"

text \<open>
  One turn of the loop of \<open>on_listen_event\<close>: \<open>accept\<close> returned the descriptor \<open>s\<close>. The new connection is
  registered, then \<open>start\<close> adds it to the reactor, whose answer (\<open>ok\<close>) is not looked at.
\<close>

definition on_accept :: "fd \<Rightarrow> bool \<Rightarrow> chat_server \<Rightarrow> chat_server" where
  "on_accept s ok cs =
     (let i = cs_next_id cs;
          c = Connection_make i s (cs_max_frame cs);
          cs1 = register_connection i
            (cs\<lparr>cs_next_id := i + 1, cs_srv := (cs_srv cs)\<lparr>srv_conns := (i, c) # srv_conns (cs_srv cs)\<rparr>\<rparr>)
      in if ok then cs1\<lparr>cs_cbs := AList.update s i (cs_cbs cs1), cs_write := AList.update s False (cs_write cs1)\<rparr> else cs1)"

text \<open>The results of \<open>accept\<close>; when the list ends the call would block.\<close>

datatype accept_result = Accepted fd bool | AcceptErr errno

fun on_listen_event :: "accept_result list \<Rightarrow> chat_server \<Rightarrow> chat_server" where
  "on_listen_event [] cs = cs"
| "on_listen_event (Accepted s ok # rs) cs = on_listen_event rs (on_accept s ok cs)"
| "on_listen_event (AcceptErr e # rs) cs = cs"

text \<open>An event of the reactor, looked up in its callbacks, and one closure of a drained batch.\<close>

definition reactor_event :: "fd \<Rightarrow> bool \<Rightarrow> bool \<Rightarrow> recv_result list \<Rightarrow> send_result list \<Rightarrow> chat_server \<Rightarrow> chat_server" where
  "reactor_event s rd wr rs ss cs =
     (case map_of (cs_cbs cs) s of None \<Rightarrow> cs | Some i \<Rightarrow> conn_do i (DoEvent rd wr rs ss) cs)"

fun task_conn :: "task \<Rightarrow> conn_id" where
  "task_conn (Flush i) = i"
| "task_conn (DeliverClose i) = i"
| "task_conn (ScheduleClose i) = i"

definition run_posted :: "send_result list \<Rightarrow> chat_server \<Rightarrow> chat_server" where
  "run_posted ss cs =
     (case srv_posts (cs_srv cs) of
        [] \<Rightarrow> cs
      | t # ts \<Rightarrow> conn_do (task_conn t) (DoTask t ss) (cs\<lparr>cs_srv := (cs_srv cs)\<lparr>srv_posts := ts\<rparr>\<rparr>))"

text \<open>A worker runs a job; what a job throws is dropped.\<close>

definition run_job :: "nat \<Rightarrow> chat_server \<Rightarrow> chat_server" where
  "run_job k cs =
     (if k < length (cs_jobs cs)
      then (let (i, payload) = cs_jobs cs ! k
            in cs\<lparr>cs_jobs := take k (cs_jobs cs) @ drop (Suc k) (cs_jobs cs), cs_srv := snd (dispatch i payload (cs_srv cs))\<rparr>)
      else cs)"

text \<open>\<open>Server::stop\<close>: the table is emptied, then each connection is closed.\<close>

definition server_stop :: "chat_server \<Rightarrow> chat_server" where
  "server_stop cs = fold (\<lambda>i. conn_do i DoClose) (cs_conns cs) (cs\<lparr>cs_conns := []\<rparr>)"

section \<open>Runs\<close>

text \<open>The kernel returns a descriptor that no open connection has.\<close>

definition fresh_fd :: "fd \<Rightarrow> chat_server \<Rightarrow> bool" where
  "fresh_fd s cs \<longleftrightarrow> 0 \<le> s \<and> (\<forall>(i, c)\<in>set (srv_conns (cs_srv cs)). closed c \<or> cn_fd c \<noteq> s)"

inductive step :: "chat_server \<Rightarrow> chat_server \<Rightarrow> bool" where
  accept: "fresh_fd s cs \<Longrightarrow> step cs (on_accept s ok cs)"
| event: "step cs (reactor_event s rd wr rs ss cs)"
| posted: "step cs (run_posted ss cs)"
| job: "step cs (run_job k cs)"

inductive reaches :: "chat_server \<Rightarrow> nat \<Rightarrow> chat_server \<Rightarrow> bool" for cs0 where
  start: "reaches cs0 0 cs0"
| more: "reaches cs0 n cs \<Longrightarrow> step cs cs' \<Longrightarrow> reaches cs0 (Suc n) cs'"

definition chat_start :: "server \<Rightarrow> u32 \<Rightarrow> chat_server" where
  "chat_start s mx = \<lparr>cs_srv = s, cs_next_id = 1, cs_max_frame = mx, cs_conns = [], cs_cbs = [], cs_write = [], cs_jobs = []\<rparr>"

section \<open>What an operation of a connection changes\<close>

lemma flush_ids:
  "cn_id (fst (try_flush_locked ss c)) = cn_id c" "cn_fd (fst (try_flush_locked ss c)) = cn_fd c"
  "closed (fst (try_flush_locked ss c)) = closed c" "cn_user_id (fst (try_flush_locked ss c)) = cn_user_id c"
  by (induction ss c rule: try_flush_locked.induct)
    (auto simp: flush_done_def flush_blocked_def split_beta Let_def split: errno.splits if_splits)

lemma schedule_ids:
  "cn_id (fst (schedule_close c)) = cn_id c" "cn_fd (fst (schedule_close c)) = cn_fd c"
  "cn_user_id (fst (schedule_close c)) = cn_user_id c"
  by (simp_all add: schedule_close_def)

lemma readable_ids:
  "cn_id (fst (on_readable rs c)) = cn_id c \<and> cn_fd (fst (on_readable rs c)) = cn_fd c \<and>
   closed (fst (on_readable rs c)) = closed c \<and> cn_user_id (fst (on_readable rs c)) = cn_user_id c"
proof (induction rs c rule: on_readable.induct)
  case (2 bs rs c)
  obtain ok c' fs where P: "parse_loop (c\<lparr>rbuf := rbuf c @ bs\<rparr>) [] = (ok, c', fs)" by (cases "parse_loop (c\<lparr>rbuf := rbuf c @ bs\<rparr>) []")
  with parse_loop_same [of "c\<lparr>rbuf := rbuf c @ bs\<rparr>" "[]"] have "same_but_read c c'" by simp
  with 2 P show ?case by (auto simp: split_beta Let_def schedule_ids dest: same_but_read_fields)
qed (auto simp: schedule_ids split: errno.split)

lemma step_ids:
  "cn_id (fst (conn_step x c)) = cn_id c \<and> cn_user_id (fst (conn_step x c)) = cn_user_id c \<and>
   (closed (fst (conn_step x c)) = closed c \<and> cn_fd (fst (conn_step x c)) = cn_fd c \<or>
    closed (fst (conn_step x c)) \<and> \<not> closed c \<and> RemoveFd (cn_fd c) \<in> set (snd (conn_step x c)))"
proof (cases x)
  case (DoSend p)
  then show ?thesis by (simp add: send_frame_hdr)
next
  case (DoEvent rd wr rs ss)
  then show ?thesis
    using readable_ids [of rs c] by (simp add: on_event_def on_writable_def split_beta Let_def flush_ids)
next
  case (DoTask t ss)
  then show ?thesis by (cases t) (auto simp: flush_ids schedule_ids deliver_close_def)
next
  case DoClose
  then show ?thesis by (simp add: schedule_ids)
qed

section \<open>What a request leaves alone\<close>

definition sockets :: "server \<Rightarrow> conn_id \<Rightarrow> (conn_id \<times> bool \<times> fd) option" where
  "sockets s j = map_option (\<lambda>c. (cn_id c, closed c, cn_fd c)) (map_of (srv_conns s) j)"

lemma keeps_sockets_call:
  "(\<And>c. cn_id (fst (f c)) = cn_id c \<and> closed (fst (f c)) = closed c \<and> cn_fd (fst (f c)) = cn_fd c) \<Longrightarrow> keeps sockets (conn_call i f)"
  by (auto simp: keeps_def sockets_def conn_call_def split_beta Let_def map_of_update_iff fun_eq_iff split: option.split)

lemma keeps_sockets_conn:
  "keeps sockets (conn_call i (send_frame p))" "keeps sockets (conn_set i (set_user_id u))"
  "keeps sockets (conn_set i (set_session_token tok))"
  unfolding conn_set_def
  by (rule keeps_sockets_call; simp add: send_frame_hdr set_user_id_def set_session_token_def)+

interpretation fds: state_order "\<lambda>s s'. sockets s' = sockets s"
  using keeps_sockets_conn by unfold_locales (simp_all add: advances_def keeps_def sockets_def [abs_def])

section \<open>The invariant of the running server\<close>

definition chat_inv :: "nat \<Rightarrow> chat_server \<Rightarrow> bool" where
  "chat_inv n cs \<longleftrightarrow>
     server_inv n (cs_srv cs) \<and>
     (\<forall>i. i \<in> set (cs_conns cs) \<longleftrightarrow> (\<exists>s. sockets (cs_srv cs) i = Some (i, False, s))) \<and>
     (\<forall>s i. map_of (cs_cbs cs) s = Some i \<longrightarrow> sockets (cs_srv cs) i = Some (i, False, s)) \<and>
     (\<forall>(i, p)\<in>set (cs_jobs cs). sockets (cs_srv cs) i \<noteq> None) \<and>
     (\<forall>i. sockets (cs_srv cs) i \<noteq> None \<longrightarrow> i < cs_next_id cs) \<and>
     unat (cs_next_id cs) \<le> n"

lemma sockets_id: "server_inv n s \<Longrightarrow> sockets s i = Some (j, b, d) \<Longrightarrow> j = i"
  by (auto simp: sockets_def server_inv_def inv_but_rooms_def conns_ok_def dest: map_of_SomeD)

lemma serving_start: "server_inv n s \<Longrightarrow> map_of (srv_conns s) i = Some c \<Longrightarrow> serving n i c s"
  by (auto simp: serving_def intro!: exI [of _ "[]"])

lemma on_close_runs:
  assumes "server_inv n s" and "sockets s i \<noteq> None"
  shows "\<exists>s'. on_close i s = (Inr (), s') \<and> server_inv n s' \<and> sockets s' = sockets s"
proof -
  obtain c where "map_of (srv_conns s) i = Some c" using assms(2) by (auto simp: sockets_def)
  then have s: "serving n i c s" by (rule serving_start [OF assms(1)])
  have "runs (serving n i c) (on_close i) (\<lambda>_. serving n i c)"
    unfolding on_close_def by (intro runs_seq [OF runs_field] runs_if runs_seq [OF runs_unbind] runs_ret)
  from runsD [OF this s] obtain s' where s': "on_close i s = (Inr (), s')" "serving n i c s'" by auto
  moreover have "advances (\<lambda>s s'. sockets s' = sockets s) (on_close i)"
    unfolding on_close_def by (intro fds.adv_rules fds.adv_presence)
  ultimately show ?thesis using advancesD [of _ "on_close i" s] by (auto simp: serving_def)
qed

fun frames_of :: "conn_effect list \<Rightarrow> string list" where
  "frames_of [] = []"
| "frames_of (OnFrame p # es) = p # frames_of es"
| "frames_of (e # es) = frames_of es"

lemma effects_inv:
  fixes es :: "conn_effect list"
  assumes "server_inv n (cs_srv cs)" and "sockets (cs_srv cs) i \<noteq> None"
  defines "cs' \<equiv> fold (apply_effect i) es cs"
  shows "server_inv n (cs_srv cs') \<and> sockets (cs_srv cs') = sockets (cs_srv cs) \<and>
    set (cs_conns cs') = set (cs_conns cs) - (if OnClose \<in> set es then {i} else {}) \<and>
    (\<forall>s. map_of (cs_cbs cs') s = (if RemoveFd s \<in> set es then None else map_of (cs_cbs cs) s)) \<and>
    cs_jobs cs' = cs_jobs cs @ map (Pair i) (frames_of es) \<and> cs_next_id cs' = cs_next_id cs \<and> cs_max_frame cs' = cs_max_frame cs"
  using assms(1,2) unfolding cs'_def
proof (induction es arbitrary: cs)
  case (Cons e es)
  have one: "server_inv n (cs_srv (apply_effect i e cs)) \<and> sockets (cs_srv (apply_effect i e cs)) = sockets (cs_srv cs) \<and>
      set (cs_conns (apply_effect i e cs)) = set (cs_conns cs) - (if e = OnClose then {i} else {}) \<and>
      (\<forall>s. map_of (cs_cbs (apply_effect i e cs)) s = (if e = RemoveFd s then None else map_of (cs_cbs cs) s)) \<and>
      cs_jobs (apply_effect i e cs) = cs_jobs cs @ map (Pair i) (frames_of [e]) \<and>
      cs_next_id (apply_effect i e cs) = cs_next_id cs \<and> cs_max_frame (apply_effect i e cs) = cs_max_frame cs"
  proof (cases e)
    case OnClose
    from on_close_runs [OF Cons.prems] show ?thesis
      by (auto simp: OnClose close_handler_def unregister_connection_def)
  qed (use Cons.prems in \<open>auto simp: sockets_def [abs_def] on_frame_def map_of_delete_iff\<close>)
  have "frames_of (e # es) = frames_of [e] @ frames_of es" by (cases e) simp_all
  with one Cons.IH [of "apply_effect i e cs"] Cons.prems show ?case by auto
qed simp

lemma conn_do_inv:
  assumes "chat_inv n cs"
  shows "chat_inv n (conn_do i x cs)"
proof (cases "map_of (srv_conns (cs_srv cs)) i")
  case None
  with assms show ?thesis by (simp add: conn_do_def)
next
  case (Some c)
  define c' where "c' = fst (conn_step x c)"
  define es where "es = snd (conn_step x c)"
  define cs1 where "cs1 = cs\<lparr>cs_srv := (cs_srv cs)\<lparr>srv_conns := AList.update i c' (srv_conns (cs_srv cs))\<rparr>\<rparr>"
  have inv: "server_inv n (cs_srv cs)" using assms by (simp add: chat_inv_def)
  have ids: "cn_id c' = i" "closed c' = closed c \<and> cn_fd c' = cn_fd c \<or> closed c' \<and> \<not> closed c \<and> RemoveFd (cn_fd c) \<in> set es"
    using step_ids [of x c] sockets_id [OF inv, of i "cn_id c" "closed c" "cn_fd c"] Some by (auto simp: c'_def es_def sockets_def)
  have sock: "sockets (cs_srv cs1) j = (if j = i then Some (i, closed c', cn_fd c') else sockets (cs_srv cs) j)" for j
    by (simp add: cs1_def sockets_def map_of_update_iff ids(1))
  have old: "sockets (cs_srv cs) i = Some (i, closed c, cn_fd c)"
    using Some step_ids [of x c] ids(1) by (simp add: sockets_def c'_def)
  have inv1: "server_inv n (cs_srv cs1)"
    using inv ids(1) by (simp add: cs1_def server_inv_def inv_but_rooms_def conns_ok_update bound_ok_update)
  have close: "OnClose \<in> set es \<longleftrightarrow> closed c' \<and> \<not> closed c"
    using step_close [of x c] count_list_0_iff [of es OnClose] by (auto simp: c'_def es_def split: if_splits)
  have run: "conn_do i x cs = fold (apply_effect i) es cs1"
    by (simp add: conn_do_def Some split_beta c'_def es_def cs1_def)
  note E = effects_inv [OF inv1, of i es, folded run]
  have "sockets (cs_srv cs1) i \<noteq> None" by (simp add: sock)
  note E = E [OF this]
  have "cs_conns cs1 = cs_conns cs" "cs_cbs cs1 = cs_cbs cs" "cs_jobs cs1 = cs_jobs cs" "cs_next_id cs1 = cs_next_id cs"
    by (simp_all add: cs1_def)
  then have new: "set (cs_conns (conn_do i x cs)) = set (cs_conns cs) - (if closed c' \<and> \<not> closed c then {i} else {})"
    "map_of (cs_cbs (conn_do i x cs)) s = (if RemoveFd s \<in> set es then None else map_of (cs_cbs cs) s)"
    "set (cs_jobs (conn_do i x cs)) = set (cs_jobs cs) \<union> Pair i ` set (frames_of es)" "cs_next_id (conn_do i x cs) = cs_next_id cs"
    "sockets (cs_srv (conn_do i x cs)) j = (if j = i then Some (i, closed c', cn_fd c') else sockets (cs_srv cs) j)" for s j
    using E close by (auto simp: sock)
  have A: "\<And>j. j \<in> set (cs_conns cs) \<longleftrightarrow> (\<exists>s. sockets (cs_srv cs) j = Some (j, False, s))"
    "\<And>s j. map_of (cs_cbs cs) s = Some j \<Longrightarrow> sockets (cs_srv cs) j = Some (j, False, s)"
    "\<And>j p. (j, p) \<in> set (cs_jobs cs) \<Longrightarrow> sockets (cs_srv cs) j \<noteq> None"
    "\<And>j. sockets (cs_srv cs) j \<noteq> None \<Longrightarrow> j < cs_next_id cs" "unat (cs_next_id cs) \<le> n"
    using assms unfolding chat_inv_def by blast+
  show ?thesis unfolding chat_inv_def new
  proof (intro conjI allI impI ballI)
    show "server_inv n (cs_srv (conn_do i x cs))" using E by blast
    show "j \<in> set (cs_conns cs) - (if closed c' \<and> \<not> closed c then {i} else {}) \<longleftrightarrow>
        (\<exists>s. (if j = i then Some (i, closed c', cn_fd c') else sockets (cs_srv cs) j) = Some (j, False, s))" for j
      using A(1) [of j] old ids(2) by auto
    show "(if j = i then Some (i, closed c', cn_fd c') else sockets (cs_srv cs) j) = Some (j, False, s)"
      if "(if RemoveFd s \<in> set es then None else map_of (cs_cbs cs) s) = Some j" for s j
      using that A(2) [of s j] old ids(2) by (auto split: if_splits)
    show "case y of (j, p) \<Rightarrow> (if j = i then Some (i, closed c', cn_fd c') else sockets (cs_srv cs) j) \<noteq> None"
      if "y \<in> set (cs_jobs cs) \<union> Pair i ` set (frames_of es)" for y
      using that A(3) by auto
    show "j < cs_next_id cs" if "(if j = i then Some (i, closed c', cn_fd c') else sockets (cs_srv cs) j) \<noteq> None" for j
      using that A(4) [of j] old by (auto split: if_splits)
  qed (rule A(5))
qed

lemma chat_inv_mono: "chat_inv n cs \<Longrightarrow> n \<le> m \<Longrightarrow> chat_inv m cs"
  unfolding chat_inv_def using server_inv_mono [of n "cs_srv cs" m] by auto

lemma posted_inv: "chat_inv n cs \<Longrightarrow> chat_inv n (run_posted ss cs)"
proof -
  assume cs: "chat_inv n cs"
  then have "chat_inv n (cs\<lparr>cs_srv := (cs_srv cs)\<lparr>srv_posts := ts\<rparr>\<rparr>)" for ts
    by (simp add: chat_inv_def sockets_def)
  then show ?thesis using cs by (auto simp: run_posted_def intro: conn_do_inv split: list.split)
qed

lemma event_inv: "chat_inv n cs \<Longrightarrow> chat_inv n (reactor_event s rd wr rs ss cs)"
  by (auto simp: reactor_event_def intro: conn_do_inv split: option.split)

lemma job_inv:
  assumes "chat_inv n cs" and "n < 2 ^ 64 - 1"
  shows "chat_inv (Suc n) (run_job k cs)"
proof (cases "k < length (cs_jobs cs)")
  case True
  obtain i p where ip: "cs_jobs cs ! k = (i, p)" by (cases "cs_jobs cs ! k")
  with nth_mem [OF True] assms(1) have "sockets (cs_srv cs) i \<noteq> None" unfolding chat_inv_def by fastforce
  then obtain c where "map_of (srv_conns (cs_srv cs)) i = Some c" by (auto simp: sockets_def)
  with assms(1) have "serving n i c (cs_srv cs)" by (simp add: chat_inv_def serving_start)
  from runsD [OF runs_dispatch [OF assms(2)] this, of p] have "server_inv (Suc n) (snd (dispatch i p (cs_srv cs)))"
    by (auto simp: answered_def)
  moreover have "sockets (snd (dispatch i p (cs_srv cs))) = sockets (cs_srv cs)"
    using fds.adv_dispatch [of i p] by (simp add: advances_def)
  moreover have "set (take k (cs_jobs cs) @ drop (Suc k) (cs_jobs cs)) \<subseteq> set (cs_jobs cs)"
    by (auto dest: in_set_takeD in_set_dropD)
  ultimately show ?thesis using assms(1) True ip unfolding chat_inv_def run_job_def by auto
next
  case False
  then show ?thesis using chat_inv_mono [OF assms(1)] by (simp add: run_job_def)
qed

lemma next_id_grows:
  fixes i :: conn_id
  assumes "unat i \<le> n" and "n < 2 ^ 64 - 1"
  shows "unat (i + 1) = Suc (unat i)"
  using unatSuc [of i] no_wrap [of i] assms by (simp add: add.commute)

lemma on_accept_inv:
  assumes "chat_inv n cs" and "n < 2 ^ 64 - 1"
  shows "chat_inv (Suc n) (on_accept s ok cs)"
proof -
  let ?i = "cs_next_id cs"
  let ?c = "Connection_make ?i s (cs_max_frame cs)"
  let ?s = "(cs_srv cs)\<lparr>srv_conns := (?i, ?c) # srv_conns (cs_srv cs)\<rparr>"
  have A: "server_inv n (cs_srv cs)" "\<And>j. j \<in> set (cs_conns cs) \<longleftrightarrow> (\<exists>s. sockets (cs_srv cs) j = Some (j, False, s))"
    "\<And>s j. map_of (cs_cbs cs) s = Some j \<Longrightarrow> sockets (cs_srv cs) j = Some (j, False, s)"
    "\<And>j p. (j, p) \<in> set (cs_jobs cs) \<Longrightarrow> sockets (cs_srv cs) j \<noteq> None"
    "\<And>j. sockets (cs_srv cs) j \<noteq> None \<Longrightarrow> j < cs_next_id cs" "unat (cs_next_id cs) \<le> n"
    using assms(1) unfolding chat_inv_def by blast+
  have none: "sockets (cs_srv cs) ?i = None" using A(5) [of ?i] by (cases "sockets (cs_srv cs) ?i") auto
  then have "map_of (srv_conns (cs_srv cs)) ?i = None" by (simp add: sockets_def)
  then have inv: "server_inv (Suc n) ?s"
    using accept_inv [OF A(1), of ?i ?c] server_inv_mono [of n ?s "Suc n"] by (simp add: Connection_make_def)
  have sock: "sockets ?s j = (if j = ?i then Some (?i, False, s) else sockets (cs_srv cs) j)" for j
    by (simp add: sockets_def Connection_make_def)
  have grow: "unat (?i + 1) = Suc (unat ?i)" by (rule next_id_grows [OF A(6) assms(2)])
  have "j < ?i + 1" if "j < ?i \<or> j = ?i" for j using that grow by (auto simp: word_less_nat_alt)
  with A none grow inv show ?thesis
    unfolding chat_inv_def on_accept_def register_connection_def Let_def
    by (auto simp: sock map_of_update_iff split: if_splits)
qed

lemma listen_inv:
  "chat_inv n cs \<Longrightarrow> n + length rs < 2 ^ 64 - 1 \<Longrightarrow> chat_inv (n + length rs) (on_listen_event rs cs)"
proof (induction rs cs arbitrary: n rule: on_listen_event.induct)
  case (2 s ok rs cs)
  have "n < 2 ^ 64 - 1" using "2.prems"(2) by simp
  from "2.IH" [OF on_accept_inv [OF "2.prems"(1) this]] "2.prems"(2) show ?case by simp
qed (auto intro: chat_inv_mono)

text \<open>\<open>Server::stop\<close> starts to close every open connection.\<close>

lemma conn_do_close:
  "map_of (srv_conns (cs_srv (conn_do i DoClose cs))) j =
     (if j = i then map_option (\<lambda>c. c\<lparr>closing := True\<rparr>) (map_of (srv_conns (cs_srv cs)) j) else map_of (srv_conns (cs_srv cs)) j)"
  by (cases "map_of (srv_conns (cs_srv cs)) i"; cases "map_of (srv_conns (cs_srv cs)) i"; cases "j = i")
    (auto simp: conn_do_def schedule_close_def map_of_update_iff)

lemma stop_closes_all:
  "map_of (srv_conns (cs_srv (server_stop cs))) j =
     (if j \<in> set (cs_conns cs) then map_option (\<lambda>c. c\<lparr>closing := True\<rparr>) (map_of (srv_conns (cs_srv cs)) j)
      else map_of (srv_conns (cs_srv cs)) j)"
proof -
  have "map_of (srv_conns (cs_srv (fold (\<lambda>i. conn_do i DoClose) js cs))) j =
     (if j \<in> set js then map_option (\<lambda>c. c\<lparr>closing := True\<rparr>) (map_of (srv_conns (cs_srv cs)) j)
      else map_of (srv_conns (cs_srv cs)) j)" for js cs
    by (induction js arbitrary: cs) (auto simp: conn_do_close option.map_comp comp_def)
  then show ?thesis by (simp add: server_stop_def)
qed

lemma reaches_inv:
  assumes "reaches cs0 k cs" and "chat_inv n cs0" and "n + k < 2 ^ 64 - 1"
  shows "chat_inv (n + k) cs"
  using assms
proof (induction rule: reaches.induct)
  case (more k cs cs')
  then have cs: "chat_inv (n + k) cs" and le: "n + k < 2 ^ 64 - 1" by simp_all
  from \<open>step cs cs'\<close> show ?case
  proof cases
    case (accept s ok)
    then show ?thesis using on_accept_inv [OF cs le] by simp
  next
    case (event s rd wr rs ss)
    then show ?thesis using chat_inv_mono [OF event_inv [OF cs]] by simp
  next
    case (posted ss)
    then show ?thesis using chat_inv_mono [OF posted_inv [OF cs]] by simp
  next
    case (job j)
    then show ?thesis using job_inv [OF cs le] by simp
  qed
qed simp

lemma chat_start_inv:
  "server_inv n s \<Longrightarrow> srv_conns s = [] \<Longrightarrow> 0 < n \<Longrightarrow> chat_inv n (chat_start s mx)"
  by (simp add: chat_inv_def chat_start_def sockets_def)

lemma init_conns [simp]: "srv_conns (ChatServer_init ttl mm iter clock entropy ub to_chars r) = []"
  by (simp add: ChatServer_init_def)

lemma push_closed: "closed c \<Longrightarrow> push ps c = c"
  by (induction ps) (simp_all add: send_frame_hdr)

section \<open>Properties\<close>





text \<open>
  C40. A login that is still waiting when its connection closes leaves the user online for
  good: the close handler runs before the job and finds no user to unbind, the job then
  binds the user to the closed connection. From then on a direct message to that user is
  sent to nobody, and yet it is marked delivered and not queued.
\<close>

theorem late_login_loses_messages:
  fixes a :: user_id
  assumes "server_inv n s" and "map_of (srv_conns s) i = Some c" and "closed c" and "\<not> is_online (u_id u) (srv_presence s)"
    and "find_user_by_username (get_str req ''username'' []) (srv_repos s) = Inr (Some u)"
    and "verify_password_hash (get_str req ''password'' []) (u_password_hash u)" and "utf8 content"
  shows "\<exists>s1 s2 k. handle_login i req rid s = (Inr (), s1) \<and> connections_of (u_id u) (srv_presence s1) = [i] \<and>
    map_option closed (map_of (srv_conns s1) i) = Some True \<and>
    send_dm a (u_id u) content s1 = (Inr k, s2) \<and> map_of (srv_conns s2) i = map_of (srv_conns s1) i \<and>
    m_status (last (messages (srv_repos s2))) = 1 \<and> m_id (last (messages (srv_repos s2))) = k \<and>
    slot (undelivered (srv_repos s2)) (u_id u) = slot (undelivered (srv_repos s1)) (u_id u)"
proof -
  from runsD [OF login_answers serving_start [OF assms(1,2)], of req rid] obtain s1
    where s1: "handle_login i req rid s = (Inr (), s1)" "server_inv (Suc n) s1" by (auto simp: answered_def)
  have off: "connections_of (u_id u) (srv_presence s) = []" using assms(4) by (simp add: is_online_def connections_of_def)
  have on: "connections_of (u_id u) (srv_presence s1) = [i]"
    using login_accepted [OF assms(2,5,6), of rid] s1(1) off by (simp add: identities_def)
  have "sockets s1 = sockets s"
    using fds.adv_handler [of handle_login i req rid] s1(1) by (simp add: advances_def table_def) (metis snd_conv)
  then obtain c1 where c1: "map_of (srv_conns s1) i = Some c1" "closed c1"
    using assms(2,3) by (auto simp: sockets_def dest!: fun_cong [of _ _ i])
  obtain p s2 where s2: "send_dm a (u_id u) content s1 = (Inr (m_id (dm_message a (u_id u) content s1)), s2)"
    "outputs (\<lambda>j. (if j \<in> set [i] then [p] else []) @ (if j \<in> set (connections_of a (srv_presence s1)) then [p] else [])) s1 s2"
    "messages (srv_repos s2) = messages (srv_repos s1) @ [(dm_message a (u_id u) content s1)\<lparr>m_status := 1\<rparr>]"
    "slot (undelivered (srv_repos s2)) (u_id u) = slot (undelivered (srv_repos s1)) (u_id u)"
    using send_dm_effect [OF s1(2) assms(7), of a "u_id u"] on by auto
  have "map_of (srv_conns s2) i = map_of (srv_conns s1) i"
    using s2(2) c1 by (simp add: outputs_def push_closed del: push_simps)
  with s1(1) on c1 s2 show ?thesis by (intro exI [of _ s1] exI [of _ s2]) simp
qed

text \<open>The example: one closed connection and the account \<open>bob\<close>.\<close>

definition bob :: User where
  "bob = \<lparr>u_id = 1, u_username = ''bob'', u_password_hash = make_password_hash (replicate 16 7) ''pass'' 1, u_created_at_ms = 0,
     u_last_seen_ms = 0\<rparr>"

definition closed_client :: server where
  "closed_client = (one_client 0)\<lparr>srv_conns := [(1, (client_of 0)\<lparr>closed := True\<rparr>)],
     srv_repos := snd (create_user 0 ''bob'' (u_password_hash bob) Repositories_init)\<rparr>"

lemma closed_client_inv: "server_inv (Suc 1) closed_client"
proof -
  have "utf8 ''bob''" by (simp add: tail_ranges_def)
  then have "store_inv (Suc 1) (snd (create_user 0 ''bob'' (u_password_hash bob) Repositories_init))"
    by (intro store_create_user [OF store_inv_init]) simp_all
  then show ?thesis
    by (simp add: closed_client_def one_client_def ChatServer_init_def server_inv_def inv_but_rooms_def coherent_def RoomManager_new_def
        sessions_known_def warm_def load_all_sessions_def Repositories_init_def SessionManager_new_def all_vals_def presence_inv_def
        bound_ok_def conns_ok_def client_of_def Connection_make_def set_user_id_def)
qed

theorem late_login_loses_messages_witness:
  "\<exists>s1 s2. handle_login 1 (JObject [(''password'', JString ''pass''), (''username'', JString ''bob'')]) None closed_client = (Inr (), s1) \<and>
     map_option closed (map_of (srv_conns s1) 1) = Some True \<and> (\<exists>k. send_dm 9 1 ''hi'' s1 = (Inr k, s2)) \<and>
     m_status (last (messages (srv_repos s2))) = 1"
proof -
  let ?req = "JObject [(''password'', JString ''pass''), (''username'', JString ''bob'')]"
  have "find_user_by_username (get_str ?req ''username'' []) (srv_repos closed_client) = Inr (Some bob)"
    by (simp add: get_str_def closed_client_def create_user_def Repositories_init_def find_user_by_username_def at_key_def Let_def bob_def)
  moreover have "verify_password_hash (get_str ?req ''password'' []) (u_password_hash bob)"
    by (simp add: get_str_def bob_def verify_made)
  moreover have "map_of (srv_conns closed_client) 1 = Some ((client_of 0)\<lparr>closed := True\<rparr>)" "utf8 ''hi''"
    "\<not> is_online (u_id bob) (srv_presence closed_client)" "u_id bob = 1"
    by (simp_all add: closed_client_def one_client_def ChatServer_init_def is_online_def tail_ranges_def bob_def)
  ultimately show ?thesis
    using late_login_loses_messages [OF closed_client_inv, of 1 "(client_of 0)\<lparr>closed := True\<rparr>" bob ?req "''hi''" None 9] by auto
qed

end
