(* ===== verification/Config.thy ===== *)
theory Config
  imports Util
begin

text \<open>
  \<open>src/src/common/config.cpp\<close> and the part of \<open>src/src/main.cpp\<close> that builds the configuration from
  the command line, a file and the environment; and the log levels of
  \<open>src/src/common/logger.cpp\<close>.

  A file is its contents, or \<^const>\<open>None\<close> when it cannot be opened; the environment is a map
  from names. \<open>atoi\<close> is a parameter, since C leaves its result undefined for numbers that do not
  fit.
\<close>

section \<open>The code\<close>

type_synonym Config = "(string \<times> string) list"

text \<open>\<open>while (std::getline (in, line))\<close>: the lines of the file.\<close>

function getlines :: "string \<Rightarrow> string list" where
  "getlines s =
     (if s = [] then []
      else takeWhile (\<lambda>c. c \<noteq> CHR 0x0A) s # getlines (tl (dropWhile (\<lambda>c. c \<noteq> CHR 0x0A) s)))"
  by pat_completeness auto
termination
proof (relation "measure length")
  fix s :: string
  assume "s \<noteq> []"
  then have "0 < length s" by simp
  then show "(tl (dropWhile (\<lambda>c. c \<noteq> CHR 0x0A) s), s) \<in> measure length"
    using length_dropWhile_le [of "\<lambda>c. c \<noteq> CHR 0x0A" s] by (simp only: in_measure length_tl)
qed simp

declare getlines.simps [simp del]

definition load_line :: "string \<Rightarrow> Config \<Rightarrow> Config" where
  "load_line line kv =
     (let t = trim line in
      if t = [] \<or> hd t = CHR ''#'' then kv
      else
        (case str_find t (CHR ''='') 0 of
           None \<Rightarrow> kv
         | Some eq \<Rightarrow>
             (let key = to_lower (trim (take eq t));
                  val = trim (drop (eq + 1) t)
              in AList.update key val kv)))"

definition load_file :: "string option \<Rightarrow> Config \<Rightarrow> bool \<times> Config" where
  "load_file cf kv = (case cf of None \<Rightarrow> (False, kv) | Some content \<Rightarrow> (True, fold load_line (getlines content) kv))"

definition well_known :: "string list" where
  "well_known =
     [''listen_host'', ''listen_port'', ''worker_threads'', ''log_level'', ''log_file'', ''mysql_host'', ''mysql_port'',
      ''mysql_user'', ''mysql_password'', ''mysql_database'', ''mysql_pool_size'', ''session_ttl_seconds'',
      ''pbkdf2_iterations'', ''max_message_bytes'', ''max_frame_bytes'']"

definition overlay_key :: "(string \<Rightarrow> string option) \<Rightarrow> string \<Rightarrow> Config \<Rightarrow> Config" where
  "overlay_key getenv key kv =
     (case getenv (c_str (to_upper key)) of None \<Rightarrow> kv | Some env \<Rightarrow> AList.update key env kv)"

definition overlay_env :: "(string \<Rightarrow> string option) \<Rightarrow> Config \<Rightarrow> Config" where
  "overlay_env getenv kv = fold (overlay_key getenv) (map fst kv @ well_known) kv"

definition config_get :: "Config \<Rightarrow> string \<Rightarrow> string \<Rightarrow> string" where
  "config_get kv key def = (case map_of kv (to_lower key) of None \<Rightarrow> def | Some v \<Rightarrow> v)"

definition get_int :: "Config \<Rightarrow> string \<Rightarrow> int \<Rightarrow> int" where
  "get_int kv key def =
     (let v = config_get kv key [] in
      if v = [] then def else (case stoi v of Some n \<Rightarrow> n | None \<Rightarrow> def))"

definition get_u32 :: "Config \<Rightarrow> string \<Rightarrow> u32 \<Rightarrow> u32" where
  "get_u32 kv key def =
     (let v = config_get kv key [] in
      if v = [] then def else (case stoul v of Some n \<Rightarrow> ucast n | None \<Rightarrow> def))"

definition get_bool :: "Config \<Rightarrow> string \<Rightarrow> bool \<Rightarrow> bool" where
  "get_bool kv key def =
     (let v = to_lower (config_get kv key []) in
      if v = [] then def
      else if v = ''1'' \<or> v = ''true'' \<or> v = ''yes'' \<or> v = ''on'' then True
      else if v = ''0'' \<or> v = ''false'' \<or> v = ''no'' \<or> v = ''off'' then False
      else def)"

definition config_set :: "string \<Rightarrow> string \<Rightarrow> Config \<Rightarrow> Config" where
  "config_set k v kv = AList.update (to_lower k) v kv"

text \<open>The loop of \<open>main\<close> over its arguments; \<^const>\<open>None\<close> when the usage is printed.\<close>

fun main_args :: "(string \<Rightarrow> int) \<Rightarrow> string list \<Rightarrow> string \<times> string \<times> int \<Rightarrow> (string \<times> string \<times> int) option" where
  "main_args atoi [] opts = Some opts"
| "main_args atoi (a # as) (path, host, port) =
     (if a = ''--help'' \<or> a = ''-h'' then None
      else
        (case as of
           [] \<Rightarrow> Some (path, host, port)
         | b # bs \<Rightarrow>
             if a = ''--config'' then main_args atoi bs (b, host, port)
             else if a = ''--listen'' then main_args atoi bs (path, b, port)
             else if a = ''--port'' then main_args atoi bs (path, host, atoi b)
             else main_args atoi as (path, host, port)))"

definition main_config :: "(string \<Rightarrow> string option) \<Rightarrow> (string \<Rightarrow> string option) \<Rightarrow> string \<times> string \<times> int \<Rightarrow> Config" where
  "main_config files getenv opts =
     (let (path, host, port) = opts;
          cfg = (if path \<noteq> [] then snd (load_file (files path) []) else []);
          cfg = overlay_env getenv cfg;
          cfg = (if host \<noteq> [] then config_set ''listen_host'' host cfg else cfg)
      in if 0 < port then config_set ''listen_port'' (show_nat (nat port)) cfg else cfg)"

subsection \<open>Log levels\<close>

datatype LogLevel = Trace | Debug | Info | Warn | Error

fun level_num :: "LogLevel \<Rightarrow> nat" where
  "level_num Trace = 0" | "level_num Debug = 1" | "level_num Info = 2" | "level_num Warn = 3" | "level_num Error = 4"

definition parse_level :: "string \<Rightarrow> LogLevel" where
  "parse_level s =
     (let l = to_lower s in
      if l = ''trace'' then Trace
      else if l = ''debug'' then Debug
      else if l = ''info'' then Info
      else if l = ''warn'' \<or> l = ''warning'' then Warn
      else if l = ''error'' \<or> l = ''err'' then Error
      else Info)"

section \<open>Lines\<close>

lemma getlines_line: "CHR 0x0A \<notin> set l \<Longrightarrow> getlines (l @ CHR 0x0A # s) = l # getlines s"
  by (subst getlines.simps) (simp add: takeWhile_tail dropWhile_append)

lemma getlines_Nil [simp]: "getlines [] = []"
  by (simp add: getlines.simps)

text \<open>The setting on a line, if there is one.\<close>

definition setting :: "string \<Rightarrow> (string \<times> string) option" where
  "setting line =
     (let t = trim line in
      if t = [] \<or> hd t = CHR ''#'' \<or> CHR ''='' \<notin> set t then None
      else Some (to_lower (trim (takeWhile (\<lambda>c. c \<noteq> CHR ''='') t)), trim (tl (dropWhile (\<lambda>c. c \<noteq> CHR ''='') t))))"

lemma load_line_setting: "load_line line kv = (case setting line of None \<Rightarrow> kv | Some (k, v) \<Rightarrow> AList.update k v kv)"
proof (cases "CHR ''='' \<in> set (trim line)")
  case True
  let ?x = "takeWhile (\<lambda>c. c \<noteq> CHR ''='') (trim line)" and ?y = "dropWhile (\<lambda>c. c \<noteq> CHR ''='') (trim line)"
  have "?y \<noteq> []" using True by (simp add: dropWhile_eq_Nil_conv)
  moreover from this have "hd ?y = CHR ''=''" using hd_dropWhile [of "\<lambda>c. c \<noteq> CHR ''=''" "trim line"] by blast
  ultimately have eq: "trim line = ?x @ CHR ''='' # tl ?y" by (metis list.collapse takeWhile_dropWhile_id)
  have "CHR ''='' \<notin> set ?x" by (auto dest: set_takeWhileD)
  then have "str_find (trim line) (CHR ''='') 0 = Some (length ?x)"
    using str_find_append [of "[]" 0 "CHR ''=''" ?x "tl ?y"] eq by simp
  moreover have "take (length ?x) (trim line) = ?x" "drop (length ?x + 1) (trim line) = tl ?y"
    by (subst eq, simp)+
  ultimately show ?thesis using True by (simp add: load_line_def setting_def Let_def)
next
  case False
  then have "str_find (trim line) (CHR ''='') 0 = None"
    using str_find_SomeD [of "trim line" "CHR ''=''" 0] by (cases "str_find (trim line) (CHR ''='') 0") auto
  with False show ?thesis by (simp add: load_line_def setting_def Let_def)
qed

lemma load_lines_lookup:
  "map_of (fold load_line ls kv) k = (case map_of (rev (List.map_filter setting ls)) k of Some v \<Rightarrow> Some v | None \<Rightarrow> map_of kv k)"
proof (induction ls arbitrary: kv)
  case (Cons l ls)
  have "map_of (fold load_line (l # ls) kv) k =
      (case map_of (rev (List.map_filter setting ls)) k of Some v \<Rightarrow> Some v | None \<Rightarrow> map_of (load_line l kv) k)"
    by (simp add: Cons.IH)
  moreover have "map_of (load_line l kv) k =
      (case setting l of None \<Rightarrow> map_of kv k | Some (k', v) \<Rightarrow> if k = k' then Some v else map_of kv k)"
    by (simp add: load_line_setting map_of_update_iff split: option.split)
  ultimately show ?case
    by (cases "setting l") (auto simp del: fold_Cons simp: map_filter_simps map_add_def split: option.split)
qed (simp add: map_filter_simps)

lemma overlay_lookup:
  "map_of (fold (overlay_key getenv) ks kv) k =
     (if k \<in> set ks \<and> getenv (c_str (to_upper k)) \<noteq> None then getenv (c_str (to_upper k)) else map_of kv k)"
proof (induction ks arbitrary: kv)
  case (Cons a ks)
  have "map_of (overlay_key getenv a kv) k =
      (if k = a \<and> getenv (c_str (to_upper k)) \<noteq> None then getenv (c_str (to_upper k)) else map_of kv k)"
    by (auto simp: overlay_key_def map_of_update_iff split: option.split)
  then show ?case unfolding fold_Cons comp_def Cons.IH by auto
qed simp

text \<open>What a file and the environment set.\<close>

definition file_setting :: "string option \<Rightarrow> string \<Rightarrow> string option" where
  "file_setting cf k = (case cf of None \<Rightarrow> None | Some content \<Rightarrow> map_of (rev (List.map_filter setting (getlines content))) k)"

lemma load_file_lookup: "map_of (snd (load_file cf [])) k = file_setting cf k"
  by (simp add: load_file_def file_setting_def load_lines_lookup split: option.split)

lemma keys_iff: "k \<in> fst ` set kv \<longleftrightarrow> map_of kv k \<noteq> None"
  using map_of_isSome_iff [of kv k] by simp

lemma to_lower_idem [simp]: "to_lower (to_lower s) = to_lower s"
  by (simp add: to_lower_def)

section \<open>Properties\<close>

text \<open>
  C38. Where a setting comes from: the command line wins over the environment, the environment over
  the file, and of several lines of the file the last one counts. The name is looked up
  without regard to case, in the environment in upper case, and there only if the file sets it
  or it is one of the well-known names. Settings that nothing gives have the default.
\<close>

theorem config_precedence:
  "config_get (main_config files getenv (path, host, port)) key def =
     (let k = to_lower key;
          cf = (if path = [] then None else files path);
          env = (if file_setting cf k \<noteq> None \<or> k \<in> set well_known then getenv (c_str (to_upper k)) else None)
      in if k = ''listen_port'' \<and> 0 < port then show_nat (nat port)
         else if k = ''listen_host'' \<and> host \<noteq> [] then host
         else case env of Some v \<Rightarrow> v | None \<Rightarrow> (case file_setting cf k of Some v \<Rightarrow> v | None \<Rightarrow> def))"
proof -
  define cf where "cf = (if path = [] then None else files path)"
  define cfg where "cfg = (if path \<noteq> [] then snd (load_file (files path) []) else [])"
  have cfg: "map_of cfg k = file_setting cf k" for k
    by (simp add: cfg_def cf_def load_file_lookup) (simp add: file_setting_def)
  have keys: "k \<in> fst ` set cfg \<longleftrightarrow> file_setting cf k \<noteq> None" for k
    using keys_iff [of k cfg] by (simp add: cfg)
  have lower: "to_lower ''listen_host'' = ''listen_host''" "to_lower ''listen_port'' = ''listen_port''"
    by (simp_all add: to_lower_def tolower_def Let_def)
  show ?thesis
    unfolding main_config_def config_get_def config_set_def lower split_conv Let_def cfg_def [symmetric] cf_def [symmetric]
    by (auto simp: overlay_env_def overlay_lookup keys cfg map_of_update_iff split: option.split)
qed

theorem config_precedence_witness:
  "config_get (main_config (\<lambda>f. Some (''Log_Level = warn'' @ [CHR 0x0A] @ ''log_level=debug''))
      (\<lambda>k. if k = ''LISTEN_HOST'' then Some ''::1'' else None) (''server.conf'', ''0.0.0.0'', -1)) ''LOG_LEVEL'' ''info'' = ''debug'' \<and>
   config_get (main_config (\<lambda>f. None) (\<lambda>k. if k = ''LISTEN_HOST'' then Some ''::1'' else None) (''server.conf'', [], -1))
      ''listen_host'' ''127.0.0.1'' = ''::1''"
  unfolding config_precedence by code_simp

text \<open>
  Numbers of the configuration: a decimal number is read back by \<open>get_int\<close> when it fits an \<open>int\<close>
  and by \<open>get_u32\<close> modulo \<open>2 ^ 32\<close>; a text without digits gives the default. A minus sign is
  accepted for unsigned settings and wraps around.
\<close>

theorem config_numbers:
  assumes "map_of kv (to_lower key) = Some v"
  shows "(v = show_nat n \<and> n < 2 ^ 31 \<longrightarrow> get_int kv key d = int n) \<and>
    (v = show_nat n \<and> n < 2 ^ 64 \<longrightarrow> get_u32 kv key e = word_of_nat n) \<and>
    (v = CHR ''-'' # show_nat n \<and> n < 2 ^ 64 \<longrightarrow> get_u32 kv key e = - word_of_nat n) \<and>
    (strto v = None \<longrightarrow> get_int kv key d = d \<and> get_u32 kv key e = e)"
proof -
  have g: "config_get kv key [] = v" using assms by (simp add: config_get_def)
  have "ucast (word_of_int k :: u64) = (word_of_int k :: u32)" for k
    by (rule bit_word_eqI) (simp add: bit_simps)
  from this [of "int n"] this [of "- int n"]
  have u: "ucast (word_of_nat n :: u64) = (word_of_nat n :: u32)" "ucast (- word_of_nat n :: u64) = (- word_of_nat n :: u32)"
    by simp_all
  have neg: "strto (CHR ''-'' # show_nat n) = Some (True, n)"
    by (simp add: strto_def Let_def isspace_def)
  show ?thesis
    using strto_show_nat [of "[]" n] neg u
    by (auto simp: get_int_def get_u32_def g Let_def stoi_def stoul_def signed_of_def)
qed

theorem config_numbers_witness:
  "get_int [(''worker_threads'', ''8'')] ''Worker_Threads'' 1 = 8 \<and> get_u32 [(''worker_threads'', ''-1'')] ''worker_threads'' 0 = 0xFFFFFFFF"
proof -
  have s: "show_nat 8 = ''8''" "show_nat 1 = ''1''" by (simp_all add: show_nat.simps digit_char_def char_of_def bit_0)
  have l: "to_lower ''Worker_Threads'' = ''worker_threads''" "to_lower ''worker_threads'' = ''worker_threads''" by code_simp+
  have "get_int [(''worker_threads'', ''8'')] ''Worker_Threads'' 1 = int 8"
    using config_numbers [of "[(''worker_threads'', ''8'')]" "''Worker_Threads''" "''8''" 8 1] by (simp add: s l)
  moreover have "get_u32 [(''worker_threads'', ''-1'')] ''worker_threads'' 0 = - word_of_nat 1"
    using config_numbers [of "[(''worker_threads'', ''-1'')]" "''worker_threads''" "''-1''" 1 0 0] by (simp add: s s(2) [simplified] l)
  ultimately show ?thesis by simp
qed

text \<open>
  A comment at the end of a line is part of the value. Two lines of the example configuration that
  the repository ships have one, and the name of the log file it sets is the comment.
\<close>

lemma example_log_file:
  "setting ''log_file  =             # empty = stderr'' = Some (''log_file'', ''# empty = stderr'')"
  by code_simp

text \<open>The levels have their names, in any case, and a name that is not known means \<open>info\<close>.\<close>

lemma parse_level_names:
  "parse_level ''TRACE'' = Trace" "parse_level ''debug'' = Debug" "parse_level ''Info'' = Info" "parse_level ''warning'' = Warn"
  "parse_level ''err'' = Error" "parse_level ''info        # trace | debug | info | warn | error'' = Info"
  by code_simp+

end
