(* ===== verification/Thread_Pool.thy ===== *)
theory Thread_Pool
  imports Chat_Prelude "HOL-Library.Multiset"
begin

text \<open>
  \<open>src/src/common/thread_pool.cpp\<close>: the queue, the worker loop and the shutdown, with the threads
  interleaved at the granularity of the mutex and the condition variable.

  A worker is where its thread stands. The mutex \<open>mu_\<close> is held by the worker that is
  evaluating the predicate of \<open>cv_.wait\<close>, about to block, or about to take a job; \<open>wait\<close> blocks and
  releases the mutex in one step, and a worker that is woken up starts again by locking. The
  flag \<open>stopping_\<close> is atomic and is not protected by the mutex. \<open>submit\<close> holds the mutex for one
  step and notifies after it, so that calls of \<open>notify_one\<close> can be outstanding. \<open>shutdown\<close> is three
  steps: the store, \<open>notify_all\<close>, and the joins, which wait for every worker.

  The lists of accepted, started and finished jobs are history, which the code does not keep.
\<close>

section \<open>The code\<close>

datatype 'j worker = WLock | WPred | WSleep | WWait | WTake | WRun 'j | WDone

datatype stage = Running | Stored | Notified | Joined

record 'j ThreadPool =
  jobs :: "'j list"
  stopping :: bool
  workers :: "'j worker list"
  to_notify :: nat
  stage :: stage
  accepted_jobs :: "'j list"
  started_jobs :: "'j list"
  finished_jobs :: "'j list"

definition ThreadPool_new :: "nat \<Rightarrow> 'j ThreadPool" where
  "ThreadPool_new n =
     \<lparr>jobs = [], stopping = False, workers = replicate (if n = 0 then 1 else n) WLock, to_notify = 0, stage = Running,
      accepted_jobs = [], started_jobs = [], finished_jobs = []\<rparr>"

definition holds_mutex :: "'j worker \<Rightarrow> bool" where
  "holds_mutex w = (case w of WPred \<Rightarrow> True | WSleep \<Rightarrow> True | WTake \<Rightarrow> True | _ \<Rightarrow> False)"

definition mutex_free :: "'j ThreadPool \<Rightarrow> bool" where
  "mutex_free p = list_all (\<lambda>w. \<not> holds_mutex w) (workers p)"

definition submit :: "'j \<Rightarrow> 'j ThreadPool \<Rightarrow> bool \<times> 'j ThreadPool" where
  "submit j p =
     (if stopping p then (False, p)
      else (True, p\<lparr>jobs := jobs p @ [j], to_notify := Suc (to_notify p), accepted_jobs := accepted_jobs p @ [j]\<rparr>))"

definition pending :: "'j ThreadPool \<Rightarrow> nat" where
  "pending p = length (jobs p)"

text \<open>\<open>cv_.notify_one ()\<close> wakes the waiting worker \<open>i\<close>, or nobody when nobody waits.\<close>

definition notify_one :: "nat option \<Rightarrow> 'j ThreadPool \<Rightarrow> 'j ThreadPool option" where
  "notify_one i p =
     (if to_notify p = 0 then None
      else
        (case i of
           None \<Rightarrow> if WWait \<in> set (workers p) then None else Some (p\<lparr>to_notify := to_notify p - 1\<rparr>)
         | Some k \<Rightarrow>
             if k < length (workers p) \<and> workers p ! k = WWait
             then Some (p\<lparr>to_notify := to_notify p - 1, workers := (workers p)[k := WLock]\<rparr>) else None))"

definition shutdown_store :: "'j ThreadPool \<Rightarrow> 'j ThreadPool" where
  "shutdown_store p = p\<lparr>stopping := True, stage := Stored\<rparr>"

definition shutdown_notify :: "'j ThreadPool \<Rightarrow> 'j ThreadPool" where
  "shutdown_notify p = p\<lparr>workers := map (\<lambda>w. if w = WWait then WLock else w) (workers p), stage := Notified\<rparr>"

definition shutdown_join :: "'j ThreadPool \<Rightarrow> 'j ThreadPool" where
  "shutdown_join p = p\<lparr>stage := Joined\<rparr>"

text \<open>One step of the loop of worker \<open>k\<close>; \<^const>\<open>None\<close> when it cannot move.\<close>

definition worker_loop :: "nat \<Rightarrow> 'j ThreadPool \<Rightarrow> 'j ThreadPool option" where
  "worker_loop k p =
     (case workers p ! k of
        WLock \<Rightarrow> if mutex_free p then Some (p\<lparr>workers := (workers p)[k := WPred]\<rparr>) else None
      | WPred \<Rightarrow> Some (p\<lparr>workers := (workers p)[k := if stopping p \<or> jobs p \<noteq> [] then WTake else WSleep]\<rparr>)
      | WSleep \<Rightarrow> Some (p\<lparr>workers := (workers p)[k := WWait]\<rparr>)
      | WWait \<Rightarrow> None
      | WTake \<Rightarrow>
          (case jobs p of
             [] \<Rightarrow> Some (p\<lparr>workers := (workers p)[k := if stopping p then WDone else WLock]\<rparr>)
           | j # js \<Rightarrow>
               Some (p\<lparr>jobs := js, workers := (workers p)[k := WRun j], started_jobs := started_jobs p @ [j]\<rparr>))
      | WRun j \<Rightarrow> Some (p\<lparr>workers := (workers p)[k := WLock], finished_jobs := finished_jobs p @ [j]\<rparr>)
      | WDone \<Rightarrow> None)"

section \<open>Runs\<close>

inductive pool_step :: "'j ThreadPool \<Rightarrow> 'j ThreadPool \<Rightarrow> bool" where
  submitted: "mutex_free p \<Longrightarrow> \<not> stopping p \<Longrightarrow> pool_step p (snd (submit j p))"
| notified: "notify_one i p = Some p' \<Longrightarrow> pool_step p p'"
| works: "k < length (workers p) \<Longrightarrow> worker_loop k p = Some p' \<Longrightarrow> pool_step p p'"
| stores: "stage p = Running \<Longrightarrow> pool_step p (shutdown_store p)"
| notifies: "stage p = Stored \<Longrightarrow> pool_step p (shutdown_notify p)"
| joins: "stage p = Notified \<Longrightarrow> list_all (\<lambda>w. w = WDone) (workers p) \<Longrightarrow> pool_step p (shutdown_join p)"

text \<open>A wait may also end without a reason.\<close>

inductive pool_reaches :: "'j ThreadPool \<Rightarrow> 'j ThreadPool \<Rightarrow> bool" for p0 where
  begins: "pool_reaches p0 p0"
| steps: "pool_reaches p0 p \<Longrightarrow> pool_step p p' \<Longrightarrow> pool_reaches p0 p'"
| spurious: "pool_reaches p0 p \<Longrightarrow> k < length (workers p) \<Longrightarrow> workers p ! k = WWait \<Longrightarrow>
    pool_reaches p0 (p\<lparr>workers := (workers p)[k := WLock]\<rparr>)"

section \<open>The invariant\<close>

fun running :: "'j worker list \<Rightarrow> 'j multiset" where
  "running [] = {#}"
| "running (WRun j # ws) = add_mset j (running ws)"
| "running (w # ws) = running ws"

definition awake :: "'j worker \<Rightarrow> bool" where
  "awake w \<longleftrightarrow> w \<noteq> WWait \<and> w \<noteq> WDone"

definition pool_inv :: "'j ThreadPool \<Rightarrow> bool" where
  "pool_inv p \<longleftrightarrow>
     workers p \<noteq> [] \<and>
     accepted_jobs p = started_jobs p @ jobs p \<and>
     mset (started_jobs p) = mset (finished_jobs p) + running (workers p) \<and>
     (WDone \<in> set (workers p) \<longrightarrow> stopping p \<and> jobs p = []) \<and>
     (WSleep \<in> set (workers p) \<longrightarrow> jobs p = []) \<and>
     (jobs p \<noteq> [] \<longrightarrow> 0 < to_notify p \<or> (\<exists>w\<in>set (workers p). awake w)) \<and>
     (stage p = Running \<longleftrightarrow> \<not> stopping p) \<and>
     (stage p = Joined \<longrightarrow> list_all (\<lambda>w. w = WDone) (workers p))"

lemma running_append [simp]: "running (xs @ ys) = running xs + running ys"
  by (induction xs rule: running.induct) auto

lemma running_update:
  assumes "k < length ws"
  shows "running (ws[k := w]) + running [ws ! k] = running ws + running [w]"
proof -
  have "ws = take k ws @ ws ! k # drop (Suc k) ws" by (rule id_take_nth_drop [OF assms])
  then have "running ws = running (take k ws) + running [ws ! k] + running (drop (Suc k) ws)"
    by (metis append_Cons append_Nil running_append union_assoc)
  moreover have "running (ws[k := w]) = running (take k ws) + running [w] + running (drop (Suc k) ws)"
    using assms by (simp add: upd_conv_take_nth_drop) (metis append_Cons append_Nil running_append)
  ultimately show ?thesis by (simp add: ac_simps)
qed

lemma running_wake: "running (map (\<lambda>w. if w = WWait then WLock else w) ws) = running ws"
  by (induction ws rule: running.induct) auto

lemma mem_update: "k < length ws \<Longrightarrow> x \<in> set (ws[k := w]) \<Longrightarrow> x = w \<or> x \<in> set ws"
  using set_update_subset_insert [of ws k w] by auto

lemma set_update_same: "k < length ws \<Longrightarrow> w \<in> set (ws[k := w])"
  by (simp add: set_update_memI)

lemma pool_inv_new: "pool_inv (ThreadPool_new n)"
proof -
  have "running (replicate m WLock) = {#}" for m by (induction m) simp_all
  then show ?thesis by (auto simp: pool_inv_def ThreadPool_new_def)
qed

text \<open>A worker that moves, when the queue stays as it is.\<close>

lemma pool_inv_move:
  assumes "pool_inv p" and "k < length (workers p)" and "running [workers p ! k] = running [w]" and "stage p \<noteq> Joined"
    and "w = WDone \<Longrightarrow> stopping p \<and> jobs p = []" and "w = WSleep \<or> w = WWait \<Longrightarrow> jobs p = []"
  shows "pool_inv (p\<lparr>workers := (workers p)[k := w]\<rparr>)"
proof -
  have r: "running ((workers p)[k := w]) = running (workers p)"
    using running_update [OF assms(2), of w] assms(3) by simp
  have aw: "awake w" if "jobs p \<noteq> []" using assms(5,6) that by (auto simp: awake_def)
  let ?ws = "(workers p)[k := w]"
  have "WDone \<in> set ?ws \<Longrightarrow> stopping p \<and> jobs p = []" "WSleep \<in> set ?ws \<Longrightarrow> jobs p = []"
    using assms(1,5,6) mem_update [OF assms(2), of WDone w] mem_update [OF assms(2), of WSleep w] by (auto simp: pool_inv_def)
  moreover have "\<exists>x\<in>set ?ws. awake x" if "jobs p \<noteq> []" using aw [OF that] set_update_same [OF assms(2), of w] by blast
  moreover have "?ws \<noteq> []" using assms(2) by auto
  ultimately show ?thesis using assms(1,4) r unfolding pool_inv_def by simp
qed

lemma not_joined: "pool_inv p \<Longrightarrow> k < length (workers p) \<Longrightarrow> workers p ! k \<noteq> WDone \<Longrightarrow> stage p \<noteq> Joined"
  by (auto simp: pool_inv_def list_all_length)

lemma wake_inv:
  "pool_inv p \<Longrightarrow> k < length (workers p) \<Longrightarrow> workers p ! k = WWait \<Longrightarrow> pool_inv (p\<lparr>workers := (workers p)[k := WLock]\<rparr>)"
  by (rule pool_inv_move) (auto dest: not_joined)

lemma worker_inv:
  assumes "pool_inv p" and "k < length (workers p)" and "worker_loop k p = Some p'"
  shows "pool_inv p'"
proof (cases "workers p ! k")
  case WTake
  show ?thesis
  proof (cases "jobs p")
    case Nil
    with WTake assms show ?thesis
      by (cases "stopping p") (auto simp: worker_loop_def intro!: pool_inv_move dest: not_joined)
  next
    case (Cons j js)
    have r: "running ((workers p)[k := WRun j]) = add_mset j (running (workers p))"
      using running_update [OF assms(2), of "WRun j"] WTake by simp
    have p': "p' = p\<lparr>jobs := js, workers := (workers p)[k := WRun j], started_jobs := started_jobs p @ [j]\<rparr>"
      using assms(3) WTake Cons by (simp add: worker_loop_def)
    have "\<exists>w\<in>set ((workers p)[k := WRun j]). awake w"
      using set_update_same [OF assms(2), of "WRun j"] by (auto simp: awake_def)
    moreover have "WDone \<notin> set ((workers p)[k := WRun j])" "WSleep \<notin> set ((workers p)[k := WRun j])"
      using assms(1) Cons mem_update [OF assms(2), of _ "WRun j"] by (auto simp: pool_inv_def)
    moreover have "stage p \<noteq> Joined" using not_joined [OF assms(1,2)] WTake by simp
    ultimately show ?thesis using assms(1) Cons r by (auto simp: pool_inv_def p')
  qed
next
  case (WRun j)
  let ?p = "p\<lparr>finished_jobs := finished_jobs p @ [j]\<rparr>"
  have r: "add_mset j (running ((workers p)[k := WLock])) = running (workers p)"
    using running_update [OF assms(2), of WLock] WRun by simp
  have "stage p \<noteq> Joined" using not_joined [OF assms(1,2)] WRun by simp
  moreover have "\<exists>w\<in>set ((workers p)[k := WLock]). awake w"
    using set_update_same [OF assms(2), of WLock] by (auto simp: awake_def)
  moreover have "\<forall>x\<in>set ((workers p)[k := WLock]). x = WLock \<or> x \<in> set (workers p)"
    using mem_update [OF assms(2)] by blast
  moreover have "p' = p\<lparr>workers := (workers p)[k := WLock], finished_jobs := finished_jobs p @ [j]\<rparr>"
    using assms(3) WRun by (simp add: worker_loop_def)
  ultimately show ?thesis using assms(1) r [symmetric] by (fastforce simp: pool_inv_def)
next
  case WLock
  with assms show ?thesis by (auto simp: worker_loop_def split: if_splits intro!: pool_inv_move dest: not_joined)
next
  case WPred
  with assms show ?thesis by (auto simp: worker_loop_def split: if_splits intro!: pool_inv_move dest: not_joined)
next
  case WSleep
  then have "jobs p = []" using assms(1,2) nth_mem by (fastforce simp: pool_inv_def)
  with WSleep assms show ?thesis by (auto simp: worker_loop_def intro!: pool_inv_move dest: not_joined)
qed (use assms(3) in \<open>simp_all add: worker_loop_def\<close>)

lemma pool_step_inv:
  assumes "pool_inv p" and "pool_step p p'"
  shows "pool_inv p'"
  using assms(2)
proof cases
  case (submitted j)
  then have "WSleep \<notin> set (workers p)" "WDone \<notin> set (workers p)"
    using assms(1) by (auto simp: mutex_free_def list_all_iff holds_mutex_def pool_inv_def)
  with submitted assms(1) show ?thesis by (auto simp: submit_def pool_inv_def)
next
  case (notified i)
  show ?thesis
  proof (cases i)
    case None
    with notified have "WWait \<notin> set (workers p)" and p': "p' = p\<lparr>to_notify := to_notify p - 1\<rparr>"
      by (auto simp: notify_one_def split: if_splits)
    have "\<exists>w\<in>set (workers p). awake w" if "jobs p \<noteq> []"
    proof
      show "hd (workers p) \<in> set (workers p)" using assms(1) by (simp add: pool_inv_def)
      moreover have "WDone \<notin> set (workers p)" using assms(1) that by (auto simp: pool_inv_def)
      ultimately show "awake (hd (workers p))" using \<open>WWait \<notin> set (workers p)\<close> by (metis awake_def)
    qed
    with assms(1) show ?thesis by (auto simp: pool_inv_def p')
  next
    case (Some k)
    with notified have k: "k < length (workers p)" "workers p ! k = WWait"
      and p': "p' = p\<lparr>to_notify := to_notify p - 1, workers := (workers p)[k := WLock]\<rparr>"
      by (auto simp: notify_one_def split: if_splits)
    have "\<exists>w\<in>set ((workers p)[k := WLock]). awake w"
      using set_update_same [OF k(1), of WLock] by (auto simp: awake_def)
    with wake_inv [OF assms(1) k] show ?thesis by (auto simp: pool_inv_def p')
  qed
next
  case (works k)
  then show ?thesis using worker_inv [OF assms(1)] by blast
next
  case stores
  with assms(1) show ?thesis by (auto simp: pool_inv_def shutdown_store_def)
next
  case notifies
  let ?ws = "map (\<lambda>w. if w = WWait then WLock else w) (workers p)"
  have "\<exists>x\<in>set ?ws. awake x" if "\<exists>w\<in>set (workers p). awake w"
    using that by (force simp: awake_def)
  moreover have "WDone \<in> set ?ws \<Longrightarrow> WDone \<in> set (workers p)" "WSleep \<in> set ?ws \<Longrightarrow> WSleep \<in> set (workers p)"
    by (auto split: if_splits)
  ultimately show ?thesis
    using notifies assms(1) running_wake [of "workers p"] unfolding pool_inv_def shutdown_notify_def by (simp del: set_map) blast
next
  case joins
  with assms(1) show ?thesis by (auto simp: pool_inv_def shutdown_join_def)
qed

lemma pool_reaches_inv: "pool_reaches p0 p \<Longrightarrow> pool_inv p0 \<Longrightarrow> pool_inv p"
  by (induction rule: pool_reaches.induct) (auto intro: pool_step_inv wake_inv)

section \<open>Properties\<close>

text \<open>
  C36. The pool is a queue: whatever the threads do, jobs are taken in the order in which they were
  accepted, each once, and a job that was taken is running or finished. While jobs wait, some
  worker is awake or is about to be notified, so that no job is forgotten. When
  \<open>shutdown\<close> returns, every accepted job has been run to its end.
\<close>

theorem pool_runs_jobs:
  assumes "pool_reaches (ThreadPool_new n) p"
  shows "accepted_jobs p = started_jobs p @ jobs p \<and>
    mset (started_jobs p) = mset (finished_jobs p) + running (workers p) \<and>
    (jobs p \<noteq> [] \<longrightarrow> 0 < to_notify p \<or> (\<exists>w\<in>set (workers p). awake w)) \<and>
    (stage p = Joined \<longrightarrow> jobs p = [] \<and> mset (finished_jobs p) = mset (accepted_jobs p))"
proof -
  have inv: "pool_inv p" by (rule pool_reaches_inv [OF assms pool_inv_new])
  have "jobs p = [] \<and> running (workers p) = {#}" if "stage p = Joined"
  proof -
    from inv that have fin: "list_all (\<lambda>w. w = WDone) (workers p)" and "workers p \<noteq> []" by (auto simp: pool_inv_def)
    then have "WDone \<in> set (workers p)" by (cases "workers p") auto
    moreover have "list_all (\<lambda>w. w = WDone) ws \<Longrightarrow> running ws = {#}" for ws :: "'a worker list"
      by (induction ws) auto
    ultimately show ?thesis using inv fin by (simp add: pool_inv_def)
  qed
  with inv show ?thesis by (auto simp: pool_inv_def)
qed

theorem pool_runs_jobs_witness:
  "let p = snd (submit (7 :: nat) (ThreadPool_new 2)) in accepted_jobs p = started_jobs p @ jobs p \<and> jobs p = [7]"
proof -
  let ?p = "snd (submit (7 :: nat) (ThreadPool_new 2))"
  have "pool_reaches (ThreadPool_new 2) ?p"
    by (rule pool_reaches.steps [OF pool_reaches.begins], rule pool_step.submitted)
      (simp_all add: ThreadPool_new_def mutex_free_def holds_mutex_def list_all_iff)
  from pool_runs_jobs [OF this] show ?thesis by (simp add: submit_def ThreadPool_new_def)
qed

text \<open>
  C37. \<open>shutdown\<close> can block for ever: it sets \<open>stopping_\<close> and notifies without holding the mutex, and a
  worker that has just found the predicate of \<open>wait\<close> false goes to sleep after the
  notification. No thread can move then, and the join does not return.
\<close>

theorem shutdown_can_hang:
  "\<exists>p. pool_reaches (ThreadPool_new 1) p \<and> stage p = Notified \<and> workers p = [WWait] \<and> (\<forall>p' :: nat ThreadPool. \<not> pool_step p p')"
proof -
  let ?new = "ThreadPool_new 1 :: nat ThreadPool"
  let ?stuck = "?new\<lparr>stopping := True, workers := [WWait], stage := Notified\<rparr>"
  note defs = ThreadPool_new_def worker_loop_def mutex_free_def holds_mutex_def shutdown_store_def shutdown_notify_def
  have "pool_reaches ?new (?new\<lparr>workers := [WPred]\<rparr>)"
    by (rule pool_reaches.steps [OF pool_reaches.begins], rule pool_step.works [of 0]) (simp_all add: defs)
  then have "pool_reaches ?new (?new\<lparr>workers := [WSleep]\<rparr>)"
    by (rule pool_reaches.steps, intro pool_step.works [of 0]) (simp_all add: defs)
  then have "pool_reaches ?new (shutdown_store (?new\<lparr>workers := [WSleep]\<rparr>))"
    by (rule pool_reaches.steps, intro pool_step.stores) (simp add: defs)
  then have "pool_reaches ?new (shutdown_notify (shutdown_store (?new\<lparr>workers := [WSleep]\<rparr>)))"
    by (rule pool_reaches.steps, intro pool_step.notifies) (simp add: defs)
  then have "pool_reaches ?new ?stuck"
    by (rule pool_reaches.steps, intro pool_step.works [of 0]) (simp_all add: defs)
  moreover have "\<not> pool_step ?stuck p'" for p'
    by (auto elim!: pool_step.cases simp: defs notify_one_def split: option.splits if_splits)
  ultimately show ?thesis by (intro exI [of _ ?stuck]) simp
qed

end
