(* ===== verification/Platform.thy ===== *)
theory Platform
  imports Connection Cxx_Std "HOL-Library.Multiset"
begin

text \<open>
  What the program asks of the system apart from the traffic of connections: \<open>Socket\<close>
  (\<open>src/src/net/socket.cpp\<close>), the descriptors of the two reactors and \<open>random_bytes\<close> of
  \<open>src/src/common/util.cpp\<close>, on POSIX.

  The state keeps the answers the kernel is going to give, the system calls that were made and the descriptors
  that are open. \<open>inet_pton\<close> and \<open>getaddrinfo\<close> are parameters.
\<close>

unbundle bit_operations_syntax

section \<open>The code\<close>

definition socket_valid :: "fd \<Rightarrow> bool" where
  "socket_valid s \<longleftrightarrow> 0 \<le> s"

definition CHAT_SOCKET_INVALID :: fd where
  "CHAT_SOCKET_INVALID = -1"

datatype sockopt = TCP_NODELAY | SO_REUSEADDR | SO_KEEPALIVE

datatype syscall =
    SysSocket | SysAccept fd | SysEpollCreate | SysEventfd
  | SysClose fd
  | SysGetfl fd | SysSetfl fd i32
  | SysSetsockopt fd sockopt bool
  | SysBind fd u32 u16 | SysGetsockname fd | SysListen fd int | SysConnect fd u32 u16
  | SysEpollAdd fd fd

record net =
  n_answers :: "nat \<Rightarrow> int"
  n_trace :: "syscall list"
  n_open :: "fd list"

definition sys :: "syscall \<Rightarrow> net \<Rightarrow> int \<times> net" where
  "sys c n = (n_answers n (length (n_trace n)), n\<lparr>n_trace := n_trace n @ [c]\<rparr>)"

text \<open>A call that returns a new descriptor, or a negative number.\<close>

definition sys_open :: "syscall \<Rightarrow> net \<Rightarrow> fd \<times> net" where
  "sys_open c n = (let (s, n) = sys c n in (s, if socket_valid s then n\<lparr>n_open := s # n_open n\<rparr> else n))"

definition socket_close :: "fd \<Rightarrow> net \<Rightarrow> net" where
  "socket_close s n = (let (_, n) = sys (SysClose s) n in n\<lparr>n_open := remove1 s (n_open n)\<rparr>)"

subsection \<open>Sockets\<close>

text \<open>\<open>Socket\<close> holds a descriptor or the invalid one.\<close>

definition Socket_close :: "fd \<Rightarrow> net \<Rightarrow> fd \<times> net" where
  "Socket_close s n = (if socket_valid s then (CHAT_SOCKET_INVALID, socket_close s n) else (s, n))"

definition Socket_release :: "fd \<Rightarrow> fd \<times> fd" where
  "Socket_release s = (s, CHAT_SOCKET_INVALID)"

text \<open>Assignment of another socket that is moved from: the new values of both.\<close>

definition Socket_assign :: "fd \<Rightarrow> fd \<Rightarrow> net \<Rightarrow> fd \<times> fd \<times> net" where
  "Socket_assign s other n = (other, CHAT_SOCKET_INVALID, snd (Socket_close s n))"

definition O_NONBLOCK :: i32 where "O_NONBLOCK = 0x800"

definition set_non_blocking :: "fd \<Rightarrow> bool \<Rightarrow> net \<Rightarrow> bool \<times> net" where
  "set_non_blocking s nb n =
     (let (flags, n) = sys (SysGetfl s) n
      in if flags < 0 then (False, n)
         else
           (let flags = (if nb then word_of_int flags OR O_NONBLOCK else word_of_int flags AND NOT O_NONBLOCK);
                (a, n) = sys (SysSetfl s flags) n
            in (a = 0, n)))"

definition setsockopt :: "fd \<Rightarrow> sockopt \<Rightarrow> bool \<Rightarrow> net \<Rightarrow> bool \<times> net" where
  "setsockopt s opt v n = (let (a, n) = sys (SysSetsockopt s opt v) n in (a = 0, n))"

definition set_no_delay :: "fd \<Rightarrow> bool \<Rightarrow> net \<Rightarrow> bool \<times> net" where
  "set_no_delay s v n = setsockopt s TCP_NODELAY v n"

definition set_reuse_addr :: "fd \<Rightarrow> bool \<Rightarrow> net \<Rightarrow> bool \<times> net" where
  "set_reuse_addr s v n = setsockopt s SO_REUSEADDR v n"

definition set_keepalive :: "fd \<Rightarrow> bool \<Rightarrow> net \<Rightarrow> bool \<times> net" where
  "set_keepalive s v n = setsockopt s SO_KEEPALIVE v n"

definition INADDR_ANY :: u32 where "INADDR_ANY = 0"
definition INADDR_LOOPBACK :: u32 where "INADDR_LOOPBACK = 0x7f000001"

definition listen_addr :: "(string \<Rightarrow> u32 option) \<Rightarrow> string \<Rightarrow> u32 option" where
  "listen_addr inet_pton host = (if host = [] \<or> host = ''0.0.0.0'' then Some INADDR_ANY else inet_pton (c_str host))"

definition listen_tcp :: "(string \<Rightarrow> u32 option) \<Rightarrow> string \<Rightarrow> u16 \<Rightarrow> int \<Rightarrow> net \<Rightarrow> fd \<times> net" where
  "listen_tcp inet_pton host port backlog n =
     (let (s, n) = sys_open SysSocket n
      in if \<not> socket_valid s then (CHAT_SOCKET_INVALID, n)
         else
           (let (_, n) = set_reuse_addr s True n
            in case listen_addr inet_pton host of
                 None \<Rightarrow> (CHAT_SOCKET_INVALID, socket_close s n)
               | Some addr \<Rightarrow>
                   (let (a, n) = sys (SysBind s addr port) n
                    in if a \<noteq> 0 then (CHAT_SOCKET_INVALID, socket_close s n)
                       else
                         (let (a, n) = sys (SysListen s backlog) n
                          in if a \<noteq> 0 then (CHAT_SOCKET_INVALID, socket_close s n)
                             else (let (_, n) = set_non_blocking s True n in (s, n))))))"

text \<open>\<open>resolve host port\<close> is the first address that \<open>getaddrinfo\<close> returns.\<close>

definition connect_tcp :: "(string \<Rightarrow> u16 \<Rightarrow> (u32 \<times> u16) option) \<Rightarrow> string \<Rightarrow> u16 \<Rightarrow> net \<Rightarrow> fd \<times> net" where
  "connect_tcp resolve host port n =
     (case resolve host port of
        None \<Rightarrow> (CHAT_SOCKET_INVALID, n)
      | Some (addr, p) \<Rightarrow>
          (let (s, n) = sys_open SysSocket n
           in if \<not> socket_valid s then (CHAT_SOCKET_INVALID, n)
              else
                (let (a, n) = sys (SysConnect s addr p) n
                 in if a \<noteq> 0 then (CHAT_SOCKET_INVALID, socket_close s n)
                    else (let (_, n) = set_no_delay s True n in (s, n)))))"

subsection \<open>The descriptors of the reactors\<close>

text \<open>
  \<open>make_wake_pair\<close> of \<open>SelectReactor\<close>; \<open>port_of\<close> is the port that \<open>getsockname\<close> reports. The result is the pair of
  the writing and the reading end.
\<close>

definition make_wake_pair :: "u16 \<Rightarrow> net \<Rightarrow> (fd \<times> fd) option \<times> net" where
  "make_wake_pair port_of n =
     (let (l, n) = sys_open SysSocket n
      in if \<not> socket_valid l then (None, n)
         else
           (let (_, n) = set_reuse_addr l True n; (a, n) = sys (SysBind l INADDR_LOOPBACK 0) n
            in if a \<noteq> 0 then (None, socket_close l n)
               else
                 (let (a, n) = sys (SysGetsockname l) n
                  in if a \<noteq> 0 then (None, socket_close l n)
                     else
                       (let (a, n) = sys (SysListen l 1) n
                        in if a \<noteq> 0 then (None, socket_close l n)
                           else
                             (let (c, n) = sys_open SysSocket n
                              in if \<not> socket_valid c then (None, socket_close l n)
                                 else
                                   (let (a, n) = sys (SysConnect c INADDR_LOOPBACK port_of) n
                                    in if a \<noteq> 0 then (None, socket_close c (socket_close l n))
                                       else
                                         (let (s, n) = sys_open (SysAccept l) n; n = socket_close l n
                                          in if \<not> socket_valid s then (None, socket_close c n)
                                             else
                                               (let (_, n) = set_non_blocking c True n; (_, n) = set_non_blocking s True n
                                                in (Some (c, s), n)))))))))"

text \<open>\<open>init\<close> of \<open>SelectReactor\<close>, on the members \<open>wake_r_\<close> and \<open>wake_w_\<close>.\<close>

definition select_init :: "u16 \<Rightarrow> net \<Rightarrow> bool \<times> fd \<times> fd \<times> net" where
  "select_init port_of n =
     (case make_wake_pair port_of n of
        (None, n) \<Rightarrow> (False, CHAT_SOCKET_INVALID, CHAT_SOCKET_INVALID, n)
      | (Some (c, s), n) \<Rightarrow> (True, s, c, n))"

text \<open>\<open>init\<close> and \<open>shutdown\<close> of \<open>EpollReactor\<close>, on the members \<open>epfd_\<close> and \<open>wake_fd_\<close>.\<close>

definition epoll_init :: "net \<Rightarrow> bool \<times> fd \<times> fd \<times> net" where
  "epoll_init n =
     (let (ep, n) = sys_open SysEpollCreate n
      in if ep < 0 then (False, ep, -1, n)
         else
           (let (wk, n) = sys_open SysEventfd n
            in if wk < 0 then (False, ep, wk, n)
               else (let (a, n) = sys (SysEpollAdd ep wk) n in (a = 0, ep, wk, n))))"

definition epoll_shutdown :: "fd \<Rightarrow> fd \<Rightarrow> net \<Rightarrow> fd \<times> fd \<times> net" where
  "epoll_shutdown ep wk n =
     (let n = (if 0 \<le> ep then socket_close ep n else n); n = (if 0 \<le> wk then socket_close wk n else n)
      in (if 0 \<le> ep then -1 else ep, if 0 \<le> wk then -1 else wk, n))"

definition select_shutdown :: "fd \<Rightarrow> fd \<Rightarrow> net \<Rightarrow> fd \<times> fd \<times> net" where
  "select_shutdown wr ww n =
     (let n = (if socket_valid wr then socket_close wr n else n); n = (if socket_valid ww then socket_close ww n else n)
      in (CHAT_SOCKET_INVALID, CHAT_SOCKET_INVALID, n))"

subsection \<open>Random bytes\<close>

text \<open>
  The loop over \<open>/dev/urandom\<close>: the results of \<open>read\<close>, where an empty one stands for an end or an error and a
  longer one is cut to what was asked for. \<open>gen\<close> gives the bytes of the generator that is used otherwise.
\<close>

fun urandom_loop :: "nat \<Rightarrow> u8 list list \<Rightarrow> u8 list \<Rightarrow> u8 list" where
  "urandom_loop k [] got = got"
| "urandom_loop k (b # bs) got =
     (if length got < k then if b = [] then got else urandom_loop k bs (got @ take (k - length got) b) else got)"

definition util_random_bytes :: "bool \<Rightarrow> u8 list list \<Rightarrow> (nat \<Rightarrow> u8) \<Rightarrow> nat \<Rightarrow> u8 list" where
  "util_random_bytes opened reads gen k =
     (let got = (if opened then urandom_loop k reads [] else [])
      in if opened \<and> length got = k then got else map gen [0..<k])"

section \<open>Descriptors\<close>

lemma sys_keeps [simp]: "n_open (snd (sys c n)) = n_open n" "n_answers (snd (sys c n)) = n_answers n"
  by (simp_all add: sys_def)

lemma open_of [simp]: "n_open (snd (sys_open c n)) = (if socket_valid (fst (sys_open c n)) then [fst (sys_open c n)] else []) @ n_open n"
  by (simp add: sys_open_def split_beta Let_def)

lemma close_of [simp]: "n_open (socket_close s n) = remove1 s (n_open n)"
  by (simp add: socket_close_def split_beta Let_def)

lemma options_keep [simp]:
  "n_open (snd (set_non_blocking s b n)) = n_open n" "n_open (snd (set_reuse_addr s b n)) = n_open n"
  "n_open (snd (set_no_delay s b n)) = n_open n"
  by (simp_all add: set_non_blocking_def set_reuse_addr_def set_no_delay_def setsockopt_def split_beta Let_def)

definition one_if_valid :: "fd \<Rightarrow> fd multiset" where
  "one_if_valid s = (if socket_valid s then {#s#} else {#})"

lemma invalid_socket [simp]: "\<not> socket_valid CHAT_SOCKET_INVALID"
  by (simp add: socket_valid_def CHAT_SOCKET_INVALID_def)

lemma listen_tcp_open:
  "mset (n_open (snd (listen_tcp inet_pton host port backlog n))) =
     one_if_valid (fst (listen_tcp inet_pton host port backlog n)) + mset (n_open n)"
  by (auto simp: listen_tcp_def one_if_valid_def split_beta Let_def split: option.split)

lemma connect_tcp_open:
  "mset (n_open (snd (connect_tcp resolve host port n))) =
     one_if_valid (fst (connect_tcp resolve host port n)) + mset (n_open n)"
  by (auto simp: connect_tcp_def one_if_valid_def split_beta Let_def split: option.split)

text \<open>
  C32. No descriptor is lost: whatever the system calls answer, \<open>listen_tcp\<close> and \<open>connect_tcp\<close> leave exactly one more
  descriptor open, the one they return, or none when they return the invalid one; \<open>make_wake_pair\<close>
  leaves its two ends open, or nothing.
\<close>

theorem no_descriptor_leak:
  "mset (n_open (snd (listen_tcp inet_pton host port backlog n))) =
     one_if_valid (fst (listen_tcp inet_pton host port backlog n)) + mset (n_open n) \<and>
   mset (n_open (snd (connect_tcp resolve host port n))) =
     one_if_valid (fst (connect_tcp resolve host port n)) + mset (n_open n) \<and>
   mset (n_open (snd (make_wake_pair port_of n))) =
     (case fst (make_wake_pair port_of n) of None \<Rightarrow> {#} | Some (c, s) \<Rightarrow> {#c, s#}) + mset (n_open n)"
  using listen_tcp_open [of inet_pton host port backlog n] connect_tcp_open [of resolve host port n]
  by (simp add: make_wake_pair_def split_beta Let_def)

text \<open>
  A listening socket was bound to the address and the port, made to listen and then made non-blocking,
  in that order; the answer to the last step is not looked at.
\<close>

lemma listen_tcp_trace:
  assumes "listen_tcp inet_pton host port backlog n = (s, n')" and "socket_valid s"
  shows "\<exists>addr fl. listen_addr inet_pton host = Some addr \<and>
    n_trace n' = n_trace n @ [SysSocket, SysSetsockopt s SO_REUSEADDR True, SysBind s addr port, SysListen s backlog, SysGetfl s] @ fl \<and>
    (fl = [] \<or> (\<exists>w. fl = [SysSetfl s (w OR O_NONBLOCK)]))"
proof -
  show ?thesis
    using assms
    by (auto simp: listen_tcp_def set_reuse_addr_def setsockopt_def set_non_blocking_def sys_def sys_open_def Let_def
        split: option.splits if_splits)
qed

text \<open>After \<open>shutdown\<close> of a reactor its descriptors are closed; a failed \<open>init\<close> of the epoll reactor leaves them to it.\<close>

lemma epoll_init_open:
  "mset (n_open (snd (snd (snd (epoll_init n))))) =
     one_if_valid (fst (snd (epoll_init n))) + one_if_valid (fst (snd (snd (epoll_init n)))) + mset (n_open n)"
  by (auto simp: epoll_init_def one_if_valid_def socket_valid_def split_beta Let_def)

lemma epoll_shutdown_open:
  "mset (n_open n) = one_if_valid ep + one_if_valid wk + M \<Longrightarrow> mset (n_open (snd (snd (epoll_shutdown ep wk n)))) = M"
  by (auto simp: epoll_shutdown_def one_if_valid_def socket_valid_def Let_def)

section \<open>Random bytes\<close>

lemma urandom_loop_eq:
  "length got \<le> k \<Longrightarrow> urandom_loop k reads got = got @ take (k - length got) (concat (takeWhile (\<lambda>b. b \<noteq> []) reads))"
proof (induction k reads got rule: urandom_loop.induct)
  case (2 k b bs got)
  show ?case
  proof (cases "length got < k \<and> b \<noteq> []")
    case True
    then have "urandom_loop k bs (got @ take (k - length got) b) =
        (got @ take (k - length got) b) @
          take (k - length (got @ take (k - length got) b)) (concat (takeWhile (\<lambda>b. b \<noteq> []) bs))"
      by (intro 2(1)) auto
    with True show ?thesis by simp (cases "length b \<le> k - length got"; simp)
  qed (use 2(2) in auto)
qed simp

text \<open>All bytes asked for are set, and they are those of the device if it delivers enough of them.\<close>

lemma util_random_bytes_correct:
  defines "bytes \<equiv> \<lambda>reads. concat (takeWhile (\<lambda>b. b \<noteq> []) reads)"
  shows "length (util_random_bytes opened reads gen k) = k"
    and "opened \<Longrightarrow> k \<le> length (bytes reads) \<Longrightarrow> util_random_bytes opened reads gen k = take k (bytes reads)"
    and "\<not> opened \<or> length (bytes reads) < k \<Longrightarrow> util_random_bytes opened reads gen k = map gen [0..<k]"
  using urandom_loop_eq [of "[]" k reads] by (auto simp: util_random_bytes_def Let_def bytes_def)

end
