(* ===== verification/Reactor.thy ===== *)
theory Reactor
  imports Connection "HOL-Library.Sublist"
begin

text \<open>
  The two reactors: \<open>EpollReactor\<close> (\<open>src/src/net/reactor_epoll.cpp\<close>) and \<open>SelectReactor\<close>
  (\<open>src/src/net/reactor_select.cpp\<close>).

  Callbacks and posted closures are values of the client of a reactor. What they do is a parameter:
  \<open>call cb mask w\<close> and \<open>fire fn w\<close> return the calls they make on the reactor, in order, and the state of
  the rest of the program. A call whose result the client does not look at is enough, since no client in the program
  does. What \<open>epoll_ctl\<close> answers comes from a stream: \<open>EPOLL_CTL_ADD\<close> fails on a
  descriptor that the kernel has, the other two fail on one it does not have, and any call may fail. What
  \<open>epoll_wait\<close> and \<open>select\<close> return, and the calls of other threads while they wait, are given to the loop.
\<close>

unbundle bit_operations_syntax

section \<open>The code\<close>

definition Read :: i32 where "Read = 1"
definition Write :: i32 where "Write = 2"

datatype ('cb, 'fn) call = RAdd fd i32 'cb | RModify fd i32 | RRemove fd | RPost 'fn | RStop

datatype 'a wait_result = Waited 'a | WaitErr errno

subsection \<open>The epoll back end\<close>

definition EPOLLIN :: u32 where "EPOLLIN = 0x001"
definition EPOLLPRI :: u32 where "EPOLLPRI = 0x002"
definition EPOLLOUT :: u32 where "EPOLLOUT = 0x004"
definition EPOLLERR :: u32 where "EPOLLERR = 0x008"
definition EPOLLHUP :: u32 where "EPOLLHUP = 0x010"
definition EPOLLRDHUP :: u32 where "EPOLLRDHUP = 0x2000"
definition EPOLLET :: u32 where "EPOLLET = 0x80000000"

record ('cb, 'fn) EpollReactor =
  wake_fd :: fd
  ep_stopping :: bool
  ep_cbs :: "(fd \<times> 'cb) list"
  ep_pending :: "'fn list"
  ep_interest :: "(fd \<times> u32) list"
  ep_answers :: "nat \<Rightarrow> bool"
  ep_calls :: nat

datatype ctl_op = CtlAdd | CtlMod | CtlDel

definition epoll_ctl :: "ctl_op \<Rightarrow> fd \<Rightarrow> u32 \<Rightarrow> ('cb, 'fn) EpollReactor \<Rightarrow> bool \<times> ('cb, 'fn) EpollReactor" where
  "epoll_ctl c s ev r =
     (let known = (map_of (ep_interest r) s \<noteq> None);
          ok = (ep_answers r (ep_calls r) \<and> known = (c \<noteq> CtlAdd));
          r = r\<lparr>ep_calls := ep_calls r + 1\<rparr>
      in if \<not> ok then (False, r)
         else (True, r\<lparr>ep_interest :=
                 (if c = CtlDel then AList.delete s (ep_interest r) else AList.update s ev (ep_interest r))\<rparr>))"

definition to_epoll :: "i32 \<Rightarrow> u32" where
  "to_epoll events =
     (if events AND Read \<noteq> 0 then EPOLLIN OR EPOLLRDHUP else 0) OR (if events AND Write \<noteq> 0 then EPOLLOUT else 0)"

definition epoll_add :: "fd \<Rightarrow> i32 \<Rightarrow> 'cb \<Rightarrow> ('cb, 'fn) EpollReactor \<Rightarrow> bool \<times> ('cb, 'fn) EpollReactor" where
  "epoll_add s events cb r =
     (let ev = to_epoll events OR EPOLLET;
          (ok, r) = epoll_ctl CtlAdd s ev r;
          (ok, r) = (if ok then (True, r) else epoll_ctl CtlMod s ev r)
      in if \<not> ok then (False, r) else (True, r\<lparr>ep_cbs := AList.update s cb (ep_cbs r)\<rparr>))"

definition epoll_modify :: "fd \<Rightarrow> i32 \<Rightarrow> ('cb, 'fn) EpollReactor \<Rightarrow> bool \<times> ('cb, 'fn) EpollReactor" where
  "epoll_modify s events r = epoll_ctl CtlMod s (to_epoll events OR EPOLLET) r"

definition epoll_remove :: "fd \<Rightarrow> ('cb, 'fn) EpollReactor \<Rightarrow> bool \<times> ('cb, 'fn) EpollReactor" where
  "epoll_remove s r = epoll_ctl CtlDel s 0 (r\<lparr>ep_cbs := AList.delete s (ep_cbs r)\<rparr>)"

definition epoll_post :: "'fn \<Rightarrow> ('cb, 'fn) EpollReactor \<Rightarrow> ('cb, 'fn) EpollReactor" where
  "epoll_post f r = r\<lparr>ep_pending := ep_pending r @ [f]\<rparr>"

definition epoll_stop :: "('cb, 'fn) EpollReactor \<Rightarrow> ('cb, 'fn) EpollReactor" where
  "epoll_stop r = r\<lparr>ep_stopping := True\<rparr>"

fun epoll_call :: "('cb, 'fn) call \<Rightarrow> ('cb, 'fn) EpollReactor \<Rightarrow> ('cb, 'fn) EpollReactor" where
  "epoll_call (RAdd s ev cb) r = snd (epoll_add s ev cb r)"
| "epoll_call (RModify s ev) r = snd (epoll_modify s ev r)"
| "epoll_call (RRemove s) r = snd (epoll_remove s r)"
| "epoll_call (RPost f) r = epoll_post f r"
| "epoll_call RStop r = epoll_stop r"

text \<open>
  The closures of a batch, one after the other; what one throws is dropped. The calls of a closure or a
  callback are carried out by \<open>perform\<close>.
\<close>

fun run_batch :: "(('cb, 'fn) call \<Rightarrow> 'r \<Rightarrow> 'r) \<Rightarrow> ('fn \<Rightarrow> 'w \<Rightarrow> ('cb, 'fn) call list \<times> 'w) \<Rightarrow> 'fn list \<Rightarrow> 'r \<times> 'w \<Rightarrow> 'r \<times> 'w" where
  "run_batch perform fire [] x = x"
| "run_batch perform fire (f # fs) (r, w) =
     (let (cs, w') = fire f w in run_batch perform fire fs (fold perform cs r, w'))"

definition epoll_drain_posts ::
  "('fn \<Rightarrow> 'w \<Rightarrow> ('cb, 'fn) call list \<times> 'w) \<Rightarrow> ('cb, 'fn) EpollReactor \<times> 'w \<Rightarrow> ('cb, 'fn) EpollReactor \<times> 'w" where
  "epoll_drain_posts fire = (\<lambda>(r, w). run_batch epoll_call fire (ep_pending r) (r\<lparr>ep_pending := []\<rparr>, w))"

definition epoll_mask :: "u32 \<Rightarrow> i32" where
  "epoll_mask ev =
     (if ev AND (EPOLLIN OR EPOLLPRI) \<noteq> 0 then Read else 0) OR
     (if ev AND EPOLLOUT \<noteq> 0 then Write else 0) OR
     (if ev AND (EPOLLERR OR EPOLLHUP OR EPOLLRDHUP) \<noteq> 0 then Read else 0)"

definition epoll_event ::
  "('cb \<Rightarrow> i32 \<Rightarrow> 'w \<Rightarrow> ('cb, 'fn) call list \<times> 'w) \<Rightarrow> ('fn \<Rightarrow> 'w \<Rightarrow> ('cb, 'fn) call list \<times> 'w) \<Rightarrow> fd \<times> u32 \<Rightarrow>
   ('cb, 'fn) EpollReactor \<times> 'w \<Rightarrow> ('cb, 'fn) EpollReactor \<times> 'w"
where
  "epoll_event call fire e x =
     (let (s, ev) = e; (r, w) = x
      in if s = wake_fd r then epoll_drain_posts fire (r, w)
         else case map_of (ep_cbs r) s of None \<Rightarrow> (r, w)
           | Some cb \<Rightarrow> (let (cs, w') = call cb (epoll_mask ev) w in (fold epoll_call cs r, w')))"

definition epoll_turn ::
  "('cb \<Rightarrow> i32 \<Rightarrow> 'w \<Rightarrow> ('cb, 'fn) call list \<times> 'w) \<Rightarrow> ('fn \<Rightarrow> 'w \<Rightarrow> ('cb, 'fn) call list \<times> 'w) \<Rightarrow> (fd \<times> u32) list \<Rightarrow>
   ('cb, 'fn) EpollReactor \<times> 'w \<Rightarrow> ('cb, 'fn) EpollReactor \<times> 'w"
where
  "epoll_turn call fire es x = fold (epoll_event call fire) es x"

text \<open>
  The loop. While the reactor waits in turn \<open>n\<close>, other threads do \<open>act n\<close> to the rest of the program and make the calls it
  returns; then the wait returns \<open>wait n\<close>. What they post later in the turn can be taken as posted by the closure or the
  callback that is running. \<^const>\<open>None\<close> is a loop that does not end.
\<close>

partial_function (option) epoll_run ::
  "('cb \<Rightarrow> i32 \<Rightarrow> 'w \<Rightarrow> ('cb, 'fn) call list \<times> 'w) \<Rightarrow> ('fn \<Rightarrow> 'w \<Rightarrow> ('cb, 'fn) call list \<times> 'w) \<Rightarrow>
   (nat \<Rightarrow> 'w \<Rightarrow> ('cb, 'fn) call list \<times> 'w) \<Rightarrow> (nat \<Rightarrow> (fd \<times> u32) list wait_result) \<Rightarrow> nat \<Rightarrow> ('cb, 'fn) EpollReactor \<times> 'w \<Rightarrow>
   (('cb, 'fn) EpollReactor \<times> 'w) option"
where
  "epoll_run call fire act wait n x =
     (if ep_stopping (fst x) then Some x
      else
        (let x' = (fold epoll_call (fst (act n (snd x))) (fst x), snd (act n (snd x)))
         in case wait n of
              WaitErr e \<Rightarrow> if e = EINTR then epoll_run call fire act wait (n + 1) x' else Some x'
            | Waited es \<Rightarrow> epoll_run call fire act wait (n + 1) (epoll_turn call fire es x')))"

subsection \<open>The select back end\<close>

record ('cb, 'fn) SelectReactor =
  wake_r :: fd
  se_stopping :: bool
  se_cbs :: "(fd \<times> i32 \<times> 'cb) list"
  se_pending :: "'fn list"

definition select_add :: "fd \<Rightarrow> i32 \<Rightarrow> 'cb \<Rightarrow> ('cb, 'fn) SelectReactor \<Rightarrow> bool \<times> ('cb, 'fn) SelectReactor" where
  "select_add s events cb r = (True, r\<lparr>se_cbs := AList.update s (events, cb) (se_cbs r)\<rparr>)"

definition select_modify :: "fd \<Rightarrow> i32 \<Rightarrow> ('cb, 'fn) SelectReactor \<Rightarrow> bool \<times> ('cb, 'fn) SelectReactor" where
  "select_modify s events r =
     (case map_of (se_cbs r) s of None \<Rightarrow> (False, r)
      | Some (_, cb) \<Rightarrow> (True, r\<lparr>se_cbs := AList.update s (events, cb) (se_cbs r)\<rparr>))"

definition select_remove :: "fd \<Rightarrow> ('cb, 'fn) SelectReactor \<Rightarrow> bool \<times> ('cb, 'fn) SelectReactor" where
  "select_remove s r = (True, r\<lparr>se_cbs := AList.delete s (se_cbs r)\<rparr>)"

definition select_post :: "'fn \<Rightarrow> ('cb, 'fn) SelectReactor \<Rightarrow> ('cb, 'fn) SelectReactor" where
  "select_post f r = r\<lparr>se_pending := se_pending r @ [f]\<rparr>"

definition select_stop :: "('cb, 'fn) SelectReactor \<Rightarrow> ('cb, 'fn) SelectReactor" where
  "select_stop r = r\<lparr>se_stopping := True\<rparr>"

fun select_call :: "('cb, 'fn) call \<Rightarrow> ('cb, 'fn) SelectReactor \<Rightarrow> ('cb, 'fn) SelectReactor" where
  "select_call (RAdd s ev cb) r = snd (select_add s ev cb r)"
| "select_call (RModify s ev) r = snd (select_modify s ev r)"
| "select_call (RRemove s) r = snd (select_remove s r)"
| "select_call (RPost f) r = select_post f r"
| "select_call RStop r = select_stop r"

definition select_drain_posts ::
  "('fn \<Rightarrow> 'w \<Rightarrow> ('cb, 'fn) call list \<times> 'w) \<Rightarrow> ('cb, 'fn) SelectReactor \<times> 'w \<Rightarrow> ('cb, 'fn) SelectReactor \<times> 'w" where
  "select_drain_posts fire = (\<lambda>(r, w). run_batch select_call fire (se_pending r) (r\<lparr>se_pending := []\<rparr>, w))"

text \<open>The two sets that are handed to \<open>select\<close>.\<close>

definition read_set :: "('cb, 'fn) SelectReactor \<Rightarrow> fd list" where
  "read_set r = wake_r r # map fst (filter (\<lambda>(s, ev, cb). ev AND Read \<noteq> 0) (se_cbs r))"

definition write_set :: "('cb, 'fn) SelectReactor \<Rightarrow> fd list" where
  "write_set r = map fst (filter (\<lambda>(s, ev, cb). ev AND Write \<noteq> 0) (se_cbs r))"

text \<open>The snapshot of the descriptors that are ready, with their masks.\<close>

definition select_ready :: "fd list \<Rightarrow> fd list \<Rightarrow> ('cb, 'fn) SelectReactor \<Rightarrow> (fd \<times> i32) list" where
  "select_ready rs ws r =
     filter (\<lambda>(s, m). m \<noteq> 0)
       (map (\<lambda>(s, e). (s, (if s \<in> set rs then Read else 0) OR (if s \<in> set ws then Write else 0))) (se_cbs r))"

definition select_event ::
  "('cb \<Rightarrow> i32 \<Rightarrow> 'w \<Rightarrow> ('cb, 'fn) call list \<times> 'w) \<Rightarrow> fd \<times> i32 \<Rightarrow>
   ('cb, 'fn) SelectReactor \<times> 'w \<Rightarrow> ('cb, 'fn) SelectReactor \<times> 'w"
where
  "select_event call e x =
     (let (s, m) = e; (r, w) = x
      in case map_of (se_cbs r) s of None \<Rightarrow> (r, w)
         | Some (_, cb) \<Rightarrow> (let (cs, w') = call cb m w in (fold select_call cs r, w')))"

text \<open>
  A turn, where the kernel reports the descriptors \<open>rs\<close> and \<open>ws\<close> of the two sets \<open>rd\<close> and \<open>wr\<close> it was given.
  When it reports none, the loop starts again.
\<close>

definition select_turn ::
  "('cb \<Rightarrow> i32 \<Rightarrow> 'w \<Rightarrow> ('cb, 'fn) call list \<times> 'w) \<Rightarrow> ('fn \<Rightarrow> 'w \<Rightarrow> ('cb, 'fn) call list \<times> 'w) \<Rightarrow> fd list \<Rightarrow> fd list \<Rightarrow>
   ('cb, 'fn) SelectReactor \<times> 'w \<Rightarrow> ('cb, 'fn) SelectReactor \<times> 'w"
where
  "select_turn call fire rs ws x =
     (if rs = [] \<and> ws = [] then x
      else
        (let x = (if wake_r (fst x) \<in> set rs then select_drain_posts fire x else x)
         in fold (select_event call) (select_ready rs ws (fst x)) x))"

partial_function (option) select_run ::
  "('cb \<Rightarrow> i32 \<Rightarrow> 'w \<Rightarrow> ('cb, 'fn) call list \<times> 'w) \<Rightarrow> ('fn \<Rightarrow> 'w \<Rightarrow> ('cb, 'fn) call list \<times> 'w) \<Rightarrow>
   (nat \<Rightarrow> 'w \<Rightarrow> ('cb, 'fn) call list \<times> 'w) \<Rightarrow> (nat \<Rightarrow> (fd list \<times> fd list) wait_result) \<Rightarrow> nat \<Rightarrow> ('cb, 'fn) SelectReactor \<times> 'w \<Rightarrow>
   (('cb, 'fn) SelectReactor \<times> 'w) option"
where
  "select_run call fire act wait n x =
     (if se_stopping (fst x) then Some x
      else
        (let rd = read_set (fst x); wr = write_set (fst x);
             x' = (fold select_call (fst (act n (snd x))) (fst x), snd (act n (snd x)))
         in case wait n of
              WaitErr e \<Rightarrow> if e = EINTR then select_run call fire act wait (n + 1) x' else Some x'
            | Waited (rs, ws) \<Rightarrow>
                select_run call fire act wait (n + 1)
                  (select_turn call fire (filter (\<lambda>s. s \<in> set rd) rs) (filter (\<lambda>s. s \<in> set wr) ws) x')))"

section \<open>What a reactor promises\<close>

definition posted_by :: "('cb, 'fn) call list \<Rightarrow> 'fn list" where
  "posted_by cs = List.map_filter (\<lambda>c. case c of RPost f \<Rightarrow> Some f | _ \<Rightarrow> None) cs"

lemma posted_by_simps [simp]:
  "posted_by [] = []"
  "posted_by (c # cs) = (case c of RPost f \<Rightarrow> [f] | _ \<Rightarrow> []) @ posted_by cs"
  by (auto simp: posted_by_def List.map_filter_simps split: call.split)

text \<open>
  Bookkeeping around the client: the closures that were run and the closures that closures and callbacks posted, in order.
\<close>

definition logged_fire ::
  "('fn \<Rightarrow> 'w \<Rightarrow> ('cb, 'fn) call list \<times> 'w) \<Rightarrow> 'fn \<Rightarrow> 'w \<times> 'fn list \<times> 'fn list \<Rightarrow> ('cb, 'fn) call list \<times> 'w \<times> 'fn list \<times> 'fn list" where
  "logged_fire fire f = (\<lambda>(w, fired, posted). let (cs, w') = fire f w in (cs, (w', fired @ [f], posted @ posted_by cs)))"

definition logged_call ::
  "('cb \<Rightarrow> i32 \<Rightarrow> 'w \<Rightarrow> ('cb, 'fn) call list \<times> 'w) \<Rightarrow> 'cb \<Rightarrow> i32 \<Rightarrow> 'w \<times> 'fn list \<times> 'fn list \<Rightarrow>
   ('cb, 'fn) call list \<times> 'w \<times> 'fn list \<times> 'fn list" where
  "logged_call call cb m = (\<lambda>(w, fired, posted). let (cs, w') = call cb m w in (cs, (w', fired, posted @ posted_by cs)))"

lemma logged_fire_eq:
  "logged_fire fire f (w, fired, posted) = (let (cs, w') = fire f w in (cs, (w', fired @ [f], posted @ posted_by cs)))"
  by (simp add: logged_fire_def)

text \<open>
  The contract: a table of callbacks, a queue of closures and a flag, and what each call does to them.
  An \<open>add\<close> or a \<open>modify\<close> may fail.
\<close>

locale reactor =
  fixes tab :: "'r \<Rightarrow> fd \<Rightarrow> 'cb option"
    and posts :: "'r \<Rightarrow> 'fn list"
    and halted :: "'r \<Rightarrow> bool"
    and perform :: "('cb, 'fn) call \<Rightarrow> 'r \<Rightarrow> 'r"
    and take_posts :: "'r \<Rightarrow> 'r"
    and wake :: "'r \<Rightarrow> fd"
  assumes tab_add: "tab (perform (RAdd s ev cb) r) = (tab r)(s \<mapsto> cb) \<or> tab (perform (RAdd s ev cb) r) = tab r"
    and tab_remove: "tab (perform (RRemove s) r) = (tab r)(s := None)"
    and tab_other: "tab (perform (RModify s ev) r) = tab r" "tab (perform (RPost f) r) = tab r" "tab (perform RStop r) = tab r"
    and posts_perform: "posts (perform c r) = posts r @ posted_by [c]"
    and halted_perform: "halted (perform c r) \<longleftrightarrow> halted r \<or> c = RStop"
    and take_posts: "posts (take_posts r) = []" "tab (take_posts r) = tab r" "halted (take_posts r) = halted r"
    and wake: "wake (perform c r) = wake r" "wake (take_posts r) = wake r"
begin

lemma posts_calls: "posts (fold perform cs r) = posts r @ posted_by cs"
  by (induction cs arbitrary: r) (simp_all add: posts_perform)

lemma halted_calls: "halted (fold perform cs r) \<longleftrightarrow> halted r \<or> RStop \<in> set cs"
  by (induction cs arbitrary: r) (auto simp: halted_perform)

lemma wake_calls [simp]: "wake (fold perform cs r) = wake r"
  by (induction cs arbitrary: r) (simp_all add: wake)

lemma batch_keeps:
  "wake (fst (run_batch perform fire fs x)) = wake (fst x)"
  "halted (fst x) \<Longrightarrow> halted (fst (run_batch perform fire fs x))"
  by (induction fs arbitrary: x) (auto simp: halted_calls split_beta Let_def)

text \<open>A descriptor that was removed has no callback until it is added again.\<close>

lemma tab_removed:
  "tab r s = None \<Longrightarrow> (\<And>ev cb. RAdd s ev cb \<notin> set cs) \<Longrightarrow> tab (fold perform cs r) s = None"
proof (induction cs arbitrary: r)
  case (Cons c cs)
  have "tab (perform c r) s = None"
  proof (cases c)
    case (RAdd t ev cb)
    with Cons.prems(2) [of ev cb] have "t \<noteq> s" by auto
    with RAdd tab_add [of t ev cb r] Cons.prems(1) show ?thesis by auto
  qed (use Cons.prems(1) in \<open>simp_all add: tab_remove tab_other\<close>)
  moreover have "\<And>ev cb. RAdd s ev cb \<notin> set cs" using Cons.prems(2) by auto
  ultimately show ?case using Cons.IH by simp
qed simp

lemma batch_fifo:
  assumes "run_batch perform (logged_fire fire) fs (r, (w, fired, posted)) = (r', (w', fired', posted'))"
  shows "fired' = fired @ fs \<and> (\<exists>new. posted' = posted @ new \<and> posts r' = posts r @ new)"
  using assms
proof (induction fs arbitrary: r w fired posted)
  case (Cons f fs)
  obtain cs v where f: "fire f w = (cs, v)" by fastforce
  with Cons.prems have "run_batch perform (logged_fire fire) fs (fold perform cs r, (v, fired @ [f], posted @ posted_by cs)) = (r', (w', fired', posted'))"
    by (simp add: logged_fire_eq)
  from Cons.IH [OF this] show ?case by (auto simp: posts_calls)
qed simp

lemma batch_erase:
  assumes "run_batch perform (logged_fire fire) fs (r, (w, l)) = (r', (w', l'))"
  shows "run_batch perform fire fs (r, w) = (r', w')"
  using assms
proof (induction fs arbitrary: r w l)
  case (Cons f fs)
  obtain cs v where f: "fire f w = (cs, v)" by fastforce
  with Cons show ?case by (cases l) (auto simp: logged_fire_eq)
qed simp

text \<open>The queue of a state with its log, related to the queue before: nothing is lost, doubled or overtaken.\<close>

lemma drain_fifo:
  assumes "run_batch perform (logged_fire fire) (posts r) (take_posts r, (w, fired, posted)) = (r', (w', fired', posted'))"
    and "base @ posted = fired @ posts r"
  shows "base @ posted' = fired' @ posts r'" and "fired' = fired @ posts r"
  using batch_fifo [OF assms(1)] assms(2) by (auto simp: take_posts)

lemma callback_fifo:
  assumes "logged_call call cb m (w, fired, posted) = (cs, (w', fired', posted'))" and "base @ posted = fired @ posts r"
  shows "base @ posted' = fired' @ posts (fold perform cs r)" and "fired' = fired" and "call cb m w = (cs, w')"
  using assms by (auto simp: logged_call_def posts_calls split: prod.splits)

end

lemma epoll_ctl_keeps:
  "ep_cbs (snd (epoll_ctl c s ev r)) = ep_cbs r" "ep_pending (snd (epoll_ctl c s ev r)) = ep_pending r"
  "ep_stopping (snd (epoll_ctl c s ev r)) = ep_stopping r" "wake_fd (snd (epoll_ctl c s ev r)) = wake_fd r"
  by (simp_all add: epoll_ctl_def Let_def)

lemma epoll_call_keeps:
  "map_of (ep_cbs (epoll_call c r)) = (case c of RAdd s ev cb \<Rightarrow> if fst (epoll_add s ev cb r) then (map_of (ep_cbs r))(s \<mapsto> cb) else map_of (ep_cbs r)
     | RRemove s \<Rightarrow> (map_of (ep_cbs r))(s := None) | _ \<Rightarrow> map_of (ep_cbs r))"
  "ep_pending (epoll_call c r) = ep_pending r @ posted_by [c]"
  "ep_stopping (epoll_call c r) \<longleftrightarrow> ep_stopping r \<or> c = RStop"
  "wake_fd (epoll_call c r) = wake_fd r"
  by (cases c; auto simp: epoll_add_def epoll_modify_def epoll_remove_def epoll_post_def epoll_stop_def epoll_ctl_keeps
      split_beta Let_def update_conv' delete_conv')+

lemma select_call_keeps:
  "map_of (se_cbs (select_call c r)) = (case c of RAdd s ev cb \<Rightarrow> (map_of (se_cbs r))(s \<mapsto> (ev, cb))
     | RModify s ev \<Rightarrow> (case map_of (se_cbs r) s of None \<Rightarrow> map_of (se_cbs r) | Some (_, cb) \<Rightarrow> (map_of (se_cbs r))(s \<mapsto> (ev, cb)))
     | RRemove s \<Rightarrow> (map_of (se_cbs r))(s := None) | _ \<Rightarrow> map_of (se_cbs r))"
  "se_pending (select_call c r) = se_pending r @ posted_by [c]"
  "se_stopping (select_call c r) \<longleftrightarrow> se_stopping r \<or> c = RStop"
  "wake_r (select_call c r) = wake_r r"
  by (cases c; auto simp: select_add_def select_modify_def select_remove_def select_post_def select_stop_def update_conv' delete_conv'
      split: option.split)+

interpretation ep: reactor "\<lambda>r. map_of (ep_cbs r)" ep_pending ep_stopping epoll_call "\<lambda>r. r\<lparr>ep_pending := []\<rparr>" wake_fd
  by unfold_locales (auto simp: epoll_call_keeps simp del: epoll_call.simps)

interpretation se: reactor "\<lambda>r s. map_option snd (map_of (se_cbs r) s)" se_pending se_stopping select_call "\<lambda>r. r\<lparr>se_pending := []\<rparr>" wake_r
  by unfold_locales (auto simp: select_call_keeps fun_eq_iff simp del: select_call.simps split: option.split)

section \<open>Turns\<close>

lemma epoll_event_fifo:
  assumes "epoll_event (logged_call call) (logged_fire fire) e (r, (w, fired, posted)) = (r', (w', fired', posted'))"
    and "base @ posted = fired @ ep_pending r"
  shows "base @ posted' = fired' @ ep_pending r'" and "epoll_event call fire e (r, w) = (r', w')"
    and "fired' = (if fst e = wake_fd r then fired @ ep_pending r else fired)"
    and "wake_fd r' = wake_fd r"
proof -
  show 1: "base @ posted' = fired' @ ep_pending r'"
    using assms ep.drain_fifo(1) [of fire r w fired posted r' w' fired' posted' base] ep.callback_fifo(1) [of call _ _ w fired posted _ _ _ _ base r]
    by (auto simp: epoll_event_def epoll_drain_posts_def split: prod.splits if_splits option.splits)
  show "epoll_event call fire e (r, w) = (r', w')"
    using assms ep.batch_erase [of fire "ep_pending r" "r\<lparr>ep_pending := []\<rparr>" w "(fired, posted)"] ep.callback_fifo(3) [of call _ _ w fired posted]
    by (force simp: epoll_event_def epoll_drain_posts_def split: prod.splits if_splits option.splits)
  show "fired' = (if fst e = wake_fd r then fired @ ep_pending r else fired)"
    using assms ep.drain_fifo(2) [of fire r w fired posted r' w' fired' posted' base] ep.callback_fifo(2) [of call _ _ w fired posted _ _ _ _ base r]
    by (auto simp: epoll_event_def epoll_drain_posts_def split: prod.splits if_splits option.splits)
  show "wake_fd r' = wake_fd r"
    using assms(1) ep.batch_keeps(1) [of "logged_fire fire" "ep_pending r" "(r\<lparr>ep_pending := []\<rparr>, (w, fired, posted))"]
    by (auto simp: epoll_event_def epoll_drain_posts_def split: prod.splits if_splits option.splits)
qed

lemma epoll_turn_fifo:
  assumes "epoll_turn (logged_call call) (logged_fire fire) es (r, (w, fired, posted)) = (r', (w', fired', posted'))"
    and "base @ posted = fired @ ep_pending r"
  shows "base @ posted' = fired' @ ep_pending r' \<and> epoll_turn call fire es (r, w) = (r', w') \<and> prefix fired fired' \<and>
    (wake_fd r \<in> fst ` set es \<longrightarrow> prefix base fired')"
  using assms
proof (induction es arbitrary: r w fired posted)
  case (Cons e es)
  obtain q v f p where e: "epoll_event (logged_call call) (logged_fire fire) e (r, (w, fired, posted)) = (q, (v, f, p))"
    by (rule prod_cases4)
  note E = epoll_event_fifo [OF e Cons.prems(2)]
  have "epoll_turn (logged_call call) (logged_fire fire) es (q, (v, f, p)) = (r', (w', fired', posted'))"
    using Cons.prems(1) e by (simp add: epoll_turn_def)
  note IH = Cons.IH [OF this E(1)]
  have "prefix base f" if "fst e = wake_fd r"
    using that E(3) Cons.prems(2) by (metis prefixI)
  moreover have "prefix fired f" using E(3) by simp
  ultimately show ?case using IH E(2,4) by (auto simp: epoll_turn_def intro: prefix_order.trans)
qed (simp add: epoll_turn_def)

lemma select_event_fifo:
  assumes "select_event (logged_call call) e (r, (w, fired, posted)) = (r', (w', fired', posted'))"
    and "base @ posted = fired @ se_pending r"
  shows "base @ posted' = fired' @ se_pending r'" and "select_event call e (r, w) = (r', w')" and "fired' = fired"
  using assms se.callback_fifo [of call _ _ w fired posted _ _ _ _ base r]
  by (force simp: select_event_def split: prod.splits option.splits)+

lemma select_events_fifo:
  assumes "fold (select_event (logged_call call)) es (r, (w, fired, posted)) = (r', (w', fired', posted'))"
    and "base @ posted = fired @ se_pending r"
  shows "base @ posted' = fired' @ se_pending r' \<and> fold (select_event call) es (r, w) = (r', w') \<and> fired' = fired"
  using assms
proof (induction es arbitrary: r w fired posted)
  case (Cons e es)
  obtain q v f p where e: "select_event (logged_call call) e (r, (w, fired, posted)) = (q, (v, f, p))"
    by (rule prod_cases4)
  note E = select_event_fifo [OF e Cons.prems(2)]
  from Cons.prems(1) e Cons.IH [OF _ E(1)] E(2,3) show ?case by simp
qed simp

lemma select_turn_fifo:
  assumes "select_turn (logged_call call) (logged_fire fire) rs ws (r, (w, fired, posted)) = (r', (w', fired', posted'))"
    and "base @ posted = fired @ se_pending r"
  shows "base @ posted' = fired' @ se_pending r' \<and> select_turn call fire rs ws (r, w) = (r', w') \<and>
    (wake_r r \<in> set rs \<longrightarrow> prefix base fired')"
proof (cases "wake_r r \<in> set rs")
  case True
  obtain q v f p where d: "select_drain_posts (logged_fire fire) (r, (w, fired, posted)) = (q, (v, f, p))"
    by (rule prod_cases4)
  then have d': "run_batch select_call (logged_fire fire) (se_pending r) (r\<lparr>se_pending := []\<rparr>, (w, fired, posted)) = (q, (v, f, p))"
    by (simp add: select_drain_posts_def)
  have "select_drain_posts fire (r, w) = (q, v)"
    using se.batch_erase [OF d'] by (simp add: select_drain_posts_def)
  moreover have "rs \<noteq> []" using True by auto
  moreover note D = se.drain_fifo [OF d' assms(2)]
  moreover have "prefix base f" using D(2) assms(2) by (metis prefixI)
  ultimately show ?thesis
    using True assms(1) d select_events_fifo [of call _ q v f p r' w' fired' posted' base]
    by (auto simp: select_turn_def)
next
  case False
  then show ?thesis
    using assms select_events_fifo [of call _ r w fired posted r' w' fired' posted' base]
    by (auto simp: select_turn_def split: if_splits)
qed

section \<open>The loops end\<close>

lemma loop_ends:
  assumes run: "\<And>n x. run n x = (if halts x then Some x else case nxt n x of Inl y \<Rightarrow> Some y | Inr x' \<Rightarrow> run (Suc n) x')"
    and last: "\<And>x. case nxt k x of Inl y \<Rightarrow> True | Inr y \<Rightarrow> halts y"
  shows "n \<le> k \<Longrightarrow> \<exists>y. run n x = Some y"
proof (induction "k - n" arbitrary: n x)
  case 0
  then have "n = k" by simp
  with last [of x] run [of "Suc k"] show ?case by (subst run) (auto split: sum.splits)
next
  case (Suc d)
  then have "d = k - Suc n" "Suc n \<le> k" by simp_all
  with Suc.hyps(1) [of "Suc n"] show ?case by (subst run) (auto split: sum.split)
qed

lemma epoll_event_stops: "ep_stopping (fst x) \<Longrightarrow> ep_stopping (fst (epoll_event call fire e x))"
  using ep.batch_keeps(2) [of "(fst x\<lparr>ep_pending := []\<rparr>, snd x)" fire "ep_pending (fst x)"]
  by (auto simp: epoll_event_def epoll_drain_posts_def split_beta ep.halted_calls Let_def split: option.split)

lemma epoll_turn_stops: "ep_stopping (fst x) \<Longrightarrow> ep_stopping (fst (epoll_turn call fire es x))"
  unfolding epoll_turn_def by (induction es arbitrary: x) (simp_all add: epoll_event_stops)

lemma select_events_stop: "se_stopping (fst x) \<Longrightarrow> se_stopping (fst (fold (select_event call) es x))"
proof (induction es arbitrary: x)
  case (Cons e es)
  then have "se_stopping (fst (select_event call e x))"
    by (auto simp: select_event_def split_beta se.halted_calls Let_def split: option.split)
  then show ?case using Cons.IH by simp
qed simp

lemma select_turn_stops: "se_stopping (fst x) \<Longrightarrow> se_stopping (fst (select_turn call fire rs ws x))"
  using se.batch_keeps(2) [of "(fst x\<lparr>se_pending := []\<rparr>, snd x)" fire "se_pending (fst x)"]
  by (auto simp: select_turn_def select_drain_posts_def split_beta Let_def intro: select_events_stop)

lemma epoll_run_ends:
  assumes "(\<forall>w. RStop \<in> set (fst (act k w))) \<or> (\<exists>e. wait k = WaitErr e \<and> e \<noteq> EINTR)"
  shows "\<exists>y. epoll_run call fire act wait 0 x = Some y"
proof (rule loop_ends [where k = k and halts = "\<lambda>x. ep_stopping (fst x)" and
      nxt = "\<lambda>n x. let x' = (fold epoll_call (fst (act n (snd x))) (fst x), snd (act n (snd x))) in case wait n of
          WaitErr e \<Rightarrow> if e = EINTR then Inr x' else Inl x' | Waited es \<Rightarrow> Inr (epoll_turn call fire es x')"])
  show "epoll_run call fire act wait n x = (if ep_stopping (fst x) then Some x else
      case let x' = (fold epoll_call (fst (act n (snd x))) (fst x), snd (act n (snd x))) in case wait n of
          WaitErr e \<Rightarrow> if e = EINTR then Inr x' else Inl x' | Waited es \<Rightarrow> Inr (epoll_turn call fire es x')
      of Inl y \<Rightarrow> Some y | Inr x' \<Rightarrow> epoll_run call fire act wait (Suc n) x')" for n x
    by (subst epoll_run.simps) (auto simp: Let_def split: wait_result.split)
qed (use assms in \<open>auto simp: Let_def ep.halted_calls intro!: epoll_turn_stops split: wait_result.split\<close>)

lemma select_run_ends:
  assumes "(\<forall>w. RStop \<in> set (fst (act k w))) \<or> (\<exists>e. wait k = WaitErr e \<and> e \<noteq> EINTR)"
  shows "\<exists>y. select_run call fire act wait 0 x = Some y"
proof (rule loop_ends [where k = k and halts = "\<lambda>x. se_stopping (fst x)" and
      nxt = "\<lambda>n x. let x' = (fold select_call (fst (act n (snd x))) (fst x), snd (act n (snd x))) in case wait n of
          WaitErr e \<Rightarrow> if e = EINTR then Inr x' else Inl x'
        | Waited p \<Rightarrow> Inr (select_turn call fire (filter (\<lambda>s. s \<in> set (read_set (fst x))) (fst p))
            (filter (\<lambda>s. s \<in> set (write_set (fst x))) (snd p)) x')"])
  show "select_run call fire act wait n x = (if se_stopping (fst x) then Some x else
      case let x' = (fold select_call (fst (act n (snd x))) (fst x), snd (act n (snd x))) in case wait n of
          WaitErr e \<Rightarrow> if e = EINTR then Inr x' else Inl x'
        | Waited p \<Rightarrow> Inr (select_turn call fire (filter (\<lambda>s. s \<in> set (read_set (fst x))) (fst p))
            (filter (\<lambda>s. s \<in> set (write_set (fst x))) (snd p)) x')
      of Inl y \<Rightarrow> Some y | Inr x' \<Rightarrow> select_run call fire act wait (Suc n) x')" for n x
    by (subst select_run.simps) (auto simp: Let_def split: wait_result.split)
qed (use assms in \<open>auto simp: Let_def se.halted_calls intro!: select_turn_stops split: wait_result.split\<close>)

section \<open>Properties\<close>

text \<open>
  C30. Both reactors run what is posted, once and in order. In a turn, the closures that were pending or
  are posted meanwhile are, in the order of posting, those that were run followed by those that are still
  pending; and when the wake-up is reported, all that were pending are run in this turn. The logs do not
  change what the turn does.
\<close>

theorem posts_run_in_order:
  assumes "epoll_turn (logged_call call) (logged_fire fire) es (r, (w, [], [])) = (r', (w', fired, posted))"
    and "select_turn (logged_call call) (logged_fire fire) rs ws (q, (v, [], [])) = (q', (v', fired2, posted2))"
  shows "epoll_turn call fire es (r, w) = (r', w') \<and> ep_pending r @ posted = fired @ ep_pending r' \<and>
      (wake_fd r \<in> fst ` set es \<longrightarrow> prefix (ep_pending r) fired) \<and>
    select_turn call fire rs ws (q, v) = (q', v') \<and> se_pending q @ posted2 = fired2 @ se_pending q' \<and>
      (wake_r q \<in> set rs \<longrightarrow> prefix (se_pending q) fired2)"
  using epoll_turn_fifo [OF assms(1), of "ep_pending r"] select_turn_fifo [OF assms(2), of "se_pending q"] by simp

theorem posts_run_in_order_witness:
  "let r = \<lparr>wake_fd = 4, ep_stopping = False, ep_cbs = [(7, ''c'')], ep_pending = [1 :: nat, 2], ep_interest = [(7, 1)],
         ep_answers = (\<lambda>_. True), ep_calls = 0\<rparr>;
       q = \<lparr>wake_r = 4, se_stopping = False, se_cbs = [(7, 1, ''c'')], se_pending = [1 :: nat, 2]\<rparr>;
       fire = (\<lambda>f w. (if f = 1 then [RPost 3] else [], w + f)); call = (\<lambda>cb m w. ([RPost 9], w))
   in fst (snd (snd (epoll_turn (logged_call call) (logged_fire fire) [(7, 1), (4, 1)] (r, (0, [], []))))) = [1, 2, 9] \<and>
      prefix [1, 2] (fst (snd (snd (select_turn (logged_call call) (logged_fire fire) [4, 7] [] (q, (0, [], []))))))"
proof -
  let ?r = "\<lparr>wake_fd = 4, ep_stopping = False, ep_cbs = [(7, ''c'')], ep_pending = [1 :: nat, 2], ep_interest = [(7, 1)],
         ep_answers = (\<lambda>_. True), ep_calls = 0\<rparr>"
  let ?q = "\<lparr>wake_r = 4, se_stopping = False, se_cbs = [(7, 1, ''c'')], se_pending = [1 :: nat, 2]\<rparr>"
  let ?fire = "\<lambda>f w. (if f = 1 then [RPost 3] else [], w + f) :: (string, nat) call list \<times> nat"
  let ?call = "\<lambda>cb m w. ([RPost 9], w) :: (string, nat) call list \<times> nat"
  obtain r' w' fired posted where e:
      "epoll_turn (logged_call ?call) (logged_fire ?fire) [(7, 1), (4, 1)] (?r, (0, [], [])) = (r', (w', fired, posted))"
    by (rule prod_cases4)
  obtain q' v' fired2 posted2 where s:
      "select_turn (logged_call ?call) (logged_fire ?fire) [4, 7] [] (?q, (0, [], [])) = (q', (v', fired2, posted2))"
    by (rule prod_cases4)
  note posts_run_in_order [OF e s]
  moreover have "fired = [1, 2, 9]"
    using e by (simp add: epoll_turn_def epoll_event_def epoll_drain_posts_def logged_call_def logged_fire_eq epoll_post_def)
  ultimately show ?thesis unfolding Let_def e s by simp
qed

text \<open>
  C31. The loops end: when another thread calls \<open>stop\<close> while the reactor waits in some turn, or the wait
  fails in it with an error other than an interruption, \<open>run\<close> returns, whatever callbacks and closures do.
\<close>

theorem run_terminates:
  assumes "(\<forall>w. RStop \<in> set (fst (act k w))) \<or> (\<exists>e. wait k = WaitErr e \<and> e \<noteq> EINTR)"
    and "(\<forall>w. RStop \<in> set (fst (act2 k2 w))) \<or> (\<exists>e. wait2 k2 = WaitErr e \<and> e \<noteq> EINTR)"
  shows "(\<exists>y. epoll_run call fire act wait 0 x = Some y) \<and> (\<exists>y. select_run call2 fire2 act2 wait2 0 z = Some y)"
  using epoll_run_ends [of act k wait] select_run_ends [of act2 k2 wait2] assms by blast

theorem run_terminates_witness:
  "\<exists>y. epoll_run (\<lambda>cb m w. ([], w)) (\<lambda>f w. ([RPost f], w)) (\<lambda>n w. (if n = 3 then [RStop] else [RPost n], w)) (\<lambda>n. Waited [(4, 1)]) 0
     (\<lparr>wake_fd = 4, ep_stopping = False, ep_cbs = [] :: (fd \<times> unit) list, ep_pending = [], ep_interest = [],
       ep_answers = (\<lambda>_. True), ep_calls = 0\<rparr>, ()) = Some y"
  by (rule run_terminates [where k = 3 and ?k2.0 = 0 and ?act2.0 = "\<lambda>n w. ([RStop :: (unit, nat) call], w :: unit)" and
      ?wait2.0 = "\<lambda>n. Waited ([], [])", THEN conjunct1]) simp_all

section \<open>Masks\<close>

text \<open>
  What a client asked for is what it hears of: the kernel's word for a mask is read back as that mask, and
  errors and hang-ups are reported as readable, even to a client that asked for nothing.
\<close>

lemma and_power: "(ev :: i32) AND 2 ^ k = (if bit ev k then 2 ^ k else 0)"
  by (rule bit_word_eqI) (auto simp: bit_and_iff bit_exp_iff)

lemma and_one_or_two: "(ev :: i32) AND 3 = (if ev AND 1 \<noteq> 0 then 1 else 0) OR (if ev AND 2 \<noteq> 0 then 2 else 0)"
proof -
  have "ev AND 3 = (ev AND 1) OR (ev AND 2)"
    by (simp flip: bit.conj_disj_distrib)
  then show ?thesis using and_power [of ev 0] and_power [of ev 1] by simp
qed

lemma epoll_mask_to_epoll: "epoll_mask (to_epoll ev OR EPOLLET) = ev AND (Read OR Write)"
proof -
  have "ev AND (Read OR Write) = (if ev AND 1 \<noteq> 0 then 1 else 0) OR (if ev AND 2 \<noteq> 0 then 2 else 0)"
    using and_one_or_two [of ev] by (simp add: Read_def Write_def)
  then show ?thesis
    by (simp add: epoll_mask_def to_epoll_def Read_def Write_def EPOLLIN_def EPOLLPRI_def EPOLLOUT_def EPOLLERR_def EPOLLHUP_def
        EPOLLRDHUP_def EPOLLET_def)
qed

lemma hangup_is_readable: "epoll_mask EPOLLHUP = Read" "epoll_mask EPOLLERR = Read" "epoll_mask EPOLLRDHUP = Read"
  by (simp_all add: epoll_mask_def Read_def EPOLLIN_def EPOLLPRI_def EPOLLOUT_def EPOLLERR_def EPOLLHUP_def EPOLLRDHUP_def)

end
