(* ===== verification/Mysql_Pool.thy ===== *)
theory Mysql_Pool
  imports Chat_Prelude
begin

text \<open>
  The pool of database connections (\<open>src/src/db/mysql_pool.cpp\<close>). What the client library answers is
  an argument: whether the library starts, whether a connection answers a ping, and the
  connection that a call of \<open>make_connection\<close> returns, if it does. A thread that waits in
  \<open>acquire\<close> is \<^const>\<open>None\<close>.
\<close>

section \<open>The code\<close>

record 'c MysqlPool =
  idle :: "'c list"
  outstanding :: u64
  stopping :: bool

definition MysqlPool_new :: "'c MysqlPool" where
  "MysqlPool_new = \<lparr>idle = [], outstanding = 0, stopping = False\<rparr>"

fun init_loop :: "'c option list \<Rightarrow> 'c MysqlPool \<Rightarrow> bool \<times> 'c MysqlPool" where
  "init_loop [] p = (True, p)"
| "init_loop (None # made) p = (False, p)"
| "init_loop (Some c # made) p = init_loop made (p\<lparr>idle := idle p @ [c]\<rparr>)"

text \<open>\<open>made i\<close> is the result of the call number \<open>i\<close> of \<open>make_connection\<close>.\<close>

definition MysqlPool_init :: "bool \<Rightarrow> u32 \<Rightarrow> (nat \<Rightarrow> 'c option) \<Rightarrow> 'c MysqlPool \<Rightarrow> bool \<times> 'c MysqlPool" where
  "MysqlPool_init lib_ok pool_size made p =
     (if \<not> lib_ok then (False, p) else init_loop (map made [0..<unat pool_size]) p)"

definition acquire :: "'c MysqlPool \<Rightarrow> ('c option \<times> 'c MysqlPool) option" where
  "acquire p =
     (if idle p = [] \<and> \<not> stopping p then None
      else if stopping p then Some (None, p)
      else Some (Some (hd (idle p)), p\<lparr>idle := tl (idle p), outstanding := outstanding p + 1\<rparr>))"

definition release :: "'c option \<Rightarrow> bool \<Rightarrow> 'c option \<Rightarrow> 'c MysqlPool \<Rightarrow> 'c MysqlPool" where
  "release c ping_ok made p =
     (let p = p\<lparr>outstanding := outstanding p - 1\<rparr>
      in if stopping p \<or> c = None then p
         else case (if ping_ok then c else made) of None \<Rightarrow> p | Some c' \<Rightarrow> p\<lparr>idle := idle p @ [c']\<rparr>)"

text \<open>A lease that holds a connection gives it back when it dies, and an empty one does nothing.\<close>

definition Lease_release :: "'c option \<Rightarrow> bool \<Rightarrow> 'c option \<Rightarrow> 'c MysqlPool \<Rightarrow> 'c MysqlPool" where
  "Lease_release conn ping_ok made p = (case conn of None \<Rightarrow> p | Some c \<Rightarrow> release (Some c) ping_ok made p)"

definition MysqlPool_destroy :: "'c MysqlPool \<Rightarrow> 'c MysqlPool" where
  "MysqlPool_destroy p = p\<lparr>stopping := True, idle := []\<rparr>"

section \<open>Threads that use the pool\<close>

text \<open>
  The pool together with the connections that are leased and the number of those that could not be replaced.
\<close>

inductive db_step :: "'c MysqlPool \<times> 'c list \<times> nat \<Rightarrow> 'c MysqlPool \<times> 'c list \<times> nat \<Rightarrow> bool" where
  db_acquire: "acquire p = Some (Some c, p') \<Longrightarrow> db_step (p, ls, k) (p', c # ls, k)"
| db_release: "c \<in> set ls \<Longrightarrow> db_step (p, ls, k)
    (Lease_release (Some c) ping_ok made p, remove1 c ls, k + (if \<not> ping_ok \<and> made = None then 1 else 0))"

definition db_inv :: "nat \<Rightarrow> 'c MysqlPool \<times> 'c list \<times> nat \<Rightarrow> bool" where
  "db_inv n = (\<lambda>(p, ls, k). length (idle p) + length ls + k = n \<and> outstanding p = of_nat (length ls) \<and> \<not> stopping p)"

lemma init_loop_ok: "init_loop made p = (True, p') \<Longrightarrow> p' = p\<lparr>idle := idle p @ map the made\<rparr>"
  by (induction made p rule: init_loop.induct) auto

lemma db_inv_init:
  assumes "MysqlPool_init True n made MysqlPool_new = (True, p)"
  shows "db_inv (unat n) (p, [], 0)"
  using init_loop_ok [of "map made [0..<unat n]" MysqlPool_new p] assms
  by (simp add: MysqlPool_init_def db_inv_def MysqlPool_new_def)

lemma db_step_inv: "db_step x y \<Longrightarrow> db_inv n x \<Longrightarrow> db_inv n y"
proof (induction rule: db_step.induct)
  case (db_acquire p c p' ls k)
  then show ?case
    by (cases "idle p") (auto simp: acquire_def db_inv_def split: if_splits)
next
  case (db_release c ls p k ping_ok made)
  from db_release(1) have len: "length (remove1 c ls) + 1 = length ls"
    by (metis One_nat_def Suc_pred add.commute length_pos_if_in_set length_remove1 plus_1_eq_Suc)
  then have "(of_nat (length ls) :: u64) - 1 = of_nat (length (remove1 c ls))"
    by (metis add_diff_cancel_right' of_nat_1 of_nat_add)
  with db_release(2) len show ?case
    by (auto simp: db_inv_def Lease_release_def release_def Let_def split: option.split)
qed

lemma db_steps_inv: "db_step\<^sup>*\<^sup>* x y \<Longrightarrow> db_inv n x \<Longrightarrow> db_inv n y"
  by (induction rule: rtranclp_induct) (auto intro: db_step_inv)

text \<open>
  The pool never makes up or duplicates a slot: after a successful start with \<open>n\<close> connections, and whatever threads
  acquire and release, the idle connections, the leased ones and those that could not be
  replaced add up to \<open>n\<close>, the counter is the number of leases, and \<open>acquire\<close> waits exactly when
  none is idle.
\<close>

theorem db_pool_conserves:
  assumes "MysqlPool_init True n made MysqlPool_new = (True, p0)" and "db_step\<^sup>*\<^sup>* (p0, [], 0) (p, ls, k)"
  shows "length (idle p) + length ls + k = unat n \<and> outstanding p = of_nat (length ls) \<and>
    (acquire p = None \<longleftrightarrow> length ls + k = unat n)"
proof -
  have "db_inv (unat n) (p, ls, k)"
    by (rule db_steps_inv [OF assms(2) db_inv_init [OF assms(1)]])
  then have inv: "length (idle p) + length ls + k = unat n" "outstanding p = of_nat (length ls)" "\<not> stopping p"
    by (simp_all add: db_inv_def)
  then have "idle p = [] \<longleftrightarrow> length ls + k = unat n" by (cases "idle p") simp_all
  with inv show ?thesis by (simp add: acquire_def)
qed

theorem db_pool_conserves_witness:
  "\<exists>p. db_step\<^sup>*\<^sup>* (snd (MysqlPool_init True 2 Some MysqlPool_new), [], 0) (p, [0], 0) \<and> outstanding p = 1 \<and> acquire p \<noteq> None"
proof -
  let ?p0 = "\<lparr>idle = [0 :: nat, 1], outstanding = 0, stopping = False\<rparr>"
  let ?p1 = "\<lparr>idle = [1 :: nat], outstanding = 1, stopping = False\<rparr>"
  have init: "MysqlPool_init True 2 Some MysqlPool_new = (True, ?p0)"
    by code_simp
  have "db_step (?p0, [], 0) (?p1, [0], 0)" by (rule db_acquire) (simp add: acquire_def)
  then have run: "db_step\<^sup>*\<^sup>* (?p0, [], 0) (?p1, [0], 0)" by (rule r_into_rtranclp)
  show ?thesis
    using db_pool_conserves [OF init run] run by (intro exI [of _ ?p1]) (simp add: init)
qed

text \<open>
  A connection whose ping fails while the database is away is dropped without a replacement. Once
  that has happened to all of them the pool is empty, and it stays empty: every later \<open>acquire\<close>
  waits although no connection is in use.
\<close>

lemma db_pool_drains:
  "\<exists>p0 p. MysqlPool_init True 1 (\<lambda>i. Some i) MysqlPool_new = (True, p0) \<and> db_step\<^sup>*\<^sup>* (p0, [], 0) (p, [], 1) \<and>
     acquire p = None \<and> (\<forall>y. \<not> db_step (p, [], 1) y)"
proof -
  let ?s = "\<lparr>idle = [0 :: nat], outstanding = 0, stopping = False\<rparr>"
  let ?q = "\<lparr>idle = [] :: nat list, outstanding = 1, stopping = False\<rparr>"
  let ?p = "\<lparr>idle = [] :: nat list, outstanding = 0, stopping = False\<rparr>"
  have 1: "db_step (?s, [], 0 :: nat) (?q, [0], 0)" by (rule db_acquire) (simp add: acquire_def)
  have 2: "db_step (?q, [0], 0) (?p, [], 1)"
    using db_release [of 0 "[0]" ?q 0 False None] by (simp add: Lease_release_def release_def)
  have "db_step\<^sup>*\<^sup>* (?s, [], 0) (?p, [], 1)" by (rule rtranclp.rtrancl_into_rtrancl [OF r_into_rtranclp [of db_step, OF 1] 2])
  moreover have "\<not> db_step (?p, [], 1) y" for y by (auto simp: acquire_def elim!: db_step.cases)
  moreover have "MysqlPool_init True 1 (\<lambda>i. Some i) MysqlPool_new = (True, ?s)"
    by (simp add: MysqlPool_init_def MysqlPool_new_def)
  ultimately show ?thesis
    by (intro exI [of _ ?s] exI [of _ ?p]) (simp add: acquire_def)
qed

end
