(* ===== verification/Startup.thy ===== *)
theory Startup
  imports Chat_Server Config Thread_Pool Platform Reactor Mysql_Pool
begin

text \<open>
  From the configuration to the running server: \<open>ChatServer::init\<close>, \<open>run\<close> and \<open>stop\<close>
  (\<open>src/src/chat/chat_server.cpp\<close>), \<open>Server::listen\<close> (\<open>src/src/net/server.cpp\<close>), the choice of the log file
  (\<open>src/src/common/logger.cpp\<close>) and the result of \<open>main\<close> (\<open>src/src/main.cpp\<close>), for the build with the in-memory
  store and the epoll reactor. \<open>pool_init\<close> is the result of \<open>MysqlPool::init\<close> for a configuration; in that build it is true.
\<close>

section \<open>The code\<close>

record MysqlConfig =
  mc_host :: string
  mc_port :: u16
  mc_user :: string
  mc_password :: string
  mc_database :: string
  mc_pool_size :: u32

definition mysql_config :: "Config \<Rightarrow> MysqlConfig" where
  "mysql_config cfg =
     \<lparr>mc_host = config_get cfg ''mysql_host'' ''127.0.0.1'', mc_port = word_of_int (get_int cfg ''mysql_port'' 3306),
      mc_user = config_get cfg ''mysql_user'' ''root'', mc_password = config_get cfg ''mysql_password'' [],
      mc_database = config_get cfg ''mysql_database'' ''chat_system'', mc_pool_size = get_u32 cfg ''mysql_pool_size'' 4\<rparr>"

text \<open>\<open>Logger::set_file\<close>; \<open>opens\<close> tells whether \<open>fopen\<close> succeeds.\<close>

datatype sink = Stderr | LogFile string

definition set_file :: "(string \<Rightarrow> bool) \<Rightarrow> string \<Rightarrow> sink" where
  "set_file opens path = (if path = [] then Stderr else if \<not> opens (c_str path) then Stderr else LogFile (c_str path))"

definition worker_count :: "u32 \<Rightarrow> Config \<Rightarrow> u32" where
  "worker_count hardware cfg =
     (let n = get_u32 cfg ''worker_threads'' 0 in if n = 0 then max 2 hardware else n)"

text \<open>What is registered with the reactor: the listener or a connection.\<close>

datatype callback = ListenCb | ConnCb conn_id

definition server_listen ::
  "(string \<Rightarrow> u32 option) \<Rightarrow> string \<Rightarrow> u16 \<Rightarrow> (callback, task) EpollReactor \<Rightarrow> net \<Rightarrow> bool \<times> fd \<times> (callback, task) EpollReactor \<times> net" where
  "server_listen inet_pton host port r n =
     (let (s, n) = listen_tcp inet_pton host port 1024 n
      in if \<not> socket_valid s then (False, s, r, n) else (True, s, snd (epoll_add s Read ListenCb r), n))"

record live_server =
  rn_level :: LogLevel
  rn_sink :: sink
  rn_cs :: chat_server
  rn_reactor :: "(callback, task) EpollReactor"
  rn_epfd :: fd
  rn_pool :: "(conn_id \<times> string) ThreadPool"
  rn_listener :: fd

text \<open>The world around the process.\<close>

record surroundings =
  w_opens :: "string \<Rightarrow> bool"
  w_inet_pton :: "string \<Rightarrow> u32 option"
  w_hardware :: u32
  w_ctl :: "nat \<Rightarrow> bool"
  w_clock :: "nat \<Rightarrow> i64"
  w_entropy :: "nat \<Rightarrow> u8"
  w_ub :: "double \<Rightarrow> i64"
  w_to_chars :: "double \<Rightarrow> string"

datatype init_error = MysqlPoolFailed | ReactorFailed | ListenFailed

definition chat_init :: "surroundings \<Rightarrow> (MysqlConfig \<Rightarrow> bool) \<Rightarrow> Config \<Rightarrow> net \<Rightarrow> (init_error + live_server) \<times> net" where
  "chat_init w pool_init cfg n =
     (let level = parse_level (config_get cfg ''log_level'' ''info'');
          lf = config_get cfg ''log_file'' [];
          out = (if lf \<noteq> [] then set_file (w_opens w) lf else Stderr);
          max_frame = get_u32 cfg ''max_frame_bytes'' 65536;
          max_message = get_u32 cfg ''max_message_bytes'' 4096;
          pbkdf2_iter = get_u32 cfg ''pbkdf2_iterations'' 120000
      in if \<not> pool_init (mysql_config cfg) then (Inl MysqlPoolFailed, n)
         else
           (let srv = ChatServer_init (word_of_int (get_int cfg ''session_ttl_seconds'' 604800)) max_message pbkdf2_iter
                  (w_clock w) (w_entropy w) (w_ub w) (w_to_chars w) Repositories_init;
                (ok, ep, wk, n) = epoll_init n
            in if \<not> ok then (Inl ReactorFailed, n)
               else
                 (let reactor = \<lparr>wake_fd = wk, ep_stopping = False, ep_cbs = [], ep_pending = [], ep_interest = [(wk, EPOLLIN)],
                        ep_answers = w_ctl w, ep_calls = 0\<rparr>;
                      pool = ThreadPool_new (unat (worker_count (w_hardware w) cfg));
                      cs = chat_start srv max_frame;
                      (ok, s, reactor, n) = server_listen (w_inet_pton w) (config_get cfg ''listen_host'' ''0.0.0.0'')
                        (word_of_int (get_int cfg ''listen_port'' 9000)) reactor n
                  in if \<not> ok then (Inl ListenFailed, n)
                     else (Inr \<lparr>rn_level = level, rn_sink = out, rn_cs = cs, rn_reactor = reactor, rn_epfd = ep, rn_pool = pool,
                             rn_listener = s\<rparr>, n))))"

text \<open>The first half of \<open>ChatServer::stop\<close>: the listener is removed and closed, the connections are told to close, the reactor is stopped.\<close>

definition chat_stop :: "live_server \<Rightarrow> net \<Rightarrow> live_server \<times> net" where
  "chat_stop x n =
     (let (x, n) =
            (if socket_valid (rn_listener x)
             then (let r = snd (epoll_remove (rn_listener x) (rn_reactor x)); (s, n) = Socket_close (rn_listener x) n
                   in (x\<lparr>rn_reactor := r, rn_listener := s\<rparr>, n))
             else (x, n));
          x = x\<lparr>rn_cs := server_stop (rn_cs x)\<rparr>
      in (x\<lparr>rn_reactor := epoll_stop (rn_reactor x), rn_pool := shutdown_store (rn_pool x)\<rparr>, n))"

text \<open>What \<open>main\<close> does before the loop runs: the usage, an exit with an error, or a server.\<close>

datatype main_result = Usage | ExitFailure init_error | Serving live_server

definition main_start ::
  "(string \<Rightarrow> int) \<Rightarrow> (string \<Rightarrow> string option) \<Rightarrow> (string \<Rightarrow> string option) \<Rightarrow> surroundings \<Rightarrow> (MysqlConfig \<Rightarrow> bool) \<Rightarrow> string list \<Rightarrow> net \<Rightarrow> main_result \<times> net"
where
  "main_start atoi files getenv w pool_init args n =
     (case main_args atoi args ([], [], -1) of
        None \<Rightarrow> (Usage, n)
      | Some opts \<Rightarrow>
          (case chat_init w pool_init (main_config files getenv opts) n of
             (Inl e, n) \<Rightarrow> (ExitFailure e, n)
           | (Inr x, n) \<Rightarrow> (Serving x, n)))"

section \<open>Properties\<close>

lemma init_server_inv: "server_inv 1 (ChatServer_init ttl mm iter clock entropy ub to_chars Repositories_init)"
  by (rule init_inv [OF store_inv_init]) (simp add: Repositories_init_def)

lemma chat_init_cases:
  assumes "chat_init w pool_init cfg n = (Inr x, n')"
  obtains ep wk n1 s where "epoll_init n = (True, ep, wk, n1)"
    and "listen_tcp (w_inet_pton w) (config_get cfg ''listen_host'' ''0.0.0.0'') (word_of_int (get_int cfg ''listen_port'' 9000)) 1024 n1 = (s, n')"
    and "socket_valid s" and "rn_listener x = s" and "rn_epfd x = ep"
    and "rn_reactor x = snd (epoll_add s Read ListenCb \<lparr>wake_fd = wk, ep_stopping = False, ep_cbs = [], ep_pending = [],
      ep_interest = [(wk, EPOLLIN)], ep_answers = w_ctl w, ep_calls = 0\<rparr>)"
    and "rn_pool x = ThreadPool_new (unat (worker_count (w_hardware w) cfg))"
    and "rn_cs x = chat_start (ChatServer_init (word_of_int (get_int cfg ''session_ttl_seconds'' 604800))
      (get_u32 cfg ''max_message_bytes'' 4096) (get_u32 cfg ''pbkdf2_iterations'' 120000) (w_clock w) (w_entropy w) (w_ub w)
      (w_to_chars w) Repositories_init) (get_u32 cfg ''max_frame_bytes'' 65536)"
  using assms unfolding chat_init_def server_listen_def Let_def
  by (auto split: prod.splits if_splits)

lemma chat_init_inv: "chat_init w pool_init cfg n = (Inr x, n') \<Longrightarrow> chat_inv 1 (rn_cs x)"
  by (erule chat_init_cases) (simp only: chat_start_inv [OF init_server_inv init_conns zero_less_one])

text \<open>Nothing else can make it fail.\<close>

lemma chat_init_succeeds:
  assumes "pool_init (mysql_config cfg)" and "epoll_init n = (True, ep, wk, n1)"
    and "listen_tcp (w_inet_pton w) (config_get cfg ''listen_host'' ''0.0.0.0'') (word_of_int (get_int cfg ''listen_port'' 9000)) 1024 n1 = (s, n')"
    and "socket_valid s"
  shows "\<exists>x. chat_init w pool_init cfg n = (Inr x, n') \<and> rn_epfd x = ep \<and> rn_listener x = s \<and> wake_fd (rn_reactor x) = wk"
  using assms epoll_call_keeps(4) [of "RAdd s Read ListenCb :: (callback, task) call"]
  by (simp add: chat_init_def server_listen_def Let_def)

lemma listener_registered:
  "w_ctl w 0 \<Longrightarrow> s \<noteq> wk \<Longrightarrow>
   map_of (ep_cbs (snd (epoll_add s Read ListenCb \<lparr>wake_fd = wk, ep_stopping = False, ep_cbs = [], ep_pending = [],
      ep_interest = [(wk, EPOLLIN)], ep_answers = w_ctl w, ep_calls = 0\<rparr>))) s = Some ListenCb"
  by (simp add: epoll_add_def epoll_ctl_def Let_def)

text \<open>An empty configuration on a machine whose calls succeed.\<close>

lemma init_example:
  "\<exists>x n'. chat_init \<lparr>w_opens = (\<lambda>_. True), w_inet_pton = (\<lambda>_. None), w_hardware = 8, w_ctl = (\<lambda>_. True), w_clock = (\<lambda>_. 1000),
       w_entropy = (\<lambda>_. 7), w_ub = (\<lambda>_. 0), w_to_chars = (\<lambda>_. [])\<rparr> (\<lambda>_. True) []
       \<lparr>n_answers = (\<lambda>k. if k = 0 then 3 else if k = 1 then 4 else if k = 3 then 5 else 0), n_trace = [], n_open = []\<rparr> = (Inr x, n') \<and>
     rn_epfd x = 3 \<and> rn_listener x = 5 \<and> wake_fd (rn_reactor x) = 4"
proof -
  let ?w = "\<lparr>w_opens = (\<lambda>_. True), w_inet_pton = (\<lambda>_. None), w_hardware = 8, w_ctl = (\<lambda>_. True), w_clock = (\<lambda>_. 1000),
       w_entropy = (\<lambda>_. 7), w_ub = (\<lambda>_. 0), w_to_chars = (\<lambda>_. [])\<rparr>"
  let ?cfg = "[] :: Config"
  let ?n = "\<lparr>n_answers = (\<lambda>k. if k = 0 then 3 else if k = 1 then 4 else if k = 3 then 5 else 0), n_trace = [], n_open = []\<rparr>"
  have host: "config_get ?cfg ''listen_host'' ''0.0.0.0'' = ''0.0.0.0''"
    by (simp add: config_get_def)
  have ep: "epoll_init ?n = (True, 3, 4, ?n\<lparr>n_trace := [SysEpollCreate, SysEventfd, SysEpollAdd 3 4], n_open := [4, 3]\<rparr>)"
    by (simp add: epoll_init_def sys_open_def sys_def socket_valid_def)
  define m where "m = ?n\<lparr>n_trace := [SysEpollCreate, SysEventfd, SysEpollAdd 3 4], n_open := [4, 3]\<rparr>"
  have "fst (listen_tcp f ''0.0.0.0'' port 1024 m) = 5" for f port
    by (simp add: m_def listen_tcp_def listen_addr_def sys_open_def sys_def socket_valid_def set_reuse_addr_def setsockopt_def
        set_non_blocking_def)
  then have ls: "\<exists>n'. listen_tcp f ''0.0.0.0'' port 1024 m = (5, n')" for f port
    by (metis prod.collapse)
  obtain n' where n': "listen_tcp (w_inet_pton ?w) (config_get ?cfg ''listen_host'' ''0.0.0.0'') (word_of_int (get_int ?cfg ''listen_port'' 9000)) 1024 m = (5, n')"
    unfolding host using ls by blast
  have ep': "epoll_init ?n = (True, 3, 4, m)" unfolding m_def by (rule ep)
  have ok: "socket_valid 5" by (simp add: socket_valid_def)
  show ?thesis
    using chat_init_succeeds [where pool_init = "\<lambda>_. True", OF TrueI ep' n' ok] by blast
qed



end
