(* ===== verification/Event_Loop.thy ===== *)
theory Event_Loop
  imports Startup
begin

text \<open>
  The loop of the epoll reactor drives the server: with the callbacks of \<open>Server\<close> and \<open>Connection\<close>, the closures they post and
  worker threads that run jobs, each turn of the loop is a sequence of steps of \<open>Chat_Server\<close>. So
  what is shown of every state the server reaches holds of the program that \<open>main\<close> starts.

  The client of the reactor is the state of the server together with a count of the batches of answers
  of the kernel that were used. A failed \<open>add\<close> is an answer \<open>False\<close> in the result of \<open>accept\<close>; other calls of
  \<open>epoll_ctl\<close> succeed.
\<close>

section \<open>The client of the reactor\<close>

record io =
  i_recv :: "recv_result list"
  i_send :: "send_result list"
  i_accept :: "accept_result list"

type_synonym world = "chat_server \<times> nat"

fun effect_call :: "conn_effect \<Rightarrow> (callback, task) call list" where
  "effect_call (Post t) = [RPost t]"
| "effect_call (Modify s w) = [RModify s (if w then Read OR Write else Read)]"
| "effect_call (RemoveFd s) = [RRemove s]"
| "effect_call _ = []"

definition conn_calls :: "conn_id \<Rightarrow> conn_op \<Rightarrow> chat_server \<Rightarrow> (callback, task) call list" where
  "conn_calls i x cs =
     (case map_of (srv_conns (cs_srv cs)) i of None \<Rightarrow> [] | Some c \<Rightarrow> concat (map effect_call (snd (conn_step x c))))"

text \<open>\<open>on_listen_event\<close> with the calls of \<open>start\<close>; \<open>accept\<close> never returns a descriptor that is in use.\<close>

fun accept_all :: "accept_result list \<Rightarrow> chat_server \<Rightarrow> (callback, task) call list \<times> chat_server" where
  "accept_all [] cs = ([], cs)"
| "accept_all (Accepted s ok # rs) cs =
     (if \<not> fresh_fd s cs then ([], cs)
      else
        (let (calls, cs') = accept_all rs (on_accept s ok cs)
         in ((if ok then [RAdd s Read (ConnCb (cs_next_id cs))] else []) @ calls, cs')))"
| "accept_all (AcceptErr e # rs) cs = ([], cs)"

fun on_callback :: "(nat \<Rightarrow> io) \<Rightarrow> callback \<Rightarrow> i32 \<Rightarrow> world \<Rightarrow> (callback, task) call list \<times> world" where
  "on_callback io ListenCb m (cs, k) = (let (calls, cs') = accept_all (i_accept (io k)) cs in (calls, (cs', k + 1)))"
| "on_callback io (ConnCb i) m (cs, k) =
     (let x = DoEvent (m AND Read \<noteq> 0) (m AND Write \<noteq> 0) (i_recv (io k)) (i_send (io k))
      in (conn_calls i x cs, (conn_do i x cs, k + 1)))"

text \<open>A closure of a batch; the record of the closures that are posted and not run loses its head.\<close>

fun on_task :: "(nat \<Rightarrow> io) \<Rightarrow> task \<Rightarrow> world \<Rightarrow> (callback, task) call list \<times> world" where
  "on_task io t (cs, k) =
     (let x = DoTask t (i_send (io k));
          cs1 = cs\<lparr>cs_srv := (cs_srv cs)\<lparr>srv_posts := tl (srv_posts (cs_srv cs))\<rparr>\<rparr>
      in (conn_calls (task_conn t) x cs1, (conn_do (task_conn t) x cs1, k + 1)))"

text \<open>The workers run the jobs \<open>picks n\<close> while the reactor waits in turn \<open>n\<close>, and \<open>stop\<close> may be called.\<close>

definition workers_act :: "(nat \<Rightarrow> nat list) \<Rightarrow> (nat \<Rightarrow> bool) \<Rightarrow> nat \<Rightarrow> world \<Rightarrow> (callback, task) call list \<times> world" where
  "workers_act picks stops n = (\<lambda>(cs, k).
     let cs' = fold run_job (picks n) cs
     in (map RPost (drop (length (srv_posts (cs_srv cs))) (srv_posts (cs_srv cs'))) @ (if stops n then [RStop] else []), (cs', k)))"

section \<open>The link between the reactor and the server\<close>

definition linked :: "task list \<Rightarrow> (callback, task) EpollReactor \<Rightarrow> chat_server \<Rightarrow> bool" where
  "linked rest r cs \<longleftrightarrow>
     ep_answers r = (\<lambda>_. True) \<and> srv_posts (cs_srv cs) = rest @ ep_pending r \<and>
     (\<forall>s i. map_of (ep_cbs r) s = Some (ConnCb i) \<longleftrightarrow> map_of (cs_cbs cs) s = Some i)"

interpretation queue: state_order "\<lambda>s s'. prefix (srv_posts s) (srv_posts s')"
  by unfold_locales (auto simp: advances_def conn_set_def conn_call_def split_beta Let_def split: option.split)

lemma epoll_ctl_answers: "ep_answers (snd (epoll_ctl c s ev r)) = ep_answers r"
  by (simp add: epoll_ctl_def Let_def)

lemma epoll_call_answers [simp]: "ep_answers (epoll_call c r) = ep_answers r"
  by (cases c) (simp_all add: epoll_add_def epoll_modify_def epoll_remove_def epoll_post_def epoll_stop_def epoll_ctl_answers
      split_beta Let_def)

lemma epoll_add_succeeds: "ep_answers r = (\<lambda>_. True) \<Longrightarrow> fst (epoll_add s ev cb r)"
  by (auto simp: epoll_add_def epoll_ctl_def Let_def)

lemma on_close_posts: "srv_posts (snd (on_close i s)) = srv_posts s"
  by (simp add: on_close_def presence_unbind_def transition_handler_def seq_def conn_field_def ret_def now_unix_ms_def repos_do_def
      split_beta Let_def split: sum.split)

lemma close_handler_keeps:
  "srv_posts (cs_srv (close_handler i cs)) = srv_posts (cs_srv cs)" "cs_cbs (close_handler i cs) = cs_cbs cs"
  using on_close_posts [of i "cs_srv cs"]
  by (auto simp: close_handler_def unregister_connection_def split: prod.splits sum.splits)

lemma linked_effect: "linked rest r cs \<Longrightarrow> linked rest (fold epoll_call (effect_call e) r) (apply_effect i e cs)"
  by (cases e) (auto simp: linked_def epoll_call_keeps close_handler_keeps on_frame_def delete_conv' simp del: epoll_call.simps split: if_splits)

lemma linked_effects: "linked rest r cs \<Longrightarrow> linked rest (fold epoll_call (concat (map effect_call es)) r) (fold (apply_effect i) es cs)"
  by (induction es arbitrary: r cs) (simp_all add: linked_effect)

lemma linked_conn:
  assumes "linked rest r cs"
  shows "linked rest (fold epoll_call (conn_calls i x cs) r) (conn_do i x cs)"
proof (cases "map_of (srv_conns (cs_srv cs)) i")
  case (Some c)
  have "linked rest r (cs\<lparr>cs_srv := (cs_srv cs)\<lparr>srv_conns := cn\<rparr>\<rparr>)" for cn
    using assms by (simp add: linked_def)
  from linked_effects [OF this] Some show ?thesis
    by (simp add: conn_calls_def conn_do_def split_beta Let_def)
qed (use assms in \<open>simp add: conn_calls_def conn_do_def\<close>)

lemma linked_accept:
  "linked rest r cs \<Longrightarrow> linked rest (fold epoll_call (if ok then [RAdd s Read (ConnCb (cs_next_id cs))] else []) r) (on_accept s ok cs)"
  by (auto simp: linked_def on_accept_def register_connection_def epoll_call_keeps epoll_add_succeeds update_conv' Let_def
      simp del: epoll_call.simps)

text \<open>A state of the loop that the server can reach from \<open>cs0\<close>.\<close>

definition tracks :: "chat_server \<Rightarrow> task list \<Rightarrow> (callback, task) EpollReactor \<times> world \<Rightarrow> bool" where
  "tracks cs0 rest = (\<lambda>(r, cs, k). linked rest r cs \<and> (\<exists>j. reaches cs0 j cs))"

lemma tracksI: "linked rest r cs' \<Longrightarrow> tracks cs0 rest' (r', cs, k) \<Longrightarrow> step cs cs' \<Longrightarrow> tracks cs0 rest (r, cs', k')"
  by (auto simp: tracks_def intro: reaches.more)

lemma accept_all_tracks:
  "tracks cs0 [] (r, cs, k) \<Longrightarrow> accept_all rs cs = (calls, cs') \<Longrightarrow> tracks cs0 [] (fold epoll_call calls r, cs', k')"
proof (induction rs cs arbitrary: r calls rule: accept_all.induct)
  case (2 s ok rs cs)
  show ?case
  proof (cases "fresh_fd s cs")
    case True
    obtain more where more: "accept_all rs (on_accept s ok cs) = (more, cs')"
      and calls: "calls = (if ok then [RAdd s Read (ConnCb (cs_next_id cs))] else []) @ more"
      using 2(3) True by (auto split: prod.splits)
    have "linked [] (fold epoll_call (if ok then [RAdd s Read (ConnCb (cs_next_id cs))] else []) r) (on_accept s ok cs)"
      using 2(2) by (intro linked_accept) (simp add: tracks_def)
    from tracksI [OF this 2(2) step.accept [OF True]] 2(1) [OF _ _ more] True
    show ?thesis unfolding calls fold_append comp_def by blast
  qed (use 2 in \<open>simp add: tracks_def\<close>)
qed (auto simp: tracks_def)

lemma tracks_callback:
  assumes "tracks cs0 [] (r, w)" and "map_of (ep_cbs r) s = Some cb" and "on_callback io cb m w = (calls, w')"
  shows "tracks cs0 [] (fold epoll_call calls r, w')"
proof -
  obtain cs k where w: "w = (cs, k)" by (cases w)
  show ?thesis
  proof (cases cb)
    case ListenCb
    with assms w show ?thesis by (auto split: prod.splits intro: accept_all_tracks)
  next
    case (ConnCb i)
    let ?x = "DoEvent (m AND Read \<noteq> 0) (m AND Write \<noteq> 0) (i_recv (io k)) (i_send (io k))"
    have l: "linked [] r cs" using assms(1) by (simp add: tracks_def w)
    then have "map_of (cs_cbs cs) s = Some i" using assms(2) ConnCb by (simp add: linked_def)
    then have "step cs (conn_do i ?x cs)"
      using step.event [of cs s "m AND Read \<noteq> 0" "m AND Write \<noteq> 0" "i_recv (io k)" "i_send (io k)"] by (simp add: reactor_event_def)
    from tracksI [OF linked_conn [OF l] assms(1) [unfolded w] this] assms(3) ConnCb w show ?thesis by (auto simp: Let_def)
  qed
qed

lemma tracks_batch:
  "tracks cs0 fs x \<Longrightarrow> tracks cs0 [] (run_batch epoll_call (on_task io) fs x)"
proof (induction fs arbitrary: x)
  case (Cons f fs)
  obtain r cs k where x: "x = (r, cs, k)" by (cases x)
  have l: "linked (f # fs) r cs" using Cons.prems by (simp add: tracks_def x)
  let ?cs = "cs\<lparr>cs_srv := (cs_srv cs)\<lparr>srv_posts := fs @ ep_pending r\<rparr>\<rparr>"
  let ?do = "DoTask f (i_send (io k))"
  have fs: "srv_posts (cs_srv cs) = f # fs @ ep_pending r" and "linked fs r ?cs" using l by (simp_all add: linked_def)
  from linked_conn [OF this(2)]
  have "linked fs (fold epoll_call (conn_calls (task_conn f) ?do ?cs) r) (run_posted (i_send (io k)) cs)"
    by (simp add: fs run_posted_def)
  from tracksI [OF this Cons.prems [unfolded x] step.posted] Cons.IH show ?case by (simp add: x fs run_posted_def Let_def)
qed simp

lemma tracks_event: "tracks cs0 [] x \<Longrightarrow> tracks cs0 [] (epoll_event (on_callback io) (on_task io) e x)"
proof -
  assume t: "tracks cs0 [] x"
  obtain r w where x: "x = (r, w)" by (cases x)
  have "tracks cs0 (ep_pending r) (r\<lparr>ep_pending := []\<rparr>, w)"
    using t by (cases w) (simp add: tracks_def linked_def x)
  from tracks_batch [OF this] tracks_callback [OF t [unfolded x]] t show ?thesis
    by (auto simp: epoll_event_def epoll_drain_posts_def x split: prod.splits option.splits)
qed

lemma tracks_turn: "tracks cs0 [] x \<Longrightarrow> tracks cs0 [] (epoll_turn (on_callback io) (on_task io) es x)"
  unfolding epoll_turn_def by (induction es arbitrary: x) (simp_all add: tracks_event)

lemma run_jobs_keep:
  "prefix (srv_posts (cs_srv cs)) (srv_posts (cs_srv (fold run_job js cs))) \<and> cs_cbs (fold run_job js cs) = cs_cbs cs"
proof (induction js arbitrary: cs)
  case (Cons j js)
  have "prefix (srv_posts (cs_srv cs)) (srv_posts (cs_srv (run_job j cs))) \<and> cs_cbs (run_job j cs) = cs_cbs cs"
    using queue.adv_dispatch by (auto simp: run_job_def advances_def split_beta Let_def)
  with Cons.IH [of "run_job j cs"] show ?case by (auto intro: prefix_order.trans)
qed simp

lemma reaches_jobs: "reaches cs0 j cs \<Longrightarrow> \<exists>j'. reaches cs0 j' (fold run_job js cs)"
proof (induction js arbitrary: j cs)
  case (Cons i js)
  from Cons.IH [OF reaches.more [OF Cons.prems step.job]] show ?case by simp
qed auto

lemma post_all:
  "ep_pending (fold epoll_call (map RPost ts) r) = ep_pending r @ ts" "ep_cbs (fold epoll_call (map RPost ts) r) = ep_cbs r"
  "ep_answers (fold epoll_call (map RPost ts) r) = ep_answers r"
  by (induction ts arbitrary: r) (simp_all add: epoll_post_def)

lemma tracks_workers:
  assumes "tracks cs0 [] (r, w)"
  shows "tracks cs0 [] (fold epoll_call (fst (workers_act picks stops n w)) r, snd (workers_act picks stops n w))"
proof -
  obtain cs k where w: "w = (cs, k)" by (cases w)
  obtain new where "srv_posts (cs_srv (fold run_job (picks n) cs)) = srv_posts (cs_srv cs) @ new"
    using run_jobs_keep [of cs "picks n"] by (auto simp: prefix_def)
  with assms run_jobs_keep [of cs "picks n"] reaches_jobs show ?thesis
    by (auto simp: w tracks_def linked_def workers_act_def post_all epoll_stop_def Let_def)
qed

text \<open>What holds at the start, and is kept by the other threads and by each turn, holds when the loop returns.\<close>

lemma epoll_run_invariant:
  assumes "epoll_run call fire act wait n x = Some y" and "I x"
    and act: "\<And>n r w. I (r, w) \<Longrightarrow> I (fold epoll_call (fst (act n w)) r, snd (act n w))"
    and turn: "\<And>es x. I x \<Longrightarrow> I (epoll_turn call fire es x)"
  shows "I y"
proof -
  let ?P = "\<lambda>call' fire' act' wait' n x y. call' = call \<and> fire' = fire \<and> act' = act \<longrightarrow> I x \<longrightarrow> I y"
  have "?P call fire act wait n x y"
  proof (rule epoll_run.raw_induct [where P = ?P and xa = "(((((call, fire), act), wait), n), x)", unfolded prod.case, OF _ assms(1)])
    fix run call' fire' act' wait' n x y
    assume IH: "\<And>call' fire' act' wait' n x y. run call' fire' act' wait' n x = Some y \<Longrightarrow> ?P call' fire' act' wait' n x y"
      and eq: "(if ep_stopping (fst x) then Some x
        else let x' = (fold epoll_call (fst (act' n (snd x))) (fst x), snd (act' n (snd x)))
             in case wait' n of Waited es \<Rightarrow> run call' fire' act' wait' (n + 1) (epoll_turn call' fire' es x')
                | WaitErr e \<Rightarrow> if e = EINTR then run call' fire' act' wait' (n + 1) x' else Some x') = Some y"
    show "?P call' fire' act' wait' n x y"
    proof (intro impI, elim conjE)
      assume same: "call' = call" "fire' = fire" "act' = act" and x: "I x"
      from act [of "fst x" "snd x" n] x have x': "I (fold epoll_call (fst (act n (snd x))) (fst x), snd (act n (snd x)))" by simp
      from eq x x' turn [OF x'] IH show "I y"
        by (auto simp: Let_def same split: if_splits wait_result.splits)
    qed
  qed
  with assms(2) show ?thesis by simp
qed

lemma tracks_run:
  assumes "epoll_run (on_callback io) (on_task io) (workers_act picks stops) wait n x = Some y" and "tracks cs0 [] x"
  shows "tracks cs0 [] y"
  by (rule epoll_run_invariant [where I = "tracks cs0 []", OF assms]) (auto intro: tracks_workers tracks_turn)

lemma linked_start:
  assumes "chat_init w pool_init cfg n = (Inr x, n')" and "w_ctl w = (\<lambda>_. True)"
  shows "linked [] (rn_reactor x) (rn_cs x)"
  by (rule chat_init_cases [OF assms(1)])
    (auto simp: linked_def assms(2) chat_start_def ChatServer_init_def epoll_add_def epoll_ctl_def Let_def split: if_splits)



end
