(* ===== verification/Client.thy ===== *)
theory Client
  imports Handlers Framing
begin

text \<open>
  The interactive client (\<open>src/client/cli_client.cpp\<close>): the words of a line, the request that a command
  makes, and the two loops, one over the lines that are typed and one over the bytes of the server. What
  \<open>send\<close> and \<open>recv\<close> return is given to the loops; the indented text that \<open>dump (2)\<close> prints of a value is
  left as the value.
\<close>

section \<open>The code\<close>

subsection \<open>Words\<close>

function tokens_loop :: "nat \<Rightarrow> string \<Rightarrow> string list \<Rightarrow> string \<times> string list" where
  "tokens_loop mx s out =
     (if s \<noteq> [] \<and> length out + 1 < mx
      then
        (let s = dropWhile isspace s; w = takeWhile (\<lambda>c. \<not> isspace c) s
         in tokens_loop mx (dropWhile (\<lambda>c. \<not> isspace c) s) (if w \<noteq> [] then out @ [w] else out))
      else (s, out))"
  by pat_completeness auto
termination
proof (relation "measure (\<lambda>(mx, s, out). length s)", goal_cases)
  case (2 mx s out x xa)
  have "length (dropWhile P (dropWhile Q s)) \<le> length (dropWhile Q s)" for P Q
    by (rule length_dropWhile_le)
  moreover have "length (dropWhile isspace s) \<le> length s" by (rule length_dropWhile_le)
  moreover have "length (dropWhile (\<lambda>c. \<not> isspace c) s) < length s" if "\<not> isspace (hd s)"
    using 2 that by (cases s) (auto simp: less_Suc_eq_le length_dropWhile_le)
  moreover have "length (dropWhile isspace s) < length s" if "isspace (hd s)"
    using 2 that by (cases s) (auto simp: less_Suc_eq_le length_dropWhile_le)
  moreover have "dropWhile isspace s = s" if "\<not> isspace (hd s)"
    using 2 that by (cases s) auto
  ultimately show ?case using 2
    by (cases "isspace (hd s)") (auto intro: le_less_trans)
qed auto

declare tokens_loop.simps [simp del]

definition tokens :: "string \<Rightarrow> nat \<Rightarrow> string list" where
  "tokens s mx =
     (let (s, out) = tokens_loop mx s []; s = dropWhile isspace s in if s \<noteq> [] then out @ [s] else out)"

subsection \<open>Commands\<close>

text \<open>\<open>Terminated\<close> is an exception of \<open>std::stoll\<close> or \<open>std::stoi\<close> that nothing catches.\<close>

datatype action = Help | Quit | Unknown | Request json | Terminated

definition with_i64 :: "string \<Rightarrow> (i64 \<Rightarrow> action) \<Rightarrow> action" where
  "with_i64 s f = (case stoll s of None \<Rightarrow> Terminated | Some v \<Rightarrow> f v)"

text \<open>\<open>if (t.size () >= 3) req["limit"] = std::stoi (t[2])\<close>.\<close>

definition with_limit :: "string list \<Rightarrow> (string \<times> json) list \<Rightarrow> action" where
  "with_limit t kvs =
     (if length t \<ge> 3
      then (case stoi (t ! 2) of None \<Rightarrow> Terminated | Some v \<Rightarrow> Request (json_build (kvs @ [(''limit'', JInt (word_of_int v))])))
      else Request (json_build kvs))"

definition command :: "i64 \<Rightarrow> string list \<Rightarrow> action" where
  "command seq_no t =
     (let cmd = t ! 0; rid = (''id'', JInt seq_no)
      in if cmd = '':help'' then Help
         else if cmd = '':quit'' then Quit
         else if cmd = '':ping'' then Request (json_build [rid, (''type'', JString ''ping'')])
         else if cmd = '':register'' \<and> length t \<ge> 3 then
           Request (json_build [rid, (''type'', JString ''register''), (''username'', JString (t ! 1)), (''password'', JString (t ! 2))])
         else if cmd = '':login'' \<and> length t \<ge> 3 then
           Request (json_build [rid, (''type'', JString ''login''), (''username'', JString (t ! 1)), (''password'', JString (t ! 2))])
         else if cmd = '':logout'' then Request (json_build [rid, (''type'', JString ''logout'')])
         else if cmd = '':dm'' \<and> length t \<ge> 3 then
           with_i64 (t ! 1) (\<lambda>v. Request (json_build
             [rid, (''type'', JString ''send_dm''), (''receiver_id'', JInt v), (''content'', JString (t ! 2))]))
         else if cmd = '':create_room'' \<and> length t \<ge> 2 then
           Request (json_build [rid, (''type'', JString ''create_room''), (''name'', JString (t ! 1))])
         else if cmd = '':join'' \<and> length t \<ge> 2 then
           Request (json_build [rid, (''type'', JString ''join_room''),
             (case stoll (t ! 1) of Some v \<Rightarrow> (''room_id'', JInt v) | None \<Rightarrow> (''name'', JString (t ! 1)))])
         else if cmd = '':leave'' \<and> length t \<ge> 2 then
           with_i64 (t ! 1) (\<lambda>v. Request (json_build [rid, (''type'', JString ''leave_room''), (''room_id'', JInt v)]))
         else if cmd = '':rooms'' then Request (json_build [rid, (''type'', JString ''list_rooms'')])
         else if cmd = '':room'' \<and> length t \<ge> 3 then
           with_i64 (t ! 1) (\<lambda>v. Request (json_build
             [rid, (''type'', JString ''send_room''), (''room_id'', JInt v), (''content'', JString (t ! 2))]))
         else if cmd = '':history_dm'' \<and> length t \<ge> 2 then
           with_i64 (t ! 1) (\<lambda>v. with_limit t [rid, (''type'', JString ''history_dm''), (''user_id'', JInt v)])
         else if cmd = '':history_room'' \<and> length t \<ge> 2 then
           with_i64 (t ! 1) (\<lambda>v. with_limit t [rid, (''type'', JString ''history_room''), (''room_id'', JInt v)])
         else if cmd = '':presence'' \<and> length t \<ge> 2 then
           with_i64 (t ! 1) (\<lambda>v. Request (json_build [rid, (''type'', JString ''presence''), (''user_id'', JInt v)]))
         else Unknown)"

subsection \<open>Sending\<close>

text \<open>
  The loop of \<open>send_frame\<close> over the results of \<open>send\<close>, which never exceed what is left: the bytes that
  went out and whether all did. \<^const>\<open>None\<close> when the results end while the call still blocks.
\<close>

fun send_loop :: "int list \<Rightarrow> string \<Rightarrow> string \<Rightarrow> (bool \<times> string) option" where
  "send_loop ns [] sent = Some (True, sent)"
| "send_loop [] (c # cs) sent = None"
| "send_loop (n # ns) (c # cs) sent =
     (if n \<le> 0 then Some (False, sent) else send_loop ns (drop (nat n) (c # cs)) (sent @ take (nat n) (c # cs)))"

text \<open>\<open>dump\<close> throws on a text that is not UTF-8, and nothing catches that.\<close>

datatype client_state = Running | Stopped | Dead

definition client_send_frame :: "(double \<Rightarrow> string) \<Rightarrow> int list \<Rightarrow> json \<Rightarrow> (client_state \<times> string) option" where
  "client_send_frame to_chars ns j =
     (case dump to_chars j of
        None \<Rightarrow> Some (Dead, [])
      | Some text \<Rightarrow> map_option (\<lambda>(ok, sent). (if ok then Running else Stopped, sent)) (send_loop ns (frame text) []))"

text \<open>
  One turn of the loop of \<open>main\<close>: a line and the results of \<open>send\<close>. The result is the state of the
  client, the next sequence number and the bytes that were sent.
\<close>

definition client_line :: "(double \<Rightarrow> string) \<Rightarrow> int list \<Rightarrow> string \<Rightarrow> i64 \<Rightarrow> (client_state \<times> i64 \<times> string) option" where
  "client_line to_chars ns line seq_no =
     (if line = [] then Some (Running, seq_no, [])
      else
        (let t = tokens line 16
         in if t = [] then Some (Running, seq_no, [])
            else
              (case command seq_no t of
                 Help \<Rightarrow> Some (Running, seq_no + 1, [])
               | Quit \<Rightarrow> Some (Stopped, seq_no + 1, [])
               | Unknown \<Rightarrow> Some (Running, seq_no + 1, [])
               | Terminated \<Rightarrow> Some (Dead, seq_no + 1, [])
               | Request j \<Rightarrow> map_option (\<lambda>(state, sent). (state, seq_no + 1, sent)) (client_send_frame to_chars ns j))))"

fun client_lines :: "(double \<Rightarrow> string) \<Rightarrow> (string \<times> int list) list \<Rightarrow> i64 \<Rightarrow> string \<Rightarrow> (client_state \<times> string) option" where
  "client_lines to_chars [] seq_no sent = Some (Stopped, sent)"
| "client_lines to_chars ((line, ns) # ls) seq_no sent =
     (case client_line to_chars ns line seq_no of
        None \<Rightarrow> None
      | Some (state, k, bs) \<Rightarrow>
          if state = Running then client_lines to_chars ls k (sent @ bs) else Some (state, sent @ bs))"

subsection \<open>Receiving\<close>

datatype shown = Line string | Shown json

definition what :: "frame_error \<Rightarrow> string" where
  "what e = (case e of ZeroLengthFrame \<Rightarrow> ''zero-length frame'' | FrameExceedsMax \<Rightarrow> ''frame exceeds max_frame_bytes'')"

definition show_frame :: "string \<Rightarrow> shown" where
  "show_frame f = (case json_parse f of None \<Rightarrow> Line ''[non-json frame]'' | Some j \<Rightarrow> Shown j)"

text \<open>
  The loop over the results of \<open>recv\<close>, an empty one for the end or an error. The result is what was
  printed and whether the loop stopped the client.
\<close>

fun reader_loop :: "u8 list list \<Rightarrow> FrameDecoder \<Rightarrow> shown list \<Rightarrow> shown list \<times> bool" where
  "reader_loop [] dec out = (out, False)"
| "reader_loop (bs # rs) dec out =
     (if bs = [] then (out @ [Line ''[server closed connection]''], True)
      else
        (case FrameDecoder_feed dec bs of
           (dec', Inr fs) \<Rightarrow> reader_loop rs dec' (out @ map show_frame fs)
         | (dec', Inl e) \<Rightarrow> (out @ [Line (''[bad frame] '' @ what e)], True)))"

section \<open>Words\<close>

fun unwords :: "string list \<Rightarrow> string" where
  "unwords [] = []"
| "unwords [w] = w"
| "unwords (w # v # ws) = w @ CHR '' '' # unwords (v # ws)"

definition is_word :: "string \<Rightarrow> bool" where
  "is_word w \<longleftrightarrow> w \<noteq> [] \<and> list_all (\<lambda>c. \<not> isspace c) w"

definition blank :: "string list \<Rightarrow> string" where
  "blank ws = (if ws = [] then [] else '' '')"

lemma unwords_Cons: "unwords (w # ws) = w @ blank ws @ unwords ws"
  by (cases ws) (simp_all add: blank_def)

lemma blank_space: "list_all isspace (blank ws)"
  by (simp add: blank_def isspace_def)

lemma word_front:
  assumes "is_word w" and "list_all isspace pre" and "r = [] \<or> isspace (hd r)"
  shows "dropWhile isspace (pre @ w @ r) = w @ r" and "takeWhile (\<lambda>c. \<not> isspace c) (w @ r) = w"
    and "dropWhile (\<lambda>c. \<not> isspace c) (w @ r) = r"
proof -
  obtain c v where w: "w = c # v" and "\<not> isspace c" using assms(1) by (cases w) (auto simp: is_word_def)
  with assms(2) show "dropWhile isspace (pre @ w @ r) = w @ r"
    by (simp add: dropWhile_append list_all_iff)
  show "takeWhile (\<lambda>c. \<not> isspace c) (w @ r) = w" "dropWhile (\<lambda>c. \<not> isspace c) (w @ r) = r"
    using assms(1,3) by (cases r; auto simp: is_word_def takeWhile_append dropWhile_append list_all_iff)+
qed

lemma tokens_loop_nil: "tokens_loop mx [] out = ([], out)"
  by (subst tokens_loop.simps) simp

lemma tokens_loop_words:
  assumes "list_all is_word ws" and "list_all isspace pre"
  shows "dropWhile isspace (fst (tokens_loop mx (pre @ unwords ws) out)) = unwords (drop (mx - 1 - length out) ws) \<and>
    snd (tokens_loop mx (pre @ unwords ws) out) = out @ take (mx - 1 - length out) ws"
  using assms
proof (induction ws arbitrary: pre out)
  case Nil
  then have drop: "dropWhile isspace pre = []" by (simp add: list_all_iff)
  have "tokens_loop mx pre out = (if pre \<noteq> [] \<and> length out + 1 < mx then ([], out) else (pre, out))"
    by (subst tokens_loop.simps) (simp add: drop Let_def tokens_loop_nil)
  with drop show ?case by simp
next
  case (Cons w ws)
  have w: "is_word w" and ws: "list_all is_word ws" using Cons.prems(1) by simp_all
  have "blank ws @ unwords ws = [] \<or> isspace (hd (blank ws @ unwords ws))"
    by (simp add: blank_def isspace_def)
  note front = word_front [OF w Cons.prems(2) this]
  have ne: "pre @ w @ blank ws @ unwords ws \<noteq> []" "w \<noteq> []" using w by (simp_all add: is_word_def)
  show ?case
  proof (cases "length out + 1 < mx")
    case True
    then have "tokens_loop mx (pre @ unwords (w # ws)) out = tokens_loop mx (blank ws @ unwords ws) (out @ [w])"
      using ne by (subst tokens_loop.simps) (simp add: unwords_Cons front Let_def)
    moreover have "mx - 1 - length out = Suc (mx - 1 - length (out @ [w]))" using True by simp
    ultimately show ?thesis using Cons.IH [OF ws blank_space, of ws "out @ [w]"] by simp
  next
    case False
    then have "tokens_loop mx (pre @ unwords (w # ws)) out = (pre @ unwords (w # ws), out)"
      by (subst tokens_loop.simps) simp
    with False front(1) show ?thesis by (simp add: unwords_Cons)
  qed
qed

lemma unwords_eq_Nil: "list_all is_word ws \<Longrightarrow> unwords ws = [] \<longleftrightarrow> ws = []"
  by (cases ws) (simp_all add: unwords_Cons is_word_def)

text \<open>
  The words of a line come back, the first \<open>mx - 1\<close> of them one by one and the rest as a whole. So the third
  word of a line with fewer than 16 words is one word, not the rest of the line.
\<close>

lemma tokens_unwords:
  assumes "list_all is_word ws" and "0 < mx"
  shows "tokens (unwords ws) mx = (if length ws < mx then ws else take (mx - 1) ws @ [unwords (drop (mx - 1) ws)])"
proof -
  have "list_all is_word (drop (mx - 1) ws)" using assms(1) by (metis append_take_drop_id list_all_append)
  note nil = unwords_eq_Nil [OF this]
  have "tokens (unwords ws) mx =
      (if drop (mx - 1) ws \<noteq> [] then take (mx - 1) ws @ [unwords (drop (mx - 1) ws)] else take (mx - 1) ws)"
    using tokens_loop_words [OF assms(1), of "[]" mx "[]"] nil by (simp only: tokens_def split_beta Let_def) simp
  then show ?thesis using assms(2) by auto
qed

section \<open>Requests\<close>

text \<open>The form of every request, as stores into a fresh value.\<close>

definition field_ok :: "string list \<Rightarrow> string \<times> json \<Rightarrow> bool" where
  "field_ok t kv \<longleftrightarrow>
     fst kv \<in> {''username'', ''password'', ''receiver_id'', ''content'', ''name'', ''room_id'', ''user_id'', ''limit''} \<and>
     (case snd kv of JInt v \<Rightarrow> True | JString w \<Rightarrow> w \<in> set t | _ \<Rightarrow> False)"

definition formed :: "i64 \<Rightarrow> string list \<Rightarrow> action \<Rightarrow> bool" where
  "formed n t a \<longleftrightarrow>
     (\<forall>j. a = Request j \<longrightarrow>
        (\<exists>ty kvs. j = json_build ((''id'', JInt n) # (''type'', JString ty) # kvs) \<and> ty \<in> fst ` set table \<and>
           list_all (field_ok t) kvs))"

lemma formed_request:
  "ty \<in> fst ` set table \<Longrightarrow> list_all (field_ok t) kvs \<Longrightarrow>
   formed n t (Request (json_build ((''id'', JInt n) # (''type'', JString ty) # kvs)))"
  unfolding formed_def by blast

lemma formed_if: "(b \<Longrightarrow> formed n t x) \<Longrightarrow> formed n t y \<Longrightarrow> formed n t (if b then x else y)"
  by simp

lemma formed_i64: "(\<And>v. formed n t (f v)) \<Longrightarrow> formed n t (with_i64 s f)"
  by (simp add: with_i64_def formed_def split: option.split)

lemma formed_limit:
  "ty \<in> fst ` set table \<Longrightarrow> list_all (field_ok t) kvs \<Longrightarrow>
   formed n t (with_limit t ((''id'', JInt n) # (''type'', JString ty) # kvs))"
  using formed_request [of ty t kvs n] formed_request [of ty t "kvs @ [(''limit'', JInt v)]" n for v]
  by (simp add: with_limit_def field_ok_def formed_def [of n t Terminated] split: option.split)

lemma formed_other: "formed n t Help" "formed n t Quit" "formed n t Unknown"
  by (simp_all add: formed_def)

lemma command_formed: "formed n t (command n t)"
  unfolding command_def Let_def
  by (intro formed_if formed_i64 formed_other formed_limit formed_request)
    (simp_all add: table_def field_ok_def split: option.split)

text \<open>The values of the fields, as the server reads them.\<close>

lemma utf8_keys: "fst kv \<in> {''username'', ''password'', ''receiver_id'', ''content'', ''name'', ''room_id'', ''user_id'', ''limit''} \<Longrightarrow> utf8 (fst kv)"
  by (auto simp: tail_ranges_def)

lemma command_printable:
  assumes "command n t = Request j" and "list_all utf8 t"
  shows "printable j"
proof -
  obtain ty kvs where j: "j = json_build ((''id'', JInt n) # (''type'', JString ty) # kvs)" and ty: "ty \<in> fst ` set table"
    and kvs: "list_all (field_ok t) kvs"
    using command_formed [of n t] assms(1) unfolding formed_def by blast
  have "utf8 ty" using ty by (auto simp: table_def tail_ranges_def)
  moreover have "utf8 (fst kv) \<and> printable (snd kv)" if "kv \<in> set kvs" for kv
    using that kvs assms(2) utf8_keys [of kv] by (cases "snd kv") (auto simp: list_all_iff field_ok_def)
  ultimately show ?thesis unfolding j by (intro printable_build) (auto simp: tail_ranges_def)
qed

lemma command_cases:
  "t ! 0 = '':dm'' \<Longrightarrow> command n t = (if length t \<ge> 3 then with_i64 (t ! 1) (\<lambda>v. Request (json_build
     [(''id'', JInt n), (''type'', JString ''send_dm''), (''receiver_id'', JInt v), (''content'', JString (t ! 2))])) else Unknown)"
  "t ! 0 = '':room'' \<Longrightarrow> command n t = (if length t \<ge> 3 then with_i64 (t ! 1) (\<lambda>v. Request (json_build
     [(''id'', JInt n), (''type'', JString ''send_room''), (''room_id'', JInt v), (''content'', JString (t ! 2))])) else Unknown)"
  "t ! 0 = '':register'' \<Longrightarrow> command n t = (if length t \<ge> 3 then Request (json_build
     [(''id'', JInt n), (''type'', JString ''register''), (''username'', JString (t ! 1)), (''password'', JString (t ! 2))]) else Unknown)"
  "t ! 0 = '':login'' \<Longrightarrow> command n t = (if length t \<ge> 3 then Request (json_build
     [(''id'', JInt n), (''type'', JString ''login''), (''username'', JString (t ! 1)), (''password'', JString (t ! 2))]) else Unknown)"
  by (simp_all add: command_def)

lemma send_loop_all:
  assumes "send_loop ns bs sent = Some (ok, out)"
  shows "\<exists>k. out = sent @ take k bs \<and> (ok \<longleftrightarrow> out = sent @ bs)"
  using assms
proof (induction ns bs sent rule: send_loop.induct)
  case (3 n ns c cs sent)
  show ?case
  proof (cases "n \<le> 0")
    case True
    with 3(2) show ?thesis by (auto intro: exI [of _ 0])
  next
    case False
    with 3 obtain k where "out = (sent @ take (nat n) (c # cs)) @ take k (drop (nat n) (c # cs))"
      "ok \<longleftrightarrow> out = (sent @ take (nat n) (c # cs)) @ drop (nat n) (c # cs)" by auto
    then show ?thesis by (intro exI [of _ "nat n + k"]) (simp only: append_assoc append_take_drop_id take_add)
  qed
qed auto

text \<open>A receiver that is not a number ends the client, since nothing catches the exception.\<close>

lemma dm_to_a_name_terminates: "command n ['':dm'', ''bob'', ''hi''] = Terminated"
proof -
  have "stoll ''bob'' = None" by code_simp
  then show ?thesis by (simp add: command_cases with_i64_def)
qed

section \<open>Properties\<close>



end
