(* ===== verification/Mysql_Store.thy ===== *)
theory Mysql_Store
  imports Repositories Cxx_Std "HOL-Library.Signed_Division"
begin

text \<open>
  The MySQL half of \<open>src/src/db/repositories.cpp\<close>: the statements it builds and what it makes of the
  answers.

  The client library is a parameter: \<open>esc\<close> is \<open>mysql_real_escape_string\<close> on the connection, and
  \<open>query\<close> runs a statement on the database and returns an error number (0 for success), the rows
  of the result (\<^const>\<open>None\<close> when there is no result set) and the last identifier that was
  generated. A cell of a row is a text or \<open>NULL\<close>, and the code reads it as a C string. The first
  argument of an operation says whether the pool gave a connection. \<^const>\<open>None\<close> as the result of
  an operation is an exception of \<open>std::stoull\<close> or \<open>std::stoll\<close> on a cell that is no number.
\<close>

section \<open>The code\<close>

type_synonym row = "string option list"

record reply =
  q_errno :: nat
  q_rows :: "row list option"
  q_insert_id :: u64

type_synonym 'db query = "string \<Rightarrow> 'db \<Rightarrow> reply \<times> 'db"

text \<open>\<open>unsigned long\<close> and \<open>unsigned long long\<close> have the same width here.\<close>

definition stoull :: "string \<Rightarrow> u64 option" where
  "stoull s = stoul s"

definition show_int :: "int \<Rightarrow> string" where
  "show_int v = (if v < 0 then CHR ''-'' # show_nat (nat (- v)) else show_nat (nat v))"

subsection \<open>Cells\<close>

definition text_cell :: "row \<Rightarrow> nat \<Rightarrow> string" where
  "text_cell r i = (case r ! i of None \<Rightarrow> [] | Some s \<Rightarrow> c_str s)"

definition u64_cell :: "row \<Rightarrow> nat \<Rightarrow> u64 option" where
  "u64_cell r i = (case r ! i of None \<Rightarrow> Some 0 | Some s \<Rightarrow> stoull (c_str s))"

definition i64_cell :: "row \<Rightarrow> nat \<Rightarrow> i64 option" where
  "i64_cell r i = (case r ! i of None \<Rightarrow> Some 0 | Some s \<Rightarrow> stoll (c_str s))"

definition opt_cell :: "row \<Rightarrow> nat \<Rightarrow> u64 option option" where
  "opt_cell r i = (case r ! i of None \<Rightarrow> Some None | Some s \<Rightarrow> map_option Some (stoull (c_str s)))"

definition status_cell :: "row \<Rightarrow> nat \<Rightarrow> u8 option" where
  "status_cell r i = (case r ! i of None \<Rightarrow> Some 0 | Some s \<Rightarrow> map_option word_of_int (stoi (c_str s)))"

definition read_user :: "row \<Rightarrow> User option" where
  "read_user r =
     Option.bind (u64_cell r 0) (\<lambda>i.
     Option.bind (i64_cell r 3) (\<lambda>created.
     Option.bind (i64_cell r 4) (\<lambda>seen.
     Some \<lparr>u_id = i, u_username = text_cell r 1, u_password_hash = text_cell r 2, u_created_at_ms = created, u_last_seen_ms = seen\<rparr>)))"

definition read_room :: "row \<Rightarrow> Room option" where
  "read_room r =
     Option.bind (u64_cell r 0) (\<lambda>i.
     Option.bind (i64_cell r 2) (\<lambda>created.
     Some \<lparr>r_id = i, r_name = text_cell r 1, r_created_at_ms = created\<rparr>))"

definition read_session :: "row \<Rightarrow> SessionRow option" where
  "read_session r =
     Option.bind (u64_cell r 1) (\<lambda>u.
     Option.bind (i64_cell r 2) (\<lambda>active.
     Some \<lparr>sr_token = text_cell r 0, sr_user_id = u, sr_last_active_ms = active\<rparr>))"

definition read_message :: "row \<Rightarrow> Message option" where
  "read_message r =
     Option.bind (u64_cell r 0) (\<lambda>i.
     Option.bind (u64_cell r 1) (\<lambda>s.
     Option.bind (opt_cell r 2) (\<lambda>rcv.
     Option.bind (opt_cell r 3) (\<lambda>rm.
     Option.bind (status_cell r 5) (\<lambda>st.
     Option.bind (i64_cell r 6) (\<lambda>ts.
     Some \<lparr>m_id = i, m_sender_id = s, m_receiver_id = rcv, m_room_id = rm, m_content = text_cell r 4, m_status = st,
       m_created_at_ms = ts\<rparr>))))))"

text \<open>\<open>while (auto* row = mysql_fetch_row (r))\<close>.\<close>

fun read_rows :: "(row \<Rightarrow> 'a option) \<Rightarrow> row list \<Rightarrow> 'a list option" where
  "read_rows f [] = Some []"
| "read_rows f (r # rs) = Option.bind (f r) (\<lambda>x. Option.bind (read_rows f rs) (\<lambda>xs. Some (x # xs)))"

definition rows_of :: "reply \<Rightarrow> row list" where
  "rows_of r = (case q_rows r of None \<Rightarrow> [] | Some rows \<Rightarrow> rows)"

definition read_messages :: "reply \<Rightarrow> Message list option" where
  "read_messages r = read_rows read_message (rows_of r)"

text \<open>The first row of a result, if there is one.\<close>

definition read_first :: "(row \<Rightarrow> 'a option) \<Rightarrow> reply \<Rightarrow> 'a option option" where
  "read_first f r = (case rows_of r of [] \<Rightarrow> Some None | row # _ \<Rightarrow> map_option Some (f row))"

subsection \<open>Statements\<close>

definition sql_find_user_by_id :: "u64 \<Rightarrow> string" where
  "sql_find_user_by_id i =
     ''SELECT id,username,password_hash,UNIX_TIMESTAMP(created_at)*1000,'' @
     ''COALESCE(UNIX_TIMESTAMP(last_seen_at)*1000,0) FROM users WHERE id='' @ show_u64 i @ '' LIMIT 1''"

definition sql_find_user_by_username :: "(string \<Rightarrow> string) \<Rightarrow> string \<Rightarrow> string" where
  "sql_find_user_by_username esc name =
     ''SELECT id,username,password_hash,UNIX_TIMESTAMP(created_at)*1000,'' @
     ''COALESCE(UNIX_TIMESTAMP(last_seen_at)*1000,0) FROM users WHERE username='' @ [CHR 0x27] @
     esc name @ [CHR 0x27] @ '' LIMIT 1''"

definition sql_create_user :: "(string \<Rightarrow> string) \<Rightarrow> string \<Rightarrow> string \<Rightarrow> string" where
  "sql_create_user esc username password_hash =
     ''INSERT INTO users(username,password_hash) VALUES('' @ [CHR 0x27] @ esc username @ [CHR 0x27] @ '','' @
     [CHR 0x27] @ esc password_hash @ [CHR 0x27] @ '')''"

definition sql_update_last_seen :: "u64 \<Rightarrow> i64 \<Rightarrow> string" where
  "sql_update_last_seen user_id ts_ms =
     ''UPDATE users SET last_seen_at=FROM_UNIXTIME('' @ show_int (sint ts_ms sdiv 1000) @ '') WHERE id='' @ show_u64 user_id"

definition sql_load_all_sessions :: string where
  "sql_load_all_sessions = ''SELECT token,user_id,UNIX_TIMESTAMP(last_active_at)*1000 FROM sessions''"

definition sql_insert_session :: "(string \<Rightarrow> string) \<Rightarrow> string \<Rightarrow> u64 \<Rightarrow> i64 \<Rightarrow> string" where
  "sql_insert_session esc token user_id ts_ms =
     ''INSERT INTO sessions(token,user_id,last_active_at) VALUES('' @ [CHR 0x27] @ esc token @ [CHR 0x27] @ '','' @
     show_u64 user_id @ '',FROM_UNIXTIME('' @ show_int (sint ts_ms sdiv 1000) @ ''))'' @
     '' ON DUPLICATE KEY UPDATE last_active_at=VALUES(last_active_at)''"

definition sql_delete_session :: "(string \<Rightarrow> string) \<Rightarrow> string \<Rightarrow> string" where
  "sql_delete_session esc token = ''DELETE FROM sessions WHERE token='' @ [CHR 0x27] @ esc token @ [CHR 0x27]"

definition sql_find_room_by_name :: "(string \<Rightarrow> string) \<Rightarrow> string \<Rightarrow> string" where
  "sql_find_room_by_name esc name =
     ''SELECT id,name,UNIX_TIMESTAMP(created_at)*1000 FROM rooms WHERE name='' @ [CHR 0x27] @ esc name @ [CHR 0x27] @ '' LIMIT 1''"

definition sql_find_room_by_id :: "u64 \<Rightarrow> string" where
  "sql_find_room_by_id i = ''SELECT id,name,UNIX_TIMESTAMP(created_at)*1000 FROM rooms WHERE id='' @ show_u64 i"

definition sql_create_room :: "(string \<Rightarrow> string) \<Rightarrow> string \<Rightarrow> string" where
  "sql_create_room esc name = ''INSERT INTO rooms(name) VALUES('' @ [CHR 0x27] @ esc name @ [CHR 0x27] @ '')''"

definition sql_join_room :: "u64 \<Rightarrow> u64 \<Rightarrow> string" where
  "sql_join_room room_id user_id =
     ''INSERT IGNORE INTO room_members(room_id,user_id) VALUES('' @ show_u64 room_id @ '','' @ show_u64 user_id @ '')''"

definition sql_leave_room :: "u64 \<Rightarrow> u64 \<Rightarrow> string" where
  "sql_leave_room room_id user_id =
     ''DELETE FROM room_members WHERE room_id='' @ show_u64 room_id @ '' AND user_id='' @ show_u64 user_id"

definition sql_is_member :: "u64 \<Rightarrow> u64 \<Rightarrow> string" where
  "sql_is_member room_id user_id =
     ''SELECT 1 FROM room_members WHERE room_id='' @ show_u64 room_id @ '' AND user_id='' @ show_u64 user_id @ '' LIMIT 1''"

definition sql_list_rooms_for_user :: "u64 \<Rightarrow> string" where
  "sql_list_rooms_for_user user_id =
     ''SELECT r.id,r.name,UNIX_TIMESTAMP(r.created_at)*1000 '' @
     ''FROM rooms r INNER JOIN room_members m ON m.room_id=r.id '' @ ''WHERE m.user_id='' @ show_u64 user_id"

definition sql_list_room_members :: "u64 \<Rightarrow> string" where
  "sql_list_room_members room_id = ''SELECT user_id FROM room_members WHERE room_id='' @ show_u64 room_id"

text \<open>\<open>(ts / 1000) << "." << (ts % 1000)\<close>.\<close>

definition sql_time :: "i64 \<Rightarrow> string" where
  "sql_time ts = show_int (sint ts sdiv 1000) @ ''.'' @ show_int (sint ts smod 1000)"

definition sql_insert_dm :: "(string \<Rightarrow> string) \<Rightarrow> u64 \<Rightarrow> u64 \<Rightarrow> string \<Rightarrow> i64 \<Rightarrow> string" where
  "sql_insert_dm esc s r content ts =
     ''INSERT INTO messages(sender_id,receiver_id,content,created_at) VALUES('' @ show_u64 s @ '','' @ show_u64 r @ '','' @
     [CHR 0x27] @ esc content @ [CHR 0x27] @ '',FROM_UNIXTIME('' @ sql_time ts @ ''))''"

definition sql_insert_room_msg :: "(string \<Rightarrow> string) \<Rightarrow> u64 \<Rightarrow> u64 \<Rightarrow> string \<Rightarrow> i64 \<Rightarrow> string" where
  "sql_insert_room_msg esc s room content ts =
     ''INSERT INTO messages(sender_id,room_id,content,created_at) VALUES('' @ show_u64 s @ '','' @ show_u64 room @ '','' @
     [CHR 0x27] @ esc content @ [CHR 0x27] @ '',FROM_UNIXTIME('' @ sql_time ts @ ''))''"

definition sql_page :: "u64 \<Rightarrow> u32 \<Rightarrow> string" where
  "sql_page before lim =
     (if before \<noteq> 0 then '' AND id<'' @ show_u64 before else []) @ '' ORDER BY id DESC LIMIT '' @ show_nat (min (unat lim) 200)"

definition sql_history_dm :: "u64 \<Rightarrow> u64 \<Rightarrow> u64 \<Rightarrow> u32 \<Rightarrow> string" where
  "sql_history_dm a b before lim =
     ''SELECT id,sender_id,receiver_id,room_id,content,status,'' @ ''UNIX_TIMESTAMP(created_at)*1000 FROM messages '' @
     ''WHERE ((sender_id='' @ show_u64 a @ '' AND receiver_id='' @ show_u64 b @ '')'' @
     '' OR (sender_id='' @ show_u64 b @ '' AND receiver_id='' @ show_u64 a @ ''))'' @ sql_page before lim"

definition sql_history_room :: "u64 \<Rightarrow> u64 \<Rightarrow> u32 \<Rightarrow> string" where
  "sql_history_room room_id before lim =
     ''SELECT id,sender_id,receiver_id,room_id,content,status,'' @
     ''UNIX_TIMESTAMP(created_at)*1000 FROM messages WHERE room_id='' @ show_u64 room_id @ sql_page before lim"

definition sql_update_message_status :: "u64 \<Rightarrow> u8 \<Rightarrow> string" where
  "sql_update_message_status msg_id st =
     ''UPDATE messages SET status='' @ show_nat (unat st) @ '' WHERE id='' @ show_u64 msg_id"

definition sql_enqueue_undelivered :: "u64 \<Rightarrow> u64 \<Rightarrow> string" where
  "sql_enqueue_undelivered msg_id user_id =
     ''INSERT IGNORE INTO undelivered(message_id,user_id) VALUES('' @ show_u64 msg_id @ '','' @ show_u64 user_id @ '')''"

definition sql_drain_select :: "u64 \<Rightarrow> string" where
  "sql_drain_select user_id =
     ''SELECT m.id,m.sender_id,m.receiver_id,m.room_id,m.content,m.status,'' @ ''UNIX_TIMESTAMP(m.created_at)*1000 '' @
     ''FROM messages m INNER JOIN undelivered u ON u.message_id=m.id '' @ ''WHERE u.user_id='' @ show_u64 user_id @
     '' ORDER BY m.id ASC''"

definition sql_drain_delete :: "u64 \<Rightarrow> string" where
  "sql_drain_delete user_id = ''DELETE FROM undelivered WHERE user_id='' @ show_u64 user_id"

subsection \<open>Operations\<close>

definition exec :: "'db query \<Rightarrow> string \<Rightarrow> 'db \<Rightarrow> bool \<times> reply \<times> 'db" where
  "exec query q db = (let (r, db') = query q db in (q_errno r = 0, r, db'))"

definition mysql_find_user_by_id :: "bool \<Rightarrow> 'db query \<Rightarrow> u64 \<Rightarrow> 'db \<Rightarrow> User option option \<times> 'db" where
  "mysql_find_user_by_id lease query i db =
     (if \<not> lease then (Some None, db)
      else case exec query (sql_find_user_by_id i) db of (ok, r, db') \<Rightarrow> (if \<not> ok then Some None else read_first read_user r, db'))"

definition mysql_find_user_by_username :: "bool \<Rightarrow> 'db query \<Rightarrow> (string \<Rightarrow> string) \<Rightarrow> string \<Rightarrow> 'db \<Rightarrow> User option option \<times> 'db" where
  "mysql_find_user_by_username lease query esc name db =
     (if \<not> lease then (Some None, db)
      else case exec query (sql_find_user_by_username esc name) db of (ok, r, db') \<Rightarrow> (if \<not> ok then Some None else read_first read_user r, db'))"

definition mysql_create_user :: "bool \<Rightarrow> 'db query \<Rightarrow> (string \<Rightarrow> string) \<Rightarrow> string \<Rightarrow> string \<Rightarrow> 'db \<Rightarrow> u64 option \<times> 'db" where
  "mysql_create_user lease query esc username password_hash db =
     (if \<not> lease then (None, db)
      else case exec query (sql_create_user esc username password_hash) db of (ok, r, db') \<Rightarrow> (if \<not> ok then None else Some (q_insert_id r), db'))"

definition mysql_load_all_sessions :: "bool \<Rightarrow> 'db query \<Rightarrow> 'db \<Rightarrow> SessionRow list option \<times> 'db" where
  "mysql_load_all_sessions lease query db =
     (if \<not> lease then (Some [], db)
      else case exec query (sql_load_all_sessions) db of (ok, r, db') \<Rightarrow> (if \<not> ok then Some [] else read_rows read_session (rows_of r), db'))"

definition mysql_find_room_by_name :: "bool \<Rightarrow> 'db query \<Rightarrow> (string \<Rightarrow> string) \<Rightarrow> string \<Rightarrow> 'db \<Rightarrow> Room option option \<times> 'db" where
  "mysql_find_room_by_name lease query esc name db =
     (if \<not> lease then (Some None, db)
      else case exec query (sql_find_room_by_name esc name) db of (ok, r, db') \<Rightarrow> (if \<not> ok then Some None else read_first read_room r, db'))"

definition mysql_find_room_by_id :: "bool \<Rightarrow> 'db query \<Rightarrow> u64 \<Rightarrow> 'db \<Rightarrow> Room option option \<times> 'db" where
  "mysql_find_room_by_id lease query i db =
     (if \<not> lease then (Some None, db)
      else case exec query (sql_find_room_by_id i) db of (ok, r, db') \<Rightarrow> (if \<not> ok then Some None else read_first read_room r, db'))"

definition mysql_create_room :: "bool \<Rightarrow> 'db query \<Rightarrow> (string \<Rightarrow> string) \<Rightarrow> string \<Rightarrow> 'db \<Rightarrow> u64 option \<times> 'db" where
  "mysql_create_room lease query esc name db =
     (if \<not> lease then (None, db)
      else case exec query (sql_create_room esc name) db of (ok, r, db') \<Rightarrow> (if \<not> ok then None else Some (q_insert_id r), db'))"

definition mysql_is_member :: "bool \<Rightarrow> 'db query \<Rightarrow> u64 \<Rightarrow> u64 \<Rightarrow> 'db \<Rightarrow> bool \<times> 'db" where
  "mysql_is_member lease query room_id user_id db =
     (if \<not> lease then (False, db)
      else case exec query (sql_is_member room_id user_id) db of (ok, r, db') \<Rightarrow> (if \<not> ok then False else rows_of r \<noteq> [], db'))"

definition mysql_list_rooms_for_user :: "bool \<Rightarrow> 'db query \<Rightarrow> u64 \<Rightarrow> 'db \<Rightarrow> Room list option \<times> 'db" where
  "mysql_list_rooms_for_user lease query user_id db =
     (if \<not> lease then (Some [], db)
      else case exec query (sql_list_rooms_for_user user_id) db of (ok, r, db') \<Rightarrow> (if \<not> ok then Some [] else read_rows read_room (rows_of r), db'))"

definition mysql_list_room_members :: "bool \<Rightarrow> 'db query \<Rightarrow> u64 \<Rightarrow> 'db \<Rightarrow> u64 list option \<times> 'db" where
  "mysql_list_room_members lease query room_id db =
     (if \<not> lease then (Some [], db)
      else case exec query (sql_list_room_members room_id) db of (ok, r, db') \<Rightarrow> (if \<not> ok then Some [] else read_rows (\<lambda>row. u64_cell row 0) (filter (\<lambda>row. row ! 0 \<noteq> None) (rows_of r)), db'))"

definition mysql_insert_dm :: "bool \<Rightarrow> 'db query \<Rightarrow> (string \<Rightarrow> string) \<Rightarrow> u64 \<Rightarrow> u64 \<Rightarrow> string \<Rightarrow> i64 \<Rightarrow> 'db \<Rightarrow> u64 option \<times> 'db" where
  "mysql_insert_dm lease query esc s rcv content ts db =
     (if \<not> lease then (None, db)
      else case exec query (sql_insert_dm esc s rcv content ts) db of (ok, r, db') \<Rightarrow> (if \<not> ok then None else Some (q_insert_id r), db'))"

definition mysql_insert_room_msg :: "bool \<Rightarrow> 'db query \<Rightarrow> (string \<Rightarrow> string) \<Rightarrow> u64 \<Rightarrow> u64 \<Rightarrow> string \<Rightarrow> i64 \<Rightarrow> 'db \<Rightarrow> u64 option \<times> 'db" where
  "mysql_insert_room_msg lease query esc s room content ts db =
     (if \<not> lease then (None, db)
      else case exec query (sql_insert_room_msg esc s room content ts) db of (ok, r, db') \<Rightarrow> (if \<not> ok then None else Some (q_insert_id r), db'))"

definition mysql_history_dm :: "bool \<Rightarrow> 'db query \<Rightarrow> u64 \<Rightarrow> u64 \<Rightarrow> u64 \<Rightarrow> u32 \<Rightarrow> 'db \<Rightarrow> Message list option \<times> 'db" where
  "mysql_history_dm lease query a b before lim db =
     (if \<not> lease then (Some [], db)
      else case exec query (sql_history_dm a b before lim) db of (ok, r, db') \<Rightarrow> (if \<not> ok then Some [] else map_option rev (read_messages r), db'))"

definition mysql_history_room :: "bool \<Rightarrow> 'db query \<Rightarrow> u64 \<Rightarrow> u64 \<Rightarrow> u32 \<Rightarrow> 'db \<Rightarrow> Message list option \<times> 'db" where
  "mysql_history_room lease query room_id before lim db =
     (if \<not> lease then (Some [], db)
      else case exec query (sql_history_room room_id before lim) db of (ok, r, db') \<Rightarrow> (if \<not> ok then Some [] else map_option rev (read_messages r), db'))"

definition mysql_update_last_seen :: "bool \<Rightarrow> 'db query \<Rightarrow> u64 \<Rightarrow> i64 \<Rightarrow> 'db \<Rightarrow> 'db" where
  "mysql_update_last_seen lease query user_id ts_ms db = (if \<not> lease then db else snd (snd (exec query (sql_update_last_seen user_id ts_ms) db)))"

definition mysql_insert_session :: "bool \<Rightarrow> 'db query \<Rightarrow> (string \<Rightarrow> string) \<Rightarrow> string \<Rightarrow> u64 \<Rightarrow> i64 \<Rightarrow> 'db \<Rightarrow> 'db" where
  "mysql_insert_session lease query esc token user_id ts_ms db = (if \<not> lease then db else snd (snd (exec query (sql_insert_session esc token user_id ts_ms) db)))"

definition mysql_delete_session :: "bool \<Rightarrow> 'db query \<Rightarrow> (string \<Rightarrow> string) \<Rightarrow> string \<Rightarrow> 'db \<Rightarrow> 'db" where
  "mysql_delete_session lease query esc token db = (if \<not> lease then db else snd (snd (exec query (sql_delete_session esc token) db)))"

definition mysql_join_room :: "bool \<Rightarrow> 'db query \<Rightarrow> u64 \<Rightarrow> u64 \<Rightarrow> 'db \<Rightarrow> bool \<times> 'db" where
  "mysql_join_room lease query room_id user_id db =
     (if \<not> lease then (False, db) else case exec query (sql_join_room room_id user_id) db of (ok, r, db') \<Rightarrow> (ok, db'))"

definition mysql_leave_room :: "bool \<Rightarrow> 'db query \<Rightarrow> u64 \<Rightarrow> u64 \<Rightarrow> 'db \<Rightarrow> bool \<times> 'db" where
  "mysql_leave_room lease query room_id user_id db =
     (if \<not> lease then (False, db) else case exec query (sql_leave_room room_id user_id) db of (ok, r, db') \<Rightarrow> (ok, db'))"

definition mysql_update_message_status :: "bool \<Rightarrow> 'db query \<Rightarrow> u64 \<Rightarrow> u8 \<Rightarrow> 'db \<Rightarrow> 'db" where
  "mysql_update_message_status lease query msg_id st db = (if \<not> lease then db else snd (snd (exec query (sql_update_message_status msg_id st) db)))"

definition mysql_enqueue_undelivered :: "bool \<Rightarrow> 'db query \<Rightarrow> u64 \<Rightarrow> u64 \<Rightarrow> 'db \<Rightarrow> 'db" where
  "mysql_enqueue_undelivered lease query msg_id user_id db = (if \<not> lease then db else snd (snd (exec query (sql_enqueue_undelivered msg_id user_id) db)))"

text \<open>An exception while the rows are read leaves before the second statement.\<close>

definition mysql_drain_undelivered :: "bool \<Rightarrow> 'db query \<Rightarrow> u64 \<Rightarrow> 'db \<Rightarrow> Message list option \<times> 'db" where
  "mysql_drain_undelivered lease query user_id db =
     (if \<not> lease then (Some [], db)
      else case exec query (sql_drain_select user_id) db of (ok, r, db') \<Rightarrow>
        if \<not> ok then (Some [], db')
        else case read_messages r of None \<Rightarrow> (None, db')
          | Some out \<Rightarrow> (Some out, snd (snd (exec query (sql_drain_delete user_id) db'))))"

section \<open>String literals of SQL\<close>

text \<open>
  How MySQL reads a statement, as far as quotes go. \<open>sql_out\<close> scans outside literals and
  \<open>sql_in\<close> inside one, after the opening quote; the result is the statement with every literal
  replaced by a question mark and the texts of the literals, or \<^const>\<open>None\<close> when a literal does not
  end.
\<close>

definition unescape :: "char \<Rightarrow> char" where
  "unescape c =
     (if c = CHR ''0'' then CHR 0x00 else if c = CHR ''n'' then CHR 0x0A else if c = CHR ''r'' then CHR 0x0D
      else if c = CHR ''t'' then CHR 0x09 else if c = CHR ''b'' then CHR 0x08 else if c = CHR ''Z'' then CHR 0x1A else c)"

fun sql_out :: "string \<Rightarrow> (string \<times> string list) option"
and sql_in :: "string \<Rightarrow> string \<Rightarrow> (string \<times> string list) option" where
  "sql_out [] = Some ([], [])"
| "sql_out (c # s) = (if c = CHR 0x27 then sql_in s [] else map_option (apfst ((#) c)) (sql_out s))"
| "sql_in [] acc = None"
| "sql_in [c] acc = (if c = CHR 0x27 then Some (''?'', [acc]) else None)"
| "sql_in (c # d # s) acc =
     (if c = CHR 0x5C then sql_in s (acc @ [unescape d])
      else if c = CHR 0x27 then
        if d = CHR 0x27 then sql_in s (acc @ [d])
        else map_option (\<lambda>(k, ls). (CHR ''?'' # k, acc # ls)) (sql_out (d # s))
      else sql_in (d # s) (acc @ [c]))"

text \<open>The text that the body of a literal stands for; a bare quote or a last backslash is none.\<close>

fun unquote :: "string \<Rightarrow> string option" where
  "unquote [] = Some []"
| "unquote [c] = (if c = CHR 0x27 \<or> c = CHR 0x5C then None else Some [c])"
| "unquote (c # d # s) =
     (if c = CHR 0x5C then map_option ((#) (unescape d)) (unquote s)
      else if c = CHR 0x27 then None
      else map_option ((#) c) (unquote (d # s)))"

text \<open>
  What \<open>mysql_real_escape_string\<close> promises for a connection without the mode
  \<open>NO_BACKSLASH_ESCAPES\<close>: its result is the body of a literal for the given text.
\<close>

definition escapes :: "(string \<Rightarrow> string) \<Rightarrow> bool" where
  "escapes esc = (\<forall>s. unquote (esc s) = Some s)"

text \<open>The encoding its manual describes.\<close>

definition escape_char :: "char \<Rightarrow> string" where
  "escape_char c =
     (if c = CHR 0x00 then [CHR 0x5C, CHR ''0''] else if c = CHR 0x0A then [CHR 0x5C, CHR ''n'']
      else if c = CHR 0x0D then [CHR 0x5C, CHR ''r''] else if c = CHR 0x1A then [CHR 0x5C, CHR ''Z'']
      else if c \<in> {CHR 0x5C, CHR 0x27, CHR 0x22} then [CHR 0x5C, c] else [c])"

lemma unquote_plain:
  "c \<noteq> CHR 0x5C \<Longrightarrow> c \<noteq> CHR 0x27 \<Longrightarrow> unquote (c # s) = map_option ((#) c) (unquote s)"
  by (cases s) simp_all

lemma unquote_escape_char: "unquote (escape_char c @ s) = map_option ((#) c) (unquote s)"
  by (auto simp: escape_char_def unescape_def unquote_plain)

lemma manual_escapes: "escapes (\<lambda>s. concat (map escape_char s))"
  unfolding escapes_def
proof
  show "unquote (concat (map escape_char s)) = Some s" for s
    by (induction s) (simp_all add: unquote_escape_char)
qed

lemma sql_out_plain: "CHR 0x27 \<notin> set s \<Longrightarrow> sql_out (s @ t) = map_option (apfst ((@) s)) (sql_out t)"
  by (induction s) (cases "sql_out t"; auto simp: apfst_def map_prod_def split_def)+

lemma sql_in_literal:
  "unquote e = Some v \<Longrightarrow> t = [] \<or> hd t \<noteq> CHR 0x27 \<Longrightarrow>
   sql_in (e @ CHR 0x27 # t) acc = map_option (\<lambda>(k, ls). (CHR ''?'' # k, (acc @ v) # ls)) (sql_out t)"
proof (induction e arbitrary: v acc rule: unquote.induct)
  case 1
  then show ?case by (cases t) auto
next
  case (2 c)
  then have "c \<noteq> CHR 0x27" "c \<noteq> CHR 0x5C" "v = [c]" by (auto split: if_splits)
  with 2 show ?case by (cases t) auto
next
  case (3 c d s)
  show ?case
  proof (cases "c = CHR 0x5C")
    case True
    with 3(3) obtain w where "unquote s = Some w" "v = unescape d # w" by auto
    with True 3(1) [OF True, of w "acc @ [unescape d]"] 3(4) show ?thesis by simp
  next
    case False
    with 3(3) obtain w where "c \<noteq> CHR 0x27" "unquote (d # s) = Some w" "v = c # w" by (auto split: if_splits)
    with False 3(2) [of w "acc @ [c]"] 3(4) show ?thesis by simp
  qed
qed

lemma sql_in_escaped:
  assumes "escapes esc" and "t = [] \<or> hd t \<noteq> CHR 0x27"
  shows "sql_in (esc s @ CHR 0x27 # t) [] = map_option (\<lambda>(k, ls). (CHR ''?'' # k, s # ls)) (sql_out t)"
  using sql_in_literal [of "esc s" s t "[]"] assms by (simp add: escapes_def)

lemma quote_show_nat [simp]: "CHR 0x27 \<notin> set (show_nat n)"
  using show_nat_digits [of n] by (auto simp: isdigit_def)

lemma quote_show [simp]: "CHR 0x27 \<notin> set (show_u64 w)" "CHR 0x27 \<notin> set (show_int v)" "CHR 0x27 \<notin> set (sql_time ts)"
  by (simp_all add: show_u64_def show_int_def sql_time_def)

lemmas sql_scan = sql_out_plain sql_in_escaped

text \<open>
  C34. No injection: whatever text a client sends as a user name, a password hash, a token, a room name or a
  message, the statement built from it has the structure the code wrote down, and the database
  reads exactly that text as the value of the literal.
\<close>

theorem statements_are_safe:
  assumes "escapes esc"
  shows "sql_out (sql_find_user_by_username esc name) =
      Some (''SELECT id,username,password_hash,UNIX_TIMESTAMP(created_at)*1000,'' @
        ''COALESCE(UNIX_TIMESTAMP(last_seen_at)*1000,0) FROM users WHERE username=? LIMIT 1'', [name]) \<and>
    sql_out (sql_create_user esc name pw) = Some (''INSERT INTO users(username,password_hash) VALUES(?,?)'', [name, pw]) \<and>
    sql_out (sql_insert_session esc tok u ts) =
      Some (''INSERT INTO sessions(token,user_id,last_active_at) VALUES(?,'' @ show_u64 u @ '',FROM_UNIXTIME('' @
        show_int (sint ts sdiv 1000) @ '')) ON DUPLICATE KEY UPDATE last_active_at=VALUES(last_active_at)'', [tok]) \<and>
    sql_out (sql_delete_session esc tok) = Some (''DELETE FROM sessions WHERE token=?'', [tok]) \<and>
    sql_out (sql_find_room_by_name esc name) =
      Some (''SELECT id,name,UNIX_TIMESTAMP(created_at)*1000 FROM rooms WHERE name=? LIMIT 1'', [name]) \<and>
    sql_out (sql_create_room esc name) = Some (''INSERT INTO rooms(name) VALUES(?)'', [name]) \<and>
    sql_out (sql_insert_dm esc u v content ts) =
      Some (''INSERT INTO messages(sender_id,receiver_id,content,created_at) VALUES('' @ show_u64 u @ '','' @ show_u64 v @
        '',?,FROM_UNIXTIME('' @ sql_time ts @ ''))'', [content]) \<and>
    sql_out (sql_insert_room_msg esc u v content ts) =
      Some (''INSERT INTO messages(sender_id,room_id,content,created_at) VALUES('' @ show_u64 u @ '','' @ show_u64 v @
        '',?,FROM_UNIXTIME('' @ sql_time ts @ ''))'', [content])"
  using assms
  by (intro conjI) (simp_all add: sql_find_user_by_username_def sql_create_user_def sql_insert_session_def sql_delete_session_def
      sql_find_room_by_name_def sql_create_room_def sql_insert_dm_def sql_insert_room_msg_def sql_scan)

theorem statements_are_safe_witness:
  "let esc = \<lambda>s. concat (map escape_char s); evil = [CHR 0x5C, CHR 0x27] @ '' OR 1=1'' @ [CHR 0x27, CHR 0x0A]
   in escapes esc \<and> sql_out (sql_find_room_by_name esc evil) =
     Some (''SELECT id,name,UNIX_TIMESTAMP(created_at)*1000 FROM rooms WHERE name=? LIMIT 1'', [evil])"
  using statements_are_safe [OF manual_escapes, where name = "[CHR 0x5C, CHR 0x27] @ '' OR 1=1'' @ [CHR 0x27, CHR 0x0A]"]
    manual_escapes
  unfolding Let_def by blast

section \<open>Rows\<close>

text \<open>The row of a message in the answer to the history statements.\<close>

definition message_row :: "Message \<Rightarrow> row" where
  "message_row m =
     [Some (show_u64 (m_id m)), Some (show_u64 (m_sender_id m)), map_option show_u64 (m_receiver_id m),
      map_option show_u64 (m_room_id m), Some (m_content m), Some (show_nat (unat (m_status m))),
      Some (show_i64 (m_created_at_ms m) @ ''.000'')]"

definition cut_content :: "Message \<Rightarrow> Message" where
  "cut_content m = m\<lparr>m_content := c_str (m_content m)\<rparr>"

lemma c_str_show_nat [simp]: "c_str (show_nat n) = show_nat n" "c_str (show_nat n @ ''.000'') = show_nat n @ ''.000''"
proof -
  have "\<forall>c\<in>set (show_nat n). c \<noteq> CHR 0x00" using show_nat_digits [of n] by (auto simp: isdigit_def)
  then show "c_str (show_nat n) = show_nat n" "c_str (show_nat n @ ''.000'') = show_nat n @ ''.000''"
    by (simp_all add: c_str_def takeWhile_eq_all_conv)
qed

lemma c_str_show_i64 [simp]: "c_str (show_i64 w @ ''.000'') = show_i64 w @ ''.000''"
  using c_str_show_nat(2) by (simp add: show_i64_def Let_def c_str_def)

lemma stoull_show_u64 [simp]: "stoull (c_str (show_u64 w)) = Some w"
  using stoul_show_nat [of "unat w" "[]"] unsigned_less [of w] by (simp add: stoull_def show_u64_def)

lemma strto_decimal: "strto (show_i64 w @ ''.000'') = strto (show_i64 w)"
proof -
  have stop: "takeWhile isdigit (show_nat n @ ''.000'') = show_nat n" for n
    using show_nat_digits [of n] by (intro takeWhile_append_stop) (simp_all add: isdigit_def)
  show ?thesis
  proof (cases "sint w < 0")
    case True
    then show ?thesis by (simp add: show_i64_def strto_def Let_def isspace_def stop)
  next
    case False
    then show ?thesis
      using strto_show_nat [of "''.000''" "nat (sint w)"] strto_show_nat [of "[]" "nat (sint w)"]
      by (simp add: show_i64_def Let_def isdigit_def)
  qed
qed

lemma stoll_decimal [simp]: "stoll (show_i64 w @ ''.000'') = Some w"
  using stoll_show_i64 [of w] by (simp add: stoll_def strto_decimal)

lemma stoi_show_u8 [simp]: "stoi (show_nat (unat (w :: u8))) = Some (uint w)"
  using strto_show_nat [of "[]" "unat w"] uint_lt2p [of w] order_trans [OF _ uint_ge_0 [of w], of "- 2147483648"]
  by (simp add: stoi_def signed_of_def Let_def)

lemma read_message_row: "read_message (message_row m) = Some (cut_content m)"
  by (cases "m_receiver_id m"; cases "m_room_id m")
    (simp_all add: read_message_def message_row_def cut_content_def u64_cell_def i64_cell_def opt_cell_def status_cell_def
      text_cell_def)

lemma exec_eq: "exec query q db = (q_errno (fst (query q db)) = 0, fst (query q db), snd (query q db))"
  by (simp add: exec_def case_prod_beta)

lemma read_message_rows: "read_rows read_message (map message_row ms) = Some (map cut_content ms)"
  by (induction ms) (simp_all add: read_message_row)

text \<open>
  What \<open>SELECT ... WHERE P ORDER BY id DESC LIMIT n\<close> returns on a table of messages that is listed in
  the order of the identifiers.
\<close>

definition selects :: "'db query \<Rightarrow> 'db \<Rightarrow> Message list \<Rightarrow> string \<Rightarrow> (Message \<Rightarrow> bool) \<Rightarrow> nat \<Rightarrow> bool" where
  "selects query db ms q P n =
     (q_errno (fst (query q db)) = 0 \<and> q_rows (fst (query q db)) = Some (map message_row (take n (rev (filter P ms)))))"



section \<open>Times\<close>

text \<open>
  The number of milliseconds that \<open>FROM_UNIXTIME\<close> reads from a decimal number of seconds, at the
  precision of \<open>TIMESTAMP(3)\<close>.
\<close>

definition decimal_ms :: "string \<Rightarrow> nat" where
  "decimal_ms s =
     1000 * digits_val (takeWhile isdigit s) + digits_val (take 3 (drop 1 (dropWhile isdigit s) @ ''000''))"

lemma decimal_ms_split: "decimal_ms (show_nat a @ CHR ''.'' # show_nat b) = 1000 * a + digits_val (take 3 (show_nat b @ ''000''))"
proof -
  have "takeWhile isdigit (show_nat a @ CHR ''.'' # show_nat b) = show_nat a"
    using show_nat_digits [of a] by (intro takeWhile_append_stop) (simp_all add: isdigit_def)
  moreover have "dropWhile isdigit (show_nat a @ CHR ''.'' # show_nat b) = CHR ''.'' # show_nat b"
    using show_nat_digits [of a] by (simp add: dropWhile_append isdigit_def)
  ultimately show ?thesis by (simp add: decimal_ms_def)
qed

lemma fraction_val:
  assumes "b < 1000"
  shows "digits_val (take 3 (show_nat b @ ''000'')) = (if b < 10 then 100 * b else if b < 100 then 10 * b else b)"
proof -
  have z: "(of_char (CHR ''0'') :: nat) = 48" by simp
  consider "b < 10" | "10 \<le> b" "b < 100" | "100 \<le> b" by linarith
  then show ?thesis
  proof cases
    case 1
    then show ?thesis by (subst show_nat.simps) (simp add: digits_val_def)
  next
    case 2
    then have "show_nat b = [digit_char (b div 10), digit_char (b mod 10)]"
      by (subst show_nat.simps, subst show_nat.simps) (simp add: div_less_dividend)
    with 2 show ?thesis by (simp add: digits_val_def)
  next
    case 3
    with assms have "show_nat b = [digit_char (b div 100), digit_char (b div 10 mod 10), digit_char (b mod 10)]"
      by (subst show_nat.simps, subst show_nat.simps, subst show_nat.simps)
        (simp add: div_mult2_eq [symmetric] div_less_iff_less_mult)
    moreover from this have "take 3 (show_nat b @ ''000'') = show_nat b" by simp
    ultimately show ?thesis using 3 digits_val_show_nat [of b] by simp
  qed
qed

lemma scaled_fraction:
  fixes x n :: nat
  assumes x: "x = 1000 * (n div 1000) +
      (if n mod 1000 < 10 then 100 * (n mod 1000) else if n mod 1000 < 100 then 10 * (n mod 1000) else n mod 1000)"
  shows "x = n \<longleftrightarrow> n mod 1000 = 0 \<or> 100 \<le> n mod 1000"
proof -
  obtain q m where q: "n div 1000 = q" and m: "n mod 1000 = m" and n: "n = 1000 * q + m"
    using mult_div_mod_eq [of 1000 n] by metis
  have x': "x = 1000 * q + (if m < 10 then 100 * m else if m < 100 then 10 * m else m)"
    using x unfolding q m .
  have "x = n \<longleftrightarrow> m = 0 \<or> 100 \<le> m" unfolding x' n by auto
  then show ?thesis unfolding m .
qed

text \<open>
  The milliseconds are written without leading zeros, so the time that is stored is the time of the
  message only when they are zero or have three digits.
\<close>

lemma sql_time_exact:
  assumes "0 \<le> sint ts"
  shows "int (decimal_ms (sql_time ts)) = sint ts \<longleftrightarrow> sint ts mod 1000 = 0 \<or> 100 \<le> sint ts mod 1000"
proof -
  define n where "n = nat (sint ts)"
  have n: "sint ts = int n" using assms by (simp add: n_def)
  have "sint ts sdiv 1000 = int (n div 1000)" "sint ts smod 1000 = int (n mod 1000)"
    by (simp_all add: n signed_divide_int_def signed_modulo_int_def sgn_if zdiv_int zmod_int)
  then have "sql_time ts = show_nat (n div 1000) @ CHR ''.'' # show_nat (n mod 1000)"
    by (simp add: sql_time_def show_int_def)
  then have "decimal_ms (sql_time ts) = 1000 * (n div 1000) + digits_val (take 3 (show_nat (n mod 1000) @ ''000''))"
    by (simp add: decimal_ms_split)
  also have "\<dots> = 1000 * (n div 1000) +
      (if n mod 1000 < 10 then 100 * (n mod 1000) else if n mod 1000 < 100 then 10 * (n mod 1000) else n mod 1000)"
    by (subst fraction_val) simp_all
  finally have "decimal_ms (sql_time ts) = n \<longleftrightarrow> n mod 1000 = 0 \<or> 100 \<le> n mod 1000"
    by (rule scaled_fraction)
  moreover have "sint ts mod 1000 = int (n mod 1000)" by (simp add: n zmod_int)
  ultimately show ?thesis using n by simp
qed

end
