(* ===== verification/Spec2Isabelle.thy ===== *)
theory Spec2Isabelle
  imports Event_Loop Client Mysql_Store
begin

text \<open>
  A verification library for the chat server.

  \<^bold>\<open>The program.\<close> Clients speak JSON in length-prefixed frames over TCP. One reactor thread accepts
  connections and moves bytes; every complete frame becomes a job of a thread pool, whose workers
  run the request handlers. The handlers use the session manager, presence, the room cache, the
  message router and a store with users, sessions, rooms, messages and queues for users who are
  offline. Replies and events are appended to the output of a connection and flushed by the
  reactor.

  \<^bold>\<open>Theories\<close>, each with the part of \<open>src/\<close> it models:
  \<^item> \<open>Chat_Prelude\<close>, \<open>Cxx_Std\<close>: shared types and lemmas, and what the code uses of the C++ standard
    library (conversion of numbers and strings, searching in strings).
  \<^item> \<open>Util\<close>: \<open>src/src/common/util.cpp\<close>, trimming, splitting, hexadecimal and base64 codecs.
  \<^item> \<open>Crypto\<close>: \<open>src/src/auth/crypto.cpp\<close>, SHA-256, HMAC, PBKDF2 and password records.
  \<^item> \<open>Framing\<close>: \<open>src/src/protocol/framing.cpp\<close>, frames and the decoder of the client.
  \<^item> \<open>Json\<close>, \<open>Json_Lexer\<close>, \<open>Json_Parser\<close>, \<open>Json_Serializer\<close>: the parser and the serializer of
    \<open>src/third_party/nlohmann/json.hpp\<close>; \<open>Json_Text\<close>, \<open>Json_Roundtrip\<close> and \<open>Json_Wf\<close> prove that they are
    inverse and that parsed values are well formed.
  \<^item> \<open>Messages\<close>: \<open>src/src/protocol/messages.cpp\<close>, the builders and accessors of protocol messages.
  \<^item> \<open>Repositories\<close>: the in-memory store of \<open>src/src/db/repositories.cpp\<close>.
  \<^item> \<open>Session\<close>, \<open>Presence\<close>, \<open>Room_Manager\<close>: \<open>src/src/auth/session.cpp\<close>, \<open>src/src/chat/presence.cpp\<close> and
    \<open>src/src/chat/room_manager.cpp\<close>.
  \<^item> \<open>Connection\<close>: \<open>src/src/net/connection.cpp\<close>, the two directions of a connection and its close.
  \<^item> \<open>Chat_State\<close>: the state the handlers share, as the record \<^typ>\<open>server\<close>, and the calls on it.
  \<^item> \<open>Message_Router\<close>, \<open>Handlers\<close>: \<open>src/src/chat/message_router.cpp\<close> and \<open>src/src/handlers/handlers.cpp\<close>.
  \<^item> \<open>Serving\<close>, \<open>Routing\<close>, \<open>Requests\<close>: the invariant \<^const>\<open>server_inv\<close> of that state and the rules by
    which every handler is shown to keep it and to answer.
  \<^item> \<open>Service\<close>, \<open>Accounts\<close>, \<open>Delivery\<close>: what the requests do, for the client.
  \<^item> \<open>Handler_Frame\<close>: what all handlers do to the state between two requests, for any order on states.
  \<^item> \<open>Chat_Server\<close>: \<open>src/src/net/server.cpp\<close>, the callbacks of \<open>src/src/chat/chat_server.cpp\<close> and the steps of the
    reactor and the workers, as the relation \<^const>\<open>step\<close>.
  \<^item> \<open>Config\<close>: \<open>src/src/common/config.cpp\<close>, the arguments and the configuration of \<open>src/src/main.cpp\<close>, and
    \<open>parse_level\<close> of \<open>src/src/common/logger.cpp\<close>.
  \<^item> \<open>Thread_Pool\<close>: \<open>src/src/common/thread_pool.cpp\<close>, with the mutex and the condition variable, as the
    relation \<^const>\<open>pool_step\<close>.
  \<^item> \<open>Reactor\<close>: the two reactors, \<open>src/src/net/reactor_epoll.cpp\<close> and \<open>src/src/net/reactor_select.cpp\<close>, with
    their tables, their queues of closures and their loops.
  \<^item> \<open>Platform\<close>: \<open>src/src/net/socket.cpp\<close>, the descriptors of the reactors, the socket helpers of
    \<open>src/include/common/platform.h\<close> and \<open>random_bytes\<close>, over the answers of the system calls.
  \<^item> \<open>Startup\<close>: \<open>ChatServer::init\<close> and \<open>stop\<close>, \<open>Server::listen\<close> and the start of \<open>main\<close>, which put the parts
    together.
  \<^item> \<open>Event_Loop\<close>: the loop of \<open>Reactor\<close> with the callbacks and closures of the server, as \<open>main\<close> runs it.
  \<^item> \<open>Client\<close>: \<open>src/client/cli_client.cpp\<close>, the words of a line, the requests of the commands and the two
    loops.
  \<^item> \<open>Mysql_Store\<close>, \<open>Mysql_Pool\<close>: the MySQL store of \<open>src/src/db/repositories.cpp\<close> and
    \<open>src/src/db/mysql_pool.cpp\<close>, with the client library as a parameter.

  \<^bold>\<open>How the code is rendered.\<close> A class is a record of its members and a method a function on it.
  Integers have the width of the code (\<open>std::uint64_t\<close> and \<open>std::int64_t\<close> are 64-bit words, the latter read
  by \<open>sint\<close>), a \<open>std::string\<close> is a list of characters, an \<open>std::unordered_map\<close> an association list whose
  order no theorem depends on. Exceptions are values: a handler is a function from the state to an
  exception or a result, with the state at that point. A shared pointer to a connection is its
  identifier; a closure posted to the reactor is the method it runs. What the kernel returns from
  \<open>recv\<close>, \<open>send\<close> and \<open>accept\<close> is a list of results given to the operation, and the end of the list is \<open>EAGAIN\<close>.
  Readings of the clock and random bytes come from two streams in the state, about which nothing is
  assumed. \<open>srv_to_chars\<close> prints floating point numbers and \<open>srv_ub\<close> is the value of a cast that C++ leaves
  undefined; both are arbitrary functions.

  \<^bold>\<open>Steps.\<close> A handler runs as one step of the server. Workers run in parallel, but each component the
  handlers share locks its own mutex for the length of a call, and the interleavings that the theorems
  cover are those of whole requests with each other, with events, with posted closures and with
  accepted connections. Jobs may run in any order.

  \<^bold>\<open>What is shown.\<close> In any state the server can reach the invariant holds, and every request is answered
  with one reply that carries its identifier (\<open>Chat_Server\<close>). No handler throws; without a session nothing but
  the public requests works; rooms are closed to others (\<open>Service\<close>). Registration, login and logout do
  what they should (\<open>Accounts\<close>), and messages reach the connections and queues they should, in order
  (\<open>Delivery\<close>). Below these, each component has the theorems of its own: round trips of the codecs, the
  JSON layer, frames and messages, the streams of a connection however they are cut, the standards behind
  the cryptography, and the invariants and abstract views of the store, the sessions, presence and the
  room cache. The interfaces between components are locales: \<open>frame_stream\<close> (both decoders),
  \<open>stream_hash\<close> and \<open>pseudo_random_function\<close> (the cryptography), \<open>session_store\<close> and \<open>membership_store\<close> (the store),
  \<open>reactor\<close> (both reactors) and \<open>state_order\<close> (what a request may change).
  The MySQL store builds statements that no text of a client can alter, and its histories are those
  of the in-memory store, each page cut to 200 messages and each content at its first zero byte; its
  pool conserves connections (\<open>Mysql_Store\<close>, \<open>Mysql_Pool\<close>). The thread pool runs each accepted job once and in
  order (\<open>Thread_Pool\<close>), and settings have a fixed precedence (\<open>Config\<close>). Both reactors run what is posted once
  and in order, and their loops end when they are stopped (\<open>Reactor\<close>); opening sockets loses no descriptor
  (\<open>Platform\<close>). A successful start leads from the configuration to a server that satisfies the invariant in every
  state it reaches (\<open>Startup\<close>), the loop of the reactor with the callbacks of the server takes only steps of the
  server and returns when it is stopped (\<open>Event_Loop\<close>), and the server understands every request the client makes (\<open>Client\<close>).
  Some theorems show behaviour that is not intended: a second login on a connection leaves the first
  user bound to it, a login that runs after its connection was closed loses messages, \<open>shutdown\<close> of
  the thread pool can block for ever, the MySQL store writes milliseconds without leading zeros, and
  its pool can lose all connections.

  \<^bold>\<open>Bounds.\<close> Identifiers are 64-bit counters; the number in \<open>server_inv n\<close> bounds them, and a request moves it by
  at most one, so that theorems about runs assume fewer than \<open>2 ^ 64 - 1\<close> steps. There is no fuel: every
  loop is a terminating function, except the loops of the reactors, which run until they are stopped and are
  partial functions with a theorem on when they return.

  \<^bold>\<open>Not modelled.\<close> The MySQL client library and the server behind it (\<open>Mysql_Store\<close> assumes how a literal is
  escaped and what a \<open>SELECT\<close> returns, and the handlers are verified over the in-memory store); \<open>parse_ts\<close>,
  which nothing calls; the text and the writing of log lines; signals; how the client opens its connection, its
  help text and the indentation of what it prints; the parts of the code for Windows; the clocks and the
  generator behind \<open>random_bytes\<close>, whose values are inputs; and the tests. The kernel is a source of answers: \<open>Reactor\<close> and
  \<open>Platform\<close> prove what holds whatever it says. \<open>Event_Loop\<close> lets the workers run while the reactor waits and assumes that
  \<open>epoll_ctl\<close> succeeds except for a new connection and that \<open>accept\<close> returns unused descriptors; it has no version for the select reactor.
\<close>

end
